(* ===== verification/Prelude.thy ===== *)
theory Prelude
  imports Main "HOL-Library.Word"
begin

text \<open>
  Shared material of the development: names for the machine's integer types, the C library
  primitives the sources lean on (block copies, reallocation, error numbers) and the generic lemmas
  on lists and words that the component theories use through the collections below.
\<close>

unbundle bit_operations_syntax

named_theorems c_defs \<open>definitions of C-level primitives, unfolded by component proofs\<close>
named_theorems word_to_nat \<open>rules that move word arithmetic to natural numbers\<close>

type_synonym u8 = "8 word"
type_synonym u16 = "16 word"
type_synonym u32 = "32 word"
type_synonym u64 = "64 word"

subsection \<open>Error numbers of \<^verbatim>\<open>errno.h\<close>\<close>

definition ENOENT :: int where "ENOENT = 2"
definition EBADF :: int where "EBADF = 9"
definition ENOMEM :: int where "ENOMEM = 12"
definition EACCES :: int where "EACCES = 13"
definition EFAULT :: int where "EFAULT = 14"
definition ENOTDIR :: int where "ENOTDIR = 20"
definition EINVAL :: int where "EINVAL = 22"
definition ENOSYS :: int where "ENOSYS = 38"
definition ECANCELED :: int where "ECANCELED = 125"

lemmas errno_defs = ENOENT_def EBADF_def ENOMEM_def EACCES_def EFAULT_def ENOTDIR_def
  EINVAL_def ENOSYS_def ECANCELED_def

declare errno_defs [c_defs]

subsection \<open>Block copies\<close>

text \<open>
  \<open>blit dst off src n\<close> is the contents of the array \<open>dst\<close> after
  \<^verbatim>\<open>memcpy(&dst[off], src, n)\<close>, for a copy that stays inside both arrays.
\<close>

definition blit :: "'a list \<Rightarrow> nat \<Rightarrow> 'a list \<Rightarrow> nat \<Rightarrow> 'a list" where
  "blit dst off src n = take off dst @ take n src @ drop (off + n) dst"

text \<open>\<open>subseg xs off n\<close> is the \<open>n\<close> elements that \<^verbatim>\<open>&xs[off]\<close> points to.\<close>

definition subseg :: "'a list \<Rightarrow> nat \<Rightarrow> nat \<Rightarrow> 'a list" where
  "subseg xs off n = take n (drop off xs)"

lemma length_blit [simp]:
  "off + n \<le> length dst \<Longrightarrow> n \<le> length src \<Longrightarrow> length (blit dst off src n) = length dst"
  by (simp add: blit_def)

lemma nth_blit:
  assumes "off + n \<le> length dst" "n \<le> length src" "i < length dst"
  shows "blit dst off src n ! i = (if off \<le> i \<and> i < off + n then src ! (i - off) else dst ! i)"
  using assms by (auto simp: blit_def nth_append min_def)

lemma length_subseg [simp]: "off + n \<le> length xs \<Longrightarrow> length (subseg xs off n) = n"
  by (simp add: subseg_def)

lemma nth_subseg: "i < n \<Longrightarrow> off + n \<le> length xs \<Longrightarrow> subseg xs off n ! i = xs ! (off + i)"
  by (simp add: subseg_def)

text \<open>
  A \<^verbatim>\<open>memcpy\<close> with its bounds: \<open>None\<close> is the undefined behaviour of a copy that leaves
  one of the two arrays.
\<close>

definition memcpy_ck :: "'a list \<Rightarrow> nat \<Rightarrow> 'a list \<Rightarrow> nat \<Rightarrow> nat \<Rightarrow> 'a list option" where
  "memcpy_ck dst off src soff n =
     (if off + n \<le> length dst \<and> soff + n \<le> length src
      then Some (blit dst off (subseg src soff n) n) else None)"

lemma memcpy_ck_Some:
  "off + n \<le> length dst \<Longrightarrow> soff + n \<le> length src \<Longrightarrow>
   memcpy_ck dst off src soff n = Some (blit dst off (subseg src soff n) n)"
  by (simp add: memcpy_ck_def)

text \<open>
  \<^verbatim>\<open>realloc\<close>: the allocator's answer \<open>ok\<close> and the contents \<open>fill\<close> of fresh bytes are arguments,
  so that every theorem quantifies over them. \<open>None\<close> is the null pointer.
\<close>

definition c_realloc :: "bool \<Rightarrow> 'a \<Rightarrow> 'a list option \<Rightarrow> nat \<Rightarrow> 'a list option" where
  "c_realloc ok fill old n =
     (if ok then
        (let xs = (case old of None \<Rightarrow> [] | Some ys \<Rightarrow> ys)
         in Some (take n xs @ replicate (n - length xs) fill))
      else None)"

lemma c_realloc_Some: "c_realloc ok fill old n = Some xs \<Longrightarrow> length xs = n"
  by (auto simp: c_realloc_def Let_def split: if_splits option.splits)

lemma c_realloc_None_iff [simp]: "c_realloc ok fill old n = None \<longleftrightarrow> \<not> ok"
  by (simp add: c_realloc_def Let_def)

lemma upt_small: "[0..<2] = [0, 1]" "[0..<4] = [0, 1, 2, 3]" "[0..<8] = [0, 1, 2, 3, 4, 5, 6, 7]"
  by (simp_all add: upt_rec)

subsection \<open>Powers of two\<close>

lemma nat_and_pred_pow2:
  fixes n :: nat
  assumes "0 < n" "n AND (n - 1) = 0"
  shows "\<exists>k. n = 2 ^ k"
  using assms
proof (induction n rule: less_induct)
  case (less n)
  have rec: "n AND (n - 1) = of_bool (odd n \<and> odd (n - 1)) + 2 * ((n div 2) AND ((n - 1) div 2))"
    by (rule and_rec)
  show ?case
  proof (cases "even n")
    case False
    then have "(n - 1) div 2 = n div 2" by (elim oddE) simp
    with rec less.prems have "n div 2 = 0" by simp
    with False have "n = 1" by (elim oddE) simp
    then show ?thesis by (intro exI [of _ 0]) simp
  next
    case True
    then obtain m where m: "n = 2 * m" by (elim evenE)
    with less.prems have "0 < m" "(n - 1) div 2 = m - 1" by auto
    with rec less.prems m have "m AND (m - 1) = 0" by simp
    with \<open>0 < m\<close> m less.IH [of m] obtain k where "m = 2 ^ k" by auto
    with m show ?thesis by (intro exI [of _ "Suc k"]) simp
  qed
qed

text \<open>The test \<^verbatim>\<open>size != 0 && !(size & (size - 1))\<close> recognises exactly the powers of two.\<close>

definition is_pow2 :: "u64 \<Rightarrow> bool" where
  "is_pow2 w \<longleftrightarrow> w \<noteq> 0 \<and> w AND (w - 1) = 0"

lemma unat_minus_one_u64: "(w :: u64) \<noteq> 0 \<Longrightarrow> unat (w - 1) = unat w - 1"
  by (simp add: unat_minus_one)

lemma unat_and_u64: "unat ((a :: u64) AND b) = unat a AND unat b"
  by (simp add: unsigned_and_eq)

lemma unat_pow2_u64:
  assumes "k < 64"
  shows "unat (2 ^ k :: u64) = 2 ^ k"
proof -
  have "unat (push_bit k (1 :: u64)) = take_bit LENGTH(64) (push_bit k (unat (1 :: u64)))"
    by (rule unsigned_push_bit_eq)
  also have "\<dots> = take_bit 64 (2 ^ k)" by (simp add: push_bit_eq_mult)
  also have "\<dots> = 2 ^ k"
    using assms by (intro take_bit_nat_eq_self power_strict_increasing) auto
  finally show ?thesis by (simp add: push_bit_eq_mult)
qed

lemma is_pow2_exp:
  assumes "is_pow2 w"
  obtains k where "k < 64" "unat w = 2 ^ k" "w = 2 ^ k"
proof -
  have nz: "0 < unat w" using assms by (auto simp: is_pow2_def unat_gt_0)
  then have "w \<noteq> 0" by auto
  note pred = unat_minus_one_u64 [OF this]
  have "unat w AND (unat w - 1) = unat (w AND (w - 1))"
    by (simp only: unat_and_u64 pred)
  also have "\<dots> = 0" using assms by (simp add: is_pow2_def)
  finally obtain k where k: "unat w = 2 ^ k" using nat_and_pred_pow2 nz by blast
  have "(2::nat) ^ k < 2 ^ 64" using unsigned_less [where w = w and ?'a = nat] k by simp
  then have "k < 64" by (simp only: power_strict_increasing_iff one_less_numeral_iff semiring_norm)
  moreover have "w = 2 ^ k" using k \<open>k < 64\<close> by (simp only: word_unat_eq_iff unat_pow2_u64)
  ultimately show ?thesis using that k by blast
qed

text \<open>Masking with \<open>2\<^sup>k - 1\<close> is reduction modulo \<open>2\<^sup>k\<close>.\<close>

lemma unat_and_mask_u64: "unat ((x :: u64) AND (2 ^ k - 1)) = unat x mod 2 ^ k"
proof -
  have "x AND (2 ^ k - 1) = take_bit k x" by (simp add: take_bit_eq_mask mask_eq_exp_minus_1)
  then show ?thesis by (simp only: unsigned_take_bit_eq) (simp only: take_bit_eq_mod)
qed

subsection \<open>Conversions between \<^verbatim>\<open>size_t\<close> and \<^verbatim>\<open>int\<close>\<close>

text \<open>Storing a \<^verbatim>\<open>size_t\<close> in an \<^verbatim>\<open>int\<close> and using it as a \<^verbatim>\<open>size_t\<close> again.\<close>

definition via_int :: "u64 \<Rightarrow> u64" where
  "via_int x = scast (ucast x :: u32)"

lemma u64_take_bit_self: "unat (x :: u64) < 2 ^ n \<Longrightarrow> take_bit n x = x"
  by (simp add: word_unat_eq_iff unsigned_take_bit_eq take_bit_nat_eq_self)

lemma via_int_small:
  assumes "unat x < 2 ^ 31"
  shows "via_int x = x"
proof -
  have tb: "take_bit 31 x = x" using assms by (rule u64_take_bit_self)
  then have "\<not> bit x 31" by (metis bit_take_bit_iff less_irrefl)
  with tb have "signed_take_bit 31 x = x" by (simp add: signed_take_bit_eq_if_positive)
  then show ?thesis by (simp add: via_int_def signed_ucast_eq)
qed

text \<open>An \<^verbatim>\<open>int\<close> power of two below the sign bit, widened to 64 bits.\<close>

lemma scast_push_bit_u32: "j < 31 \<Longrightarrow> scast (push_bit j 1 :: u32) = (2 ^ j :: u64)"
  by (rule bit_eqI) (auto simp: bit_signed_iff bit_push_bit_iff bit_1_iff bit_exp_iff min_def)

lemma and_numeral_masks:
  "(x :: 'a :: len word) AND 0xFF = take_bit 8 x" "x AND 0x1F = take_bit 5 x" "x AND 7 = take_bit 3 x"
  by (simp_all add: take_bit_eq_mask mask_eq_exp_minus_1)

subsection \<open>From words to natural numbers\<close>

lemma unat_drop_bit_u64 [word_to_nat]: "unat (drop_bit n (x :: u64)) = unat x div 2 ^ n"
  by (subst unat_drop_bit_eq) (rule drop_bit_eq_div)

lemma unat_of_nat_u64: "n < 2 ^ 64 \<Longrightarrow> unat (of_nat n :: u64) = n"
  by (simp add: unat_of_nat)

lemma of_nat_eq_iff_u64:
  assumes "i < 2 ^ 64" "j < 2 ^ 64"
  shows "(of_nat i :: u64) = of_nat j \<longleftrightarrow> i = j"
  using assms unat_of_nat_u64 by metis

lemma unat_diff_u64: "unat (b :: u64) \<le> unat a \<Longrightarrow> unat (a - b) = unat a - unat b"
  by (simp add: unat_sub word_le_nat_alt)

lemma unat_diff_wrap_u64:
  "unat (a :: u64) < unat b \<Longrightarrow> unat (a - b) = unat a + 2 ^ 64 - unat b"
  by (simp add: unat_sub_if')

lemma unat_add_u64: "unat (a :: u64) + unat b < 2 ^ 64 \<Longrightarrow> unat (a + b) = unat a + unat b"
  by (simp add: unat_word_ariths)

lemma sint_neg_iff_u64: "sint (x :: u64) < 0 \<longleftrightarrow> 2 ^ 63 \<le> unat x"
proof -
  have "sint x < 0 \<longleftrightarrow> bit x 63" using bit_last_iff [of x] by simp
  also have "\<dots> \<longleftrightarrow> bit (unat x) 63" by (simp add: bit_unsigned_iff)
  also have "\<dots> \<longleftrightarrow> odd (unat x div 2 ^ 63)" by (rule bit_iff_odd)
  also have "\<dots> \<longleftrightarrow> 2 ^ 63 \<le> unat x"
  proof -
    have "unat x div 2 ^ 63 < 2" using unsigned_less [where w = x and ?'a = nat]
      by (simp add: div_less_iff_less_mult)
    then show ?thesis
      by (metis One_nat_def bot_nat_0.not_eq_extremum div_greater_zero_iff dvd_0_right less_2_cases
          odd_one zero_less_numeral zero_less_power)
  qed
  finally show ?thesis .
qed

lemma sint_of_int_u64: "- (2 ^ 63) \<le> k \<Longrightarrow> k < 2 ^ 63 \<Longrightarrow> sint (word_of_int k :: u64) = k"
  by (simp add: signed_of_int signed_take_bit_int_eq_self)

text \<open>Flipping the bit above a \<open>k\<close>-bit position adds \<open>2\<^sup>k\<close> modulo \<open>2\<^sup>k\<^sup>+\<^sup>1\<close>.\<close>

lemma nat_xor_pow2:
  fixes x :: nat
  assumes "x < 2 * 2 ^ k"
  shows "x XOR 2 ^ k = (x + 2 ^ k) mod (2 * 2 ^ k)"
proof (cases "x < 2 ^ k")
  case True
  then have "x AND 2 ^ k = 0" by (simp add: and_exp_eq_0_iff_not_bit bit_iff_odd)
  then have "x + 2 ^ k = x XOR 2 ^ k" by (rule disjunctive_add_eq_xor)
  with True show ?thesis by simp
next
  case False
  define y where "y = x - 2 ^ k"
  have y: "x = y + 2 ^ k" "y < 2 ^ k" using False assms by (auto simp: y_def)
  then have "y AND 2 ^ k = 0" by (simp add: and_exp_eq_0_iff_not_bit bit_iff_odd)
  then have "x = y XOR 2 ^ k" using y disjunctive_add_eq_xor by metis
  then have "x XOR 2 ^ k = y" by (simp add: xor.assoc)
  moreover have "(x + 2 ^ k) mod (2 * 2 ^ k) = y"
  proof -
    have "x + 2 ^ k = y + 1 * (2 * 2 ^ k)" using y by simp
    then show ?thesis using y by (simp only: mod_mult_self1) simp
  qed
  ultimately show ?thesis by simp
qed

subsection \<open>Forward simulation\<close>

text \<open>
  Running a list of operations on a concrete component, whose step may be undefined (\<open>None\<close>: a memory
  error or a failed assertion), and on its abstract specification, which is total.
\<close>

fun run_steps :: "('c \<Rightarrow> 'o \<Rightarrow> ('r \<times> 'c) option) \<Rightarrow> 'c \<Rightarrow> 'o list \<Rightarrow> ('r list \<times> 'c) option" where
  "run_steps step c [] = Some ([], c)"
| "run_steps step c (x # xs) =
     (case step c x of
        None \<Rightarrow> None
      | Some (r, c') \<Rightarrow>
          (case run_steps step c' xs of None \<Rightarrow> None | Some (rs, c'') \<Rightarrow> Some (r # rs, c'')))"

fun run_spec :: "('a \<Rightarrow> 'o \<Rightarrow> 'r \<times> 'a) \<Rightarrow> 'a \<Rightarrow> 'o list \<Rightarrow> 'r list \<times> 'a" where
  "run_spec spec a [] = ([], a)"
| "run_spec spec a (x # xs) =
     (let (r, a') = spec a x; (rs, a'') = run_spec spec a' xs in (r # rs, a''))"

text \<open>
  The contract of a component that implements a specification: under its invariant every valid
  operation is defined, keeps the invariant, and returns and does what the specification says of the
  abstract state.
\<close>

locale refinement =
  fixes step :: "'c \<Rightarrow> 'o \<Rightarrow> ('r \<times> 'c) option"
    and spec :: "'a \<Rightarrow> 'o \<Rightarrow> 'r \<times> 'a"
    and inv :: "'c \<Rightarrow> bool"
    and abs :: "'c \<Rightarrow> 'a"
    and valid :: "'o \<Rightarrow> bool"
  assumes simulates:
    "inv c \<Longrightarrow> valid x \<Longrightarrow> \<exists>r c'. step c x = Some (r, c') \<and> inv c' \<and> spec (abs c) x = (r, abs c')"
begin

lemma run_simulates:
  "inv c \<Longrightarrow> list_all valid xs \<Longrightarrow>
   \<exists>rs c'. run_steps step c xs = Some (rs, c') \<and> inv c' \<and> run_spec spec (abs c) xs = (rs, abs c')"
proof (induction xs arbitrary: c)
  case Nil
  then show ?case by simp
next
  case (Cons x xs)
  then obtain r c' where s: "step c x = Some (r, c')" "inv c'" "spec (abs c) x = (r, abs c')"
    using simulates [of c x] by auto
  with Cons obtain rs c'' where "run_steps step c' xs = Some (rs, c'')" "inv c''"
    "run_spec spec (abs c') xs = (rs, abs c'')" by fastforce
  with s show ?case by simp
qed

end

end
