(* ===== verification/Cbuf.thy ===== *)
theory Cbuf
  imports Prelude
begin

text \<open>
  The circular buffer of the GLIP library, \<^verbatim>\<open>opensocdebug/glip/src/cbuf.c\<close>. The record
  \<open>cbuf\<close> has the fields of \<^verbatim>\<open>struct cbuf\<close>; the condition variable is represented by the number
  of broadcasts issued on it. Pointers handed out by \<^verbatim>\<open>cbuf_reserve\<close> and \<^verbatim>\<open>cbuf_peek\<close> are values of
  \<open>cptr\<close>. An operation that copies memory returns an \<open>option\<close>, with \<open>None\<close> for a copy that would
  leave one of its arrays, so that memory safety is part of every theorem that says \<open>Some\<close>.
\<close>

subsection \<open>State\<close>

record cbuf =
  level_changed :: nat
  wr_ptr :: u64
  rd_ptr :: u64
  bsize :: u64
  bdata :: "u8 list"
  hint_max_read_size :: u64
  read_data_tmp_size :: u64
  read_data_tmp :: "u8 list option"
  hint_max_write_size :: u64
  write_data_tmp_size :: u64
  write_data_tmp :: "u8 list option"
  cancel_waits :: bool

datatype cptr = AtData u64 | AtWriteTmp | AtReadTmp | NullPtr | Uninit

subsection \<open>Operations\<close>

definition cbuf_ptr_add :: "cbuf \<Rightarrow> u64 \<Rightarrow> u64 \<Rightarrow> u64" where
  "cbuf_ptr_add buf val1 val2 = (val1 + val2) AND (2 * bsize buf - 1)"

function cbuf_log2 :: "u64 \<Rightarrow> nat \<Rightarrow> nat" where
  "cbuf_log2 size_tmp log2_size =
     (let t = drop_bit 1 size_tmp
      in if t \<noteq> 0 then cbuf_log2 t (Suc log2_size) else log2_size)"
  by pat_completeness auto
termination
  by (relation "measure (\<lambda>(t, _). unat t)")
    (auto simp: word_to_nat word_unat_eq_iff simp del: drop_bit_Suc)

declare cbuf_log2.simps [simp del]

text \<open>
  \<^verbatim>\<open>1 << (log2_size + 1)\<close> is computed in \<^verbatim>\<open>int\<close> and then converted to \<^verbatim>\<open>size_t\<close>.
\<close>

definition cbuf_calc_bufsize :: "u64 \<Rightarrow> u64 \<Rightarrow> u64" where
  "cbuf_calc_bufsize size_req size_max =
     (let log2_size = cbuf_log2 size_req 0;
          pow_two = scast (push_bit (log2_size + 1) 1 :: u32)
      in if pow_two > size_max then size_max else pow_two)"

definition cbuf_cancel_waits :: "cbuf \<Rightarrow> cbuf" where
  "cbuf_cancel_waits buf =
     buf\<lparr>cancel_waits := True, level_changed := Suc (level_changed buf)\<rparr>"

text \<open>
  \<^verbatim>\<open>cbuf_init\<close>: \<open>None\<close> is the failed assertion on the size, \<open>Inl\<close> an error return. The two
  allocations are answered by \<open>ok1\<close> and \<open>ok2\<close>.
\<close>

definition cbuf_init :: "bool \<Rightarrow> bool \<Rightarrow> u64 \<Rightarrow> (int + cbuf) option" where
  "cbuf_init ok1 ok2 sz =
     (if \<not> (sz \<noteq> 0 \<and> sz AND (sz - 1) = 0) then None
      else if \<not> ok1 then Some (Inl (- ENOMEM))
      else if \<not> ok2 then Some (Inl (- ENOMEM))
      else Some (Inr
        \<lparr>level_changed = 0, wr_ptr = 0, rd_ptr = 0, bsize = sz, bdata = replicate (unat sz) 0,
         hint_max_read_size = 0, read_data_tmp_size = 0, read_data_tmp = None,
         hint_max_write_size = 0, write_data_tmp_size = 0, write_data_tmp = None,
         cancel_waits = False\<rparr>))"

text \<open>\<^verbatim>\<open>cbuf_free\<close>: the buffer after its waiters were woken, and no buffer afterwards.\<close>

definition cbuf_free :: "cbuf option \<Rightarrow> int \<times> cbuf option \<times> cbuf option" where
  "cbuf_free buf =
     (case buf of None \<Rightarrow> (0, None, None) | Some b \<Rightarrow> (0, Some (cbuf_cancel_waits b), None))"

definition cbuf_set_hint_max_read_size :: "cbuf \<Rightarrow> u64 \<Rightarrow> int \<times> cbuf" where
  "cbuf_set_hint_max_read_size buf h = (0, buf\<lparr>hint_max_read_size := h\<rparr>)"

definition cbuf_set_hint_max_write_size :: "cbuf \<Rightarrow> u64 \<Rightarrow> int \<times> cbuf" where
  "cbuf_set_hint_max_write_size buf h = (0, buf\<lparr>hint_max_write_size := h\<rparr>)"

definition cbuf_is_empty :: "cbuf \<Rightarrow> bool" where
  "cbuf_is_empty buf \<longleftrightarrow> wr_ptr buf = rd_ptr buf"

definition cbuf_is_full :: "cbuf \<Rightarrow> bool" where
  "cbuf_is_full buf \<longleftrightarrow> wr_ptr buf = (rd_ptr buf XOR bsize buf)"

definition cbuf_fill_level :: "cbuf \<Rightarrow> u64" where
  "cbuf_fill_level buf =
     (if cbuf_is_full buf then bsize buf
      else
        (let fill_level = (wr_ptr buf AND (bsize buf - 1)) - (rd_ptr buf AND (bsize buf - 1))
         in if sint fill_level < 0 then fill_level + bsize buf else fill_level))"

definition cbuf_free_level :: "cbuf \<Rightarrow> u64" where
  "cbuf_free_level buf = bsize buf - cbuf_fill_level buf"

definition cbuf_size :: "cbuf \<Rightarrow> u64" where
  "cbuf_size buf = bsize buf"

text \<open>Advancing a pointer under the mutex and waking the waiters.\<close>

definition cbuf_advance_wr :: "cbuf \<Rightarrow> u64 \<Rightarrow> cbuf" where
  "cbuf_advance_wr buf n =
     buf\<lparr>wr_ptr := cbuf_ptr_add buf (wr_ptr buf) n, level_changed := Suc (level_changed buf)\<rparr>"

definition cbuf_advance_rd :: "cbuf \<Rightarrow> u64 \<Rightarrow> cbuf" where
  "cbuf_advance_rd buf n =
     buf\<lparr>rd_ptr := cbuf_ptr_add buf (rd_ptr buf) n, level_changed := Suc (level_changed buf)\<rparr>"

definition cbuf_write :: "cbuf \<Rightarrow> u8 list \<Rightarrow> u64 \<Rightarrow> (int \<times> cbuf) option" where
  "cbuf_write buf data n =
     (let free_level = cbuf_free_level buf; w = wr_ptr buf AND (bsize buf - 1)
      in if n > free_level then Some (- EINVAL, buf)
         else if w + n \<le> bsize buf then
           (case memcpy_ck (bdata buf) (unat w) data 0 (unat n) of
              None \<Rightarrow> None
            | Some d \<Rightarrow> Some (0, cbuf_advance_wr (buf\<lparr>bdata := d\<rparr>) n))
         else
           (let size_at_end = bsize buf - w; size_at_start = n - size_at_end
            in case memcpy_ck (bdata buf) (unat w) data 0 (unat size_at_end) of
                 None \<Rightarrow> None
               | Some d \<Rightarrow>
                   (case memcpy_ck d 0 data (unat size_at_end) (unat size_at_start) of
                      None \<Rightarrow> None
                    | Some d' \<Rightarrow> Some (0, cbuf_advance_wr (buf\<lparr>bdata := d'\<rparr>) n))))"

text \<open>
  The growth of a temporary buffer, which \<^verbatim>\<open>cbuf_reserve\<close> and \<^verbatim>\<open>cbuf_peek\<close> do in the same way
  on their own size field, pointer and hint.
\<close>

definition cbuf_tmp_grow ::
    "bool \<Rightarrow> u8 \<Rightarrow> u64 \<Rightarrow> u64 \<Rightarrow> u64 \<Rightarrow> u64 \<Rightarrow> u8 list option \<Rightarrow> u64 \<times> u8 list option" where
  "cbuf_tmp_grow ok fill n hint size_max tmp_size tmp =
     (if tmp_size < n then
        (let sz = (if n \<le> hint then hint else cbuf_calc_bufsize n size_max)
         in (sz, c_realloc ok fill tmp (unat sz)))
      else (tmp_size, tmp))"

definition cbuf_reserve :: "bool \<Rightarrow> u8 \<Rightarrow> cbuf \<Rightarrow> u64 \<Rightarrow> int \<times> cptr \<times> cbuf" where
  "cbuf_reserve ok fill buf n =
     (let free_level = cbuf_free_level buf; w = wr_ptr buf AND (bsize buf - 1)
      in if n > free_level then (- EINVAL, Uninit, buf)
         else if w + n \<le> bsize buf then (0, AtData w, buf)
         else
           (let (sz, tmp) = cbuf_tmp_grow ok fill n (hint_max_write_size buf) (bsize buf)
                  (write_data_tmp_size buf) (write_data_tmp buf);
                buf' = buf\<lparr>write_data_tmp_size := sz, write_data_tmp := tmp\<rparr>
            in if write_data_tmp_size buf < n \<and> tmp = None
               then (- ENOMEM, Uninit, buf')
               else (0, (if tmp = None then NullPtr else AtWriteTmp), buf')))"

text \<open>\<^verbatim>\<open>data == buf->write_data_tmp\<close>\<close>

definition cptr_is_write_tmp :: "cbuf \<Rightarrow> cptr \<Rightarrow> bool" where
  "cptr_is_write_tmp buf p \<longleftrightarrow>
     (case write_data_tmp buf of None \<Rightarrow> p = NullPtr | Some _ \<Rightarrow> p = AtWriteTmp)"

definition cbuf_commit :: "cbuf \<Rightarrow> cptr \<Rightarrow> u64 \<Rightarrow> (int \<times> cbuf) option" where
  "cbuf_commit buf p n =
     (if n = 0 then Some (0, buf)
      else if cptr_is_write_tmp buf p then
        (case write_data_tmp buf of
           None \<Rightarrow> None
         | Some tmp \<Rightarrow>
             (let w = wr_ptr buf AND (bsize buf - 1); size_at_end = bsize buf - w
              in case memcpy_ck (bdata buf) (unat w) tmp 0 (unat size_at_end) of
                   None \<Rightarrow> None
                 | Some d \<Rightarrow>
                     if n > size_at_end then
                       (let size_at_start = n - size_at_end
                        in case memcpy_ck d 0 tmp (unat size_at_end) (unat size_at_start) of
                             None \<Rightarrow> None
                           | Some d' \<Rightarrow> Some (0, cbuf_advance_wr (buf\<lparr>bdata := d'\<rparr>) n))
                     else Some (0, cbuf_advance_wr (buf\<lparr>bdata := d\<rparr>) n)))
      else Some (0, cbuf_advance_wr buf n))"

text \<open>\<^verbatim>\<open>cbuf_read\<close> copies into the caller's array \<open>out\<close>.\<close>

definition cbuf_read :: "cbuf \<Rightarrow> u8 list \<Rightarrow> u64 \<Rightarrow> (int \<times> u8 list \<times> cbuf) option" where
  "cbuf_read buf out n =
     (if n = 0 then Some (0, out, buf)
      else if cbuf_fill_level buf < n then Some (- EINVAL, out, buf)
      else
        (let r = rd_ptr buf AND (bsize buf - 1)
         in if r + n \<le> bsize buf then
              (case memcpy_ck out 0 (bdata buf) (unat r) (unat n) of
                 None \<Rightarrow> None
               | Some out' \<Rightarrow> Some (0, out', cbuf_advance_rd buf n))
            else
              (let size_to_end = via_int (bsize buf - r)
               in case memcpy_ck out 0 (bdata buf) (unat r) (unat size_to_end) of
                    None \<Rightarrow> None
                  | Some out' \<Rightarrow>
                      (case memcpy_ck out' (unat size_to_end) (bdata buf) 0
                              (unat (n - size_to_end)) of
                         None \<Rightarrow> None
                       | Some out'' \<Rightarrow> Some (0, out'', cbuf_advance_rd buf n)))))"

definition cbuf_peek :: "bool \<Rightarrow> u8 \<Rightarrow> cbuf \<Rightarrow> u64 \<Rightarrow> (int \<times> cptr \<times> cbuf) option" where
  "cbuf_peek ok fill buf n =
     (if n = 0 then Some (0, Uninit, buf)
      else if cbuf_fill_level buf < n then Some (- EINVAL, Uninit, buf)
      else
        (let r = rd_ptr buf AND (bsize buf - 1)
         in if r + n \<le> bsize buf then Some (0, AtData r, buf)
            else
              (let (sz, tmp) = cbuf_tmp_grow ok fill n (hint_max_read_size buf) (bsize buf)
                     (read_data_tmp_size buf) (read_data_tmp buf);
                   buf' = buf\<lparr>read_data_tmp_size := sz, read_data_tmp := tmp\<rparr>
               in case tmp of
                    None \<Rightarrow>
                      (if read_data_tmp_size buf < n then Some (- ENOMEM, Uninit, buf') else None)
                  | Some t \<Rightarrow>
                      (let size_to_end = via_int (bsize buf - r)
                       in case memcpy_ck t 0 (bdata buf) (unat r) (unat size_to_end) of
                            None \<Rightarrow> None
                          | Some t' \<Rightarrow>
                              (case memcpy_ck t' (unat size_to_end) (bdata buf) 0
                                      (unat (n - size_to_end)) of
                                 None \<Rightarrow> None
                               | Some t'' \<Rightarrow>
                                   Some (0, AtReadTmp, buf'\<lparr>read_data_tmp := Some t''\<rparr>))))))"

definition cbuf_discard :: "cbuf \<Rightarrow> u64 \<Rightarrow> int \<times> cbuf" where
  "cbuf_discard buf n =
     (if cbuf_fill_level buf < n then (- EINVAL, buf) else (0, cbuf_advance_rd buf n))"

text \<open>
  The blocking waits. \<open>lock\<close> is what taking the mutex returns (\<^verbatim>\<open>pthread_mutex_lock\<close> or
  \<^verbatim>\<open>pthread_mutex_timedlock\<close>), \<open>wait\<close> what waiting on the condition variable returns together with
  the buffer as the other threads left it meanwhile.
\<close>

definition cbuf_wait_for_level_change ::
    "int \<Rightarrow> (cbuf \<Rightarrow> int \<times> cbuf) \<Rightarrow> cbuf \<Rightarrow> u64 \<Rightarrow> int \<times> cbuf" where
  "cbuf_wait_for_level_change lock wait buf level =
     (let (rv, buf') =
        (if lock \<noteq> 0 then (lock, buf)
         else if cbuf_fill_level buf \<noteq> level then (0, buf)
         else wait buf)
      in (- (if cancel_waits buf' then ECANCELED else rv), buf'))"

definition cbuf_timedwait_for_level_change ::
    "('t \<Rightarrow> int) \<Rightarrow> ('t \<Rightarrow> cbuf \<Rightarrow> int \<times> cbuf) \<Rightarrow> cbuf \<Rightarrow> u64 \<Rightarrow> 't \<Rightarrow> int \<times> cbuf" where
  "cbuf_timedwait_for_level_change timedlock timedwait buf level abs_timeout =
     (let (rv, buf') =
        (if timedlock abs_timeout \<noteq> 0 then (timedlock abs_timeout, buf)
         else if cbuf_fill_level buf \<noteq> level then (0, buf)
         else timedwait abs_timeout buf)
      in (- (if cancel_waits buf' then ECANCELED else rv), buf'))"

subsection \<open>Ring arithmetic on lists\<close>

definition ring_read :: "'a list \<Rightarrow> nat \<Rightarrow> nat \<Rightarrow> 'a list" where
  "ring_read d r m = map (\<lambda>i. d ! ((r + i) mod length d)) [0..<m]"

definition ring_write :: "'a list \<Rightarrow> nat \<Rightarrow> 'a list \<Rightarrow> nat \<Rightarrow> 'a list" where
  "ring_write d w data m =
     (if w + m \<le> length d then blit d w data m
      else blit (blit d w data (length d - w)) 0 (drop (length d - w) data) (m - (length d - w)))"

lemma length_ring_read [simp]: "length (ring_read d r m) = m"
  by (simp add: ring_read_def)

lemma nth_ring_read [simp]: "i < m \<Longrightarrow> ring_read d r m ! i = d ! ((r + i) mod length d)"
  by (simp add: ring_read_def)

lemma ring_read_append: "ring_read d r (a + b) = ring_read d r a @ ring_read d (r + a) b"
  by (rule nth_equalityI) (auto simp: nth_append add.assoc)

lemma ring_read_mod: "ring_read d (r mod length d) m = ring_read d r m"
  by (simp add: ring_read_def mod_simps)

lemma ring_read_take: "m \<le> a \<Longrightarrow> take m (ring_read d r a) = ring_read d r m"
  by (rule nth_equalityI) auto

lemma ring_read_drop: "m \<le> a \<Longrightarrow> drop m (ring_read d r a) = ring_read d (r + m) (a - m)"
  by (rule nth_equalityI) (auto simp: add.assoc)

lemma mod_lt_twice: "x < 2 * m \<Longrightarrow> x mod m = (if x < m then x else x - m)" for m :: nat
  by (simp add: le_mod_geq)

lemma ring_read_subseg:
  assumes "r < length d" "m \<le> length d"
  shows "ring_read d r m =
    (if r + m \<le> length d then subseg d r m
     else subseg d r (length d - r) @ subseg d 0 (m - (length d - r)))"
proof (rule nth_equalityI, goal_cases)
  case 1
  show ?case using assms by (simp add: subseg_def)
next
  case (2 i)
  then have "(r + i) mod length d = (if r + i < length d then r + i else r + i - length d)"
    using assms by (intro mod_lt_twice) simp
  then show ?case using 2 assms by (auto simp: subseg_def nth_append add.commute)
qed

lemma length_ring_write [simp]:
  "w < length d \<Longrightarrow> m \<le> length d \<Longrightarrow> m \<le> length data \<Longrightarrow>
   length (ring_write d w data m) = length d"
  by (auto simp: ring_write_def)

lemma nth_ring_write:
  assumes "w < length d" "m \<le> length d" "m \<le> length data" "i < length d"
  shows "ring_write d w data m ! ((w + i) mod length d) =
    (if i < m then data ! i else d ! ((w + i) mod length d))"
proof -
  have m: "(w + i) mod length d = (if w + i < length d then w + i else w + i - length d)"
    using assms by (intro mod_lt_twice) simp
  have lt: "(w + i) mod length d < length d" using assms by (intro mod_less_divisor) linarith
  show ?thesis
  proof (cases "w + m \<le> length d")
    case True
    with assms m lt show ?thesis by (auto simp: ring_write_def nth_blit)
  next
    case False
    with assms m lt show ?thesis
      by (auto simp: ring_write_def nth_blit algebra_simps)
  qed
qed

lemma ring_read_write_new:
  assumes "0 < length d" "m \<le> length d" "m \<le> length data"
  shows "ring_read (ring_write d (w mod length d) data m) w m = take m data"
proof (rule nth_equalityI, goal_cases)
  case 1
  show ?case using assms by simp
next
  case (2 i)
  have "(w mod length d + i) mod length d = (w + i) mod length d" by (simp add: mod_simps)
  then show ?case
    using 2 assms nth_ring_write [of "w mod length d" d m data i] by simp
qed

lemma ring_read_write_old:
  assumes "0 < length d" "a + m \<le> length d" "m \<le> length data"
    and w: "w = (r + a) mod length d"
  shows "ring_read (ring_write d w data m) r a = ring_read d r a"
proof (rule nth_equalityI, goal_cases)
  case 1
  show ?case by simp
next
  case (2 i)
  let ?N = "length d" and ?j = "length d - a + i"
  have i: "i < a" using 2 by simp
  have "(w + ?j) mod ?N = (r + a + ?j) mod ?N" by (simp add: w mod_simps)
  also have "r + a + ?j = r + i + ?N" using assms(2) by simp
  finally have eq: "(w + ?j) mod ?N = (r + i) mod ?N" by simp
  have "w < ?N" using assms by simp
  have "?j < ?N" "\<not> ?j < m" using i assms(2) by auto
  have "ring_write d w data m ! ((w + ?j) mod ?N) =
      (if ?j < m then data ! ?j else d ! ((w + ?j) mod ?N))"
    using assms \<open>w < ?N\<close> \<open>?j < ?N\<close> by (intro nth_ring_write) auto
  with \<open>\<not> ?j < m\<close> have "ring_write d w data m ! ((r + i) mod ?N) = d ! ((r + i) mod ?N)"
    by (simp only: eq if_False)
  with i assms \<open>w < ?N\<close> show ?case by simp
qed

subsection \<open>Invariant and abstraction\<close>

text \<open>
  The pointers run modulo twice the buffer size, so that a full and an empty buffer differ. The
  buffer is smaller than 2 GiB, because \<^verbatim>\<open>cbuf_read\<close> and \<^verbatim>\<open>cbuf_peek\<close> keep a length in an
  \<^verbatim>\<open>int\<close>.
\<close>

definition cbuf_used :: "cbuf \<Rightarrow> nat" where
  "cbuf_used b =
     (unat (wr_ptr b) + 2 * unat (bsize b) - unat (rd_ptr b)) mod (2 * unat (bsize b))"

definition cbuf_inv :: "cbuf \<Rightarrow> bool" where
  "cbuf_inv b \<longleftrightarrow>
     is_pow2 (bsize b) \<and> unat (bsize b) < 2 ^ 31 \<and> length (bdata b) = unat (bsize b) \<and>
     unat (wr_ptr b) < 2 * unat (bsize b) \<and> unat (rd_ptr b) < 2 * unat (bsize b) \<and>
     cbuf_used b \<le> unat (bsize b)"

definition cbuf_list :: "cbuf \<Rightarrow> u8 list" where
  "cbuf_list b = ring_read (bdata b) (unat (rd_ptr b)) (cbuf_used b)"

lemma length_cbuf_list [simp]: "length (cbuf_list b) = cbuf_used b"
  by (simp add: cbuf_list_def)

lemma cbuf_inv_exp:
  assumes "cbuf_inv b"
  obtains k where "k < 31" "unat (bsize b) = 2 ^ k" "bsize b = 2 ^ k"
proof -
  obtain k where k: "k < 64" "unat (bsize b) = 2 ^ k" "bsize b = 2 ^ k"
    using assms is_pow2_exp unfolding cbuf_inv_def by blast
  then have "(2::nat) ^ k < 2 ^ 31" using assms by (simp only: cbuf_inv_def)
  then have "k < 31" by (simp only: power_strict_increasing_iff one_less_numeral_iff semiring_norm)
  with k show ?thesis using that by blast
qed

lemma cbuf_size_pos: "cbuf_inv b \<Longrightarrow> 0 < unat (bsize b)"
  by (elim cbuf_inv_exp) simp

lemma unat_mask_size: "cbuf_inv b \<Longrightarrow> unat (x AND (bsize b - 1)) = unat x mod unat (bsize b)"
  by (elim cbuf_inv_exp) (simp only: unat_and_mask_u64)

lemma unat_cbuf_ptr_add:
  assumes "cbuf_inv b"
  shows "unat (cbuf_ptr_add b x y) = (unat x + unat y) mod (2 * unat (bsize b))"
proof -
  obtain k where k: "k < 31" "unat (bsize b) = 2 ^ k" "bsize b = 2 ^ k"
    using assms by (elim cbuf_inv_exp)
  have "cbuf_ptr_add b x y = (x + y) AND (2 ^ Suc k - 1)"
    by (simp add: cbuf_ptr_add_def k)
  then have "unat (cbuf_ptr_add b x y) = unat (x + y) mod 2 ^ Suc k"
    by (simp only: unat_and_mask_u64)
  also have "\<dots> = (unat x + unat y) mod 2 ^ 64 mod 2 ^ Suc k" by (simp add: unat_word_ariths)
  also have "\<dots> = (unat x + unat y) mod 2 ^ Suc k"
    using k by (intro mod_mod_cancel le_imp_power_dvd) simp
  finally show ?thesis by (simp only: k(2) power_Suc)
qed

lemma cbuf_is_full_iff:
  assumes "cbuf_inv b"
  shows "cbuf_is_full b \<longleftrightarrow> cbuf_used b = unat (bsize b)"
proof -
  obtain k where k: "unat (bsize b) = 2 ^ k" using assms by (elim cbuf_inv_exp)
  let ?n = "unat (bsize b)" and ?w = "unat (wr_ptr b)" and ?r = "unat (rd_ptr b)"
  have inv: "?w < 2 * ?n" "?r < 2 * ?n" "0 < ?n"
    using assms cbuf_size_pos by (auto simp: cbuf_inv_def)
  have "cbuf_is_full b \<longleftrightarrow> ?w = ?r XOR ?n"
    by (simp add: cbuf_is_full_def word_unat_eq_iff unsigned_xor_eq)
  also have "?r XOR ?n = (?r + ?n) mod (2 * ?n)" using inv nat_xor_pow2 [of ?r k] k by simp
  also have "?w = (?r + ?n) mod (2 * ?n) \<longleftrightarrow> cbuf_used b = ?n"
    using inv by (auto simp: cbuf_used_def mod_lt_twice)
  finally show ?thesis .
qed

lemma cbuf_is_empty_iff:
  assumes "cbuf_inv b"
  shows "cbuf_is_empty b \<longleftrightarrow> cbuf_used b = 0"
proof -
  have "unat (wr_ptr b) < 2 * unat (bsize b)" "unat (rd_ptr b) < 2 * unat (bsize b)"
    using assms by (auto simp: cbuf_inv_def)
  then show ?thesis
    by (auto simp: cbuf_is_empty_def word_unat_eq_iff cbuf_used_def mod_lt_twice split: if_splits)
qed

lemma unat_cbuf_fill_level:
  assumes "cbuf_inv b"
  shows "unat (cbuf_fill_level b) = cbuf_used b"
proof (cases "cbuf_is_full b")
  case True
  then show ?thesis using assms cbuf_is_full_iff by (simp add: cbuf_fill_level_def)
next
  case False
  let ?n = "unat (bsize b)" and ?w = "unat (wr_ptr b)" and ?r = "unat (rd_ptr b)"
  let ?wm = "wr_ptr b AND (bsize b - 1)" and ?rm = "rd_ptr b AND (bsize b - 1)"
  have inv: "?w < 2 * ?n" "?r < 2 * ?n" "0 < ?n" "cbuf_used b < ?n" "?n < 2 ^ 31"
    using assms False cbuf_size_pos cbuf_is_full_iff [OF assms]
    by (auto simp: cbuf_inv_def)
  have m: "unat ?wm = ?w mod ?n" "unat ?rm = ?r mod ?n" using assms unat_mask_size by auto
  have b: "?w mod ?n < ?n" "?r mod ?n < ?n" using inv by auto
  have u: "cbuf_used b = (if ?r mod ?n \<le> ?w mod ?n then ?w mod ?n - ?r mod ?n
      else ?w mod ?n + ?n - ?r mod ?n)"
    using inv by (auto simp: cbuf_used_def mod_lt_twice split: if_splits)
  show ?thesis
  proof (cases "?r mod ?n \<le> ?w mod ?n")
    case True
    then have d: "unat (?wm - ?rm) = ?w mod ?n - ?r mod ?n" by (simp add: unat_diff_u64 m)
    have "?w mod ?n - ?r mod ?n < 2 ^ 31" using b inv by linarith
    with d have "\<not> sint (?wm - ?rm) < 0" by (simp add: sint_neg_iff_u64)
    with False True d u show ?thesis by (simp add: cbuf_fill_level_def Let_def)
  next
    case ge: False
    then have d: "unat (?wm - ?rm) = ?w mod ?n + 2 ^ 64 - ?r mod ?n"
      by (subst unat_diff_wrap_u64) (auto simp: m)
    have rb: "?r mod ?n < 2 ^ 31" using b inv by linarith
    with d have neg: "sint (?wm - ?rm) < 0" by (simp add: sint_neg_iff_u64)
    have "unat (?wm - ?rm + bsize b) = (unat (?wm - ?rm) + ?n) mod 2 ^ 64"
      by (simp add: unat_word_ariths)
    also have "unat (?wm - ?rm) + ?n = (?w mod ?n + ?n - ?r mod ?n) + 2 ^ 64"
      using d b(2) rb by simp
    also have "\<dots> mod 2 ^ 64 = ?w mod ?n + ?n - ?r mod ?n"
    proof -
      have "?w mod ?n + ?n - ?r mod ?n < 2 ^ 31" using b inv ge by linarith
      then show ?thesis by simp
    qed
    finally show ?thesis using False neg u ge by (simp add: cbuf_fill_level_def Let_def)
  qed
qed

lemma unat_cbuf_free_level:
  assumes "cbuf_inv b"
  shows "unat (cbuf_free_level b) = unat (bsize b) - cbuf_used b"
  using assms unat_cbuf_fill_level [OF assms]
  by (simp add: cbuf_free_level_def unat_diff_u64 cbuf_inv_def)

lemmas cbuf_levels = unat_cbuf_fill_level unat_cbuf_free_level

subsection \<open>Advancing the pointers\<close>

lemma cbuf_used_mod:
  assumes "cbuf_inv b"
  shows "(unat (rd_ptr b) + cbuf_used b) mod unat (bsize b) = unat (wr_ptr b) mod unat (bsize b)"
  using assms cbuf_size_pos [OF assms]
  by (auto simp: cbuf_inv_def cbuf_used_def mod_lt_twice split: if_splits)

lemma cbuf_advance_wr_inv:
  assumes inv: "cbuf_inv b" and len: "length d = unat (bsize b)"
    and n: "cbuf_used b + unat n \<le> unat (bsize b)"
  defines "b' \<equiv> cbuf_advance_wr (b\<lparr>bdata := d\<rparr>) n"
  shows "cbuf_inv b'" "cbuf_used b' = cbuf_used b + unat n"
    "rd_ptr b' = rd_ptr b" "bdata b' = d" "bsize b' = bsize b"
proof -
  let ?N = "unat (bsize b)"
  show flds: "rd_ptr b' = rd_ptr b" "bdata b' = d" "bsize b' = bsize b"
    by (simp_all add: b'_def cbuf_advance_wr_def)
  have w: "unat (wr_ptr b') = (unat (wr_ptr b) + unat n) mod (2 * ?N)"
    using inv unat_cbuf_ptr_add [of b] by (simp add: b'_def cbuf_advance_wr_def cbuf_ptr_add_def)
  have bnd: "unat (wr_ptr b) < 2 * ?N" "unat (rd_ptr b) < 2 * ?N" "0 < ?N"
    using inv cbuf_size_pos by (auto simp: cbuf_inv_def)
  show used: "cbuf_used b' = cbuf_used b + unat n"
    using w bnd n by (auto simp: cbuf_used_def flds mod_lt_twice split: if_splits)
  show "cbuf_inv b'"
    using inv n used w bnd len by (simp add: cbuf_inv_def flds)
qed

lemma cbuf_advance_rd_inv:
  assumes inv: "cbuf_inv b" and n: "unat n \<le> cbuf_used b"
  defines "b' \<equiv> cbuf_advance_rd b n"
  shows "cbuf_inv b'" "cbuf_list b' = drop (unat n) (cbuf_list b)"
proof -
  let ?N = "unat (bsize b)"
  have flds: "wr_ptr b' = wr_ptr b" "bdata b' = bdata b" "bsize b' = bsize b"
    by (simp_all add: b'_def cbuf_advance_rd_def)
  have r: "unat (rd_ptr b') = (unat (rd_ptr b) + unat n) mod (2 * ?N)"
    using inv unat_cbuf_ptr_add [of b] by (simp add: b'_def cbuf_advance_rd_def)
  have bnd: "unat (wr_ptr b) < 2 * ?N" "unat (rd_ptr b) < 2 * ?N" "0 < ?N" "cbuf_used b \<le> ?N"
    and len: "length (bdata b) = ?N"
    using inv cbuf_size_pos by (auto simp: cbuf_inv_def)
  have used: "cbuf_used b' = cbuf_used b - unat n"
    using r bnd n by (auto simp: cbuf_used_def flds mod_lt_twice split: if_splits)
  show "cbuf_inv b'" using inv used r bnd by (simp add: cbuf_inv_def flds)
  have "unat (rd_ptr b') mod ?N = (unat (rd_ptr b) + unat n) mod ?N"
    by (simp only: r) (metis mod_mod_cancel dvd_triv_right)
  then have "ring_read (bdata b) (unat (rd_ptr b')) m = ring_read (bdata b) (unat (rd_ptr b) + unat n) m"
    for m by (metis len ring_read_mod)
  then show "cbuf_list b' = drop (unat n) (cbuf_list b)"
    using n by (simp add: cbuf_list_def flds used ring_read_drop)
qed

text \<open>
  Writing \<open>c\<close> bytes behind the write pointer and then advancing it over the first \<open>n\<close> of them
  appends these \<open>n\<close> bytes.
\<close>

lemma cbuf_list_ring_write:
  assumes inv: "cbuf_inv b" and c: "cbuf_used b + c \<le> unat (bsize b)" and n: "unat n \<le> c"
    and len: "c \<le> length data"
    and d: "d = ring_write (bdata b) (unat (wr_ptr b) mod unat (bsize b)) data c"
  shows "cbuf_inv (cbuf_advance_wr (b\<lparr>bdata := d\<rparr>) n)"
    "cbuf_list (cbuf_advance_wr (b\<lparr>bdata := d\<rparr>) n) = cbuf_list b @ take (unat n) data"
proof -
  let ?N = "unat (bsize b)"
  have N: "length (bdata b) = ?N" "0 < ?N" using inv cbuf_size_pos by (auto simp: cbuf_inv_def)
  have dl: "length d = ?N" using N c len by (simp add: d)
  have "cbuf_used b + unat n \<le> ?N" using c n by simp
  note adv = cbuf_advance_wr_inv [OF inv dl this]
  show "cbuf_inv (cbuf_advance_wr (b\<lparr>bdata := d\<rparr>) n)" by (rule adv)
  let ?r = "unat (rd_ptr b)" and ?u = "cbuf_used b"
  have w: "unat (wr_ptr b) mod ?N = (?r + ?u) mod ?N" using cbuf_used_mod [OF inv] by simp
  have "cbuf_list (cbuf_advance_wr (b\<lparr>bdata := d\<rparr>) n) = ring_read d ?r ?u @ ring_read d (?r + ?u) (unat n)"
    by (simp add: cbuf_list_def adv ring_read_append)
  also have "ring_read d ?r ?u = cbuf_list b"
    unfolding d w cbuf_list_def using N c len by (intro ring_read_write_old) auto
  also have "ring_read d (?r + ?u) (unat n) = take (unat n) (ring_read d (?r + ?u) c)"
    using n by (simp add: ring_read_take)
  also have "ring_read d (?r + ?u) c = take c data"
    using ring_read_write_new [of "bdata b" c data "?r + ?u"] N c len by (simp add: d w)
  also have "take (unat n) (take c data) = take (unat n) data" using n by simp
  finally show "cbuf_list (cbuf_advance_wr (b\<lparr>bdata := d\<rparr>) n) = cbuf_list b @ take (unat n) data" .
qed

subsection \<open>Writing and reading\<close>

lemma cbuf_write_ok:
  assumes inv: "cbuf_inv b" and n: "cbuf_used b + unat n \<le> unat (bsize b)"
    and len: "unat n \<le> length data"
  shows "cbuf_write b data n =
    Some (0, cbuf_advance_wr
      (b\<lparr>bdata := ring_write (bdata b) (unat (wr_ptr b) mod unat (bsize b)) data (unat n)\<rparr>) n)"
proof -
  let ?N = "unat (bsize b)" and ?w = "wr_ptr b AND (bsize b - 1)"
  have N: "length (bdata b) = ?N" "0 < ?N" "?N < 2 ^ 31"
    using inv cbuf_size_pos by (auto simp: cbuf_inv_def)
  have w: "unat ?w = unat (wr_ptr b) mod ?N" using inv by (rule unat_mask_size)
  then have wN: "unat ?w < ?N" using N by simp
  have guard: "\<not> n > cbuf_free_level b"
    using inv n by (simp add: word_less_nat_alt cbuf_levels)
  have sum: "unat (?w + n) = unat ?w + unat n" using wN n N by (intro unat_add_u64) simp
  have e: "unat (bsize b - ?w) = ?N - unat ?w" using wN by (intro unat_diff_u64) simp
  show ?thesis
  proof (cases "unat ?w + unat n \<le> ?N")
    case True
    then have "?w + n \<le> bsize b" by (simp add: word_le_nat_alt sum)
    with True guard N len n show ?thesis
      by (simp add: cbuf_write_def Let_def memcpy_ck_Some ring_write_def w [symmetric] subseg_def
          blit_def)
  next
    case False
    then have g2: "\<not> ?w + n \<le> bsize b" by (simp add: word_le_nat_alt sum)
    have s: "unat (n - (bsize b - ?w)) = unat n - (?N - unat ?w)"
      using False e by (subst unat_diff_u64) auto
    from False guard g2 N len n wN show ?thesis
      by (simp add: cbuf_write_def Let_def memcpy_ck_Some ring_write_def w [symmetric] e s
          subseg_def blit_def min_def)
  qed
qed

text \<open>What reading and writing leave alone.\<close>

definition cbuf_frame :: "cbuf \<Rightarrow> cbuf \<Rightarrow> bool" where
  "cbuf_frame b b' \<longleftrightarrow>
     bsize b' = bsize b \<and> cancel_waits b' = cancel_waits b \<and>
     read_data_tmp b' = read_data_tmp b \<and> read_data_tmp_size b' = read_data_tmp_size b \<and>
     write_data_tmp b' = write_data_tmp b \<and> write_data_tmp_size b' = write_data_tmp_size b"

lemma cbuf_write_refines:
  assumes inv: "cbuf_inv b" and n: "length (cbuf_list b) + unat n \<le> unat (bsize b)"
    and len: "unat n \<le> length data"
  shows "\<exists>b'. cbuf_write b data n = Some (0, b') \<and> cbuf_inv b' \<and>
    cbuf_frame b b' \<and> cbuf_list b' = cbuf_list b @ take (unat n) data"
  using cbuf_write_ok [OF inv _ len] cbuf_list_ring_write [OF inv _ order_refl len] n
  by (simp add: cbuf_advance_wr_def cbuf_frame_def)

lemma cbuf_write_full:
  assumes "cbuf_inv b" and "unat (bsize b) < length (cbuf_list b) + unat n"
  shows "cbuf_write b data n = Some (- EINVAL, b)"
proof -
  have "cbuf_free_level b < n"
    using assms by (simp add: word_less_nat_alt cbuf_levels cbuf_inv_def) linarith
  then show ?thesis by (simp add: cbuf_write_def Let_def)
qed

text \<open>The two copies out of the ring, shared by \<^verbatim>\<open>cbuf_read\<close> and \<^verbatim>\<open>cbuf_peek\<close>.\<close>

lemma ring_copy_out:
  assumes inv: "cbuf_inv b" and n: "unat n \<le> cbuf_used b" and len: "unat n \<le> length out"
  defines "r \<equiv> rd_ptr b AND (bsize b - 1)"
  shows "r + n \<le> bsize b \<longleftrightarrow> unat r + unat n \<le> unat (bsize b)"
    "unat r + unat n \<le> unat (bsize b) \<Longrightarrow>
       memcpy_ck out 0 (bdata b) (unat r) (unat n) =
         Some (take (unat n) (cbuf_list b) @ drop (unat n) out)"
    "\<not> unat r + unat n \<le> unat (bsize b) \<Longrightarrow>
       \<exists>out'. memcpy_ck out 0 (bdata b) (unat r) (unat (via_int (bsize b - r))) = Some out' \<and>
         memcpy_ck out' (unat (via_int (bsize b - r))) (bdata b) 0
           (unat (n - via_int (bsize b - r))) =
         Some (take (unat n) (cbuf_list b) @ drop (unat n) out)"
proof -
  let ?N = "unat (bsize b)"
  have N: "length (bdata b) = ?N" "0 < ?N" "?N < 2 ^ 31" "cbuf_used b \<le> ?N"
    using inv cbuf_size_pos by (auto simp: cbuf_inv_def)
  have r: "unat r = unat (rd_ptr b) mod ?N" unfolding r_def using inv by (rule unat_mask_size)
  then have rN: "unat r < ?N" using N by simp
  have sum: "unat (r + n) = unat r + unat n" using rN n N by (intro unat_add_u64) simp
  then show "r + n \<le> bsize b \<longleftrightarrow> unat r + unat n \<le> ?N" by (simp add: word_le_nat_alt)
  have e: "unat (bsize b - r) = ?N - unat r" using rN by (intro unat_diff_u64) simp
  with N have v: "via_int (bsize b - r) = bsize b - r" by (intro via_int_small) simp
  have list: "take (unat n) (cbuf_list b) = ring_read (bdata b) (unat r) (unat n)"
    using n by (simp add: cbuf_list_def ring_read_take r) (metis N(1) ring_read_mod)
  { assume "unat r + unat n \<le> ?N"
    then show "memcpy_ck out 0 (bdata b) (unat r) (unat n) =
         Some (take (unat n) (cbuf_list b) @ drop (unat n) out)"
      using N len n rN by (simp add: memcpy_ck_Some list ring_read_subseg blit_def subseg_def) }
  { assume big: "\<not> unat r + unat n \<le> ?N"
    have s: "unat (n - (bsize b - r)) = unat n - (?N - unat r)"
      using big e by (subst unat_diff_u64) auto
    have arith: "unat n + unat r - ?N \<le> ?N" "?N - unat r \<le> length out"
      using big N len n rN by linarith+
    show "\<exists>out'. memcpy_ck out 0 (bdata b) (unat r) (unat (via_int (bsize b - r))) = Some out' \<and>
         memcpy_ck out' (unat (via_int (bsize b - r))) (bdata b) 0
           (unat (n - via_int (bsize b - r))) =
         Some (take (unat n) (cbuf_list b) @ drop (unat n) out)"
      using big N len n rN arith
      by (simp add: v e s memcpy_ck_def list ring_read_subseg blit_def subseg_def min_def) }
qed

lemma cbuf_fill_less: "cbuf_inv b \<Longrightarrow> cbuf_fill_level b < n \<longleftrightarrow> cbuf_used b < unat n"
  by (simp add: word_less_nat_alt cbuf_levels)

lemma cbuf_read_refines:
  assumes inv: "cbuf_inv b" and n: "unat n \<le> length (cbuf_list b)" and len: "unat n \<le> length out"
  shows "\<exists>b'. cbuf_read b out n = Some (0, take (unat n) (cbuf_list b) @ drop (unat n) out, b') \<and>
    cbuf_inv b' \<and> cbuf_frame b b' \<and> cbuf_list b' = drop (unat n) (cbuf_list b)"
proof (cases "n = 0")
  case True
  then show ?thesis using inv by (simp add: cbuf_read_def cbuf_frame_def)
next
  case False
  have u: "unat n \<le> cbuf_used b" using n by simp
  have g: "\<not> cbuf_fill_level b < n" using inv u by (simp add: cbuf_fill_less)
  note cp = ring_copy_out [OF inv u len] and adv = cbuf_advance_rd_inv [OF inv u]
  have "cbuf_read b out n =
      Some (0, take (unat n) (cbuf_list b) @ drop (unat n) out, cbuf_advance_rd b n)"
  proof (cases "unat (rd_ptr b AND (bsize b - 1)) + unat n \<le> unat (bsize b)")
    case True
    with False g cp(1) cp(2) show ?thesis by (simp add: cbuf_read_def Let_def)
  next
    case big: False
    from cp(3) [OF big] obtain out' where
      "memcpy_ck out 0 (bdata b) (unat (rd_ptr b AND (bsize b - 1)))
         (unat (via_int (bsize b - (rd_ptr b AND (bsize b - 1))))) = Some out'"
      "memcpy_ck out' (unat (via_int (bsize b - (rd_ptr b AND (bsize b - 1))))) (bdata b) 0
         (unat (n - via_int (bsize b - (rd_ptr b AND (bsize b - 1))))) =
         Some (take (unat n) (cbuf_list b) @ drop (unat n) out)" by blast
    with False g big cp(1) show ?thesis by (simp add: cbuf_read_def Let_def)
  qed
  with adv show ?thesis by (simp add: cbuf_advance_rd_def cbuf_frame_def)
qed

lemma cbuf_read_underflow:
  "cbuf_inv b \<Longrightarrow> length (cbuf_list b) < unat n \<Longrightarrow> cbuf_read b out n = Some (- EINVAL, out, b)"
  by (auto simp: cbuf_read_def cbuf_fill_less)

lemma cbuf_discard_refines:
  assumes "cbuf_inv b"
  shows "cbuf_discard b n =
      (if unat n \<le> length (cbuf_list b) then (0, cbuf_advance_rd b n) else (- EINVAL, b))"
    "unat n \<le> length (cbuf_list b) \<Longrightarrow>
      cbuf_inv (cbuf_advance_rd b n) \<and> cbuf_list (cbuf_advance_rd b n) = drop (unat n) (cbuf_list b)"
  using assms cbuf_advance_rd_inv [OF assms]
  by (auto simp: cbuf_discard_def cbuf_fill_less)

subsection \<open>The API mode: peek/discard and reserve/commit\<close>

text \<open>
  The bytes a pointer refers to, and the environment's writes through a pointer returned by
  \<^verbatim>\<open>cbuf_reserve\<close>.
\<close>

definition cptr_bytes :: "cbuf \<Rightarrow> cptr \<Rightarrow> nat \<Rightarrow> u8 list option" where
  "cptr_bytes b p n =
     (case p of
        AtData o' \<Rightarrow> if unat o' + n \<le> length (bdata b) then Some (subseg (bdata b) (unat o') n) else None
      | AtReadTmp \<Rightarrow>
          (case read_data_tmp b of
             None \<Rightarrow> None
           | Some t \<Rightarrow> if n \<le> length t then Some (take n t) else None)
      | _ \<Rightarrow> None)"

definition cptr_store :: "cbuf \<Rightarrow> cptr \<Rightarrow> u8 list \<Rightarrow> cbuf option" where
  "cptr_store b p xs =
     (case p of
        AtData o' \<Rightarrow>
          (case memcpy_ck (bdata b) (unat o') xs 0 (length xs) of
             None \<Rightarrow> None | Some d \<Rightarrow> Some (b\<lparr>bdata := d\<rparr>))
      | AtWriteTmp \<Rightarrow>
          (case write_data_tmp b of
             None \<Rightarrow> None
           | Some t \<Rightarrow>
               (case memcpy_ck t 0 xs 0 (length xs) of
                  None \<Rightarrow> None | Some t' \<Rightarrow> Some (b\<lparr>write_data_tmp := Some t'\<rparr>)))
      | _ \<Rightarrow> None)"

text \<open>The temporary buffers have the size that is recorded for them.\<close>

definition tmp_pair_ok :: "u64 \<Rightarrow> u8 list option \<Rightarrow> bool" where
  "tmp_pair_ok sz tmp \<longleftrightarrow>
     (case tmp of None \<Rightarrow> sz = 0 | Some t \<Rightarrow> length t = unat sz)"

definition cbuf_tmp_ok :: "cbuf \<Rightarrow> bool" where
  "cbuf_tmp_ok b \<longleftrightarrow>
     tmp_pair_ok (write_data_tmp_size b) (write_data_tmp b) \<and>
     tmp_pair_ok (read_data_tmp_size b) (read_data_tmp b)"

lemma cbuf_log2_bounds:
  assumes "x \<noteq> 0"
  shows "2 ^ (cbuf_log2 x a - a) \<le> unat x \<and> unat x < 2 ^ Suc (cbuf_log2 x a - a) \<and> a \<le> cbuf_log2 x a"
  using assms
proof (induction x a rule: cbuf_log2.induct)
  case (1 x a)
  have h: "unat (drop_bit 1 x) = unat x div 2" by (simp add: unat_drop_bit_u64 del: drop_bit_Suc)
  show ?case
  proof (cases "drop_bit 1 x = 0")
    case True
    then have "unat x div 2 = 0" by (metis h unsigned_0)
    then have "unat x = 1" using "1.prems" by (auto simp: word_unat_eq_iff)
    with True show ?thesis by (simp add: cbuf_log2.simps [of x a] del: drop_bit_Suc)
  next
    case False
    let ?l = "cbuf_log2 (drop_bit 1 x) (Suc a)"
    have IH: "2 ^ (?l - Suc a) \<le> unat x div 2" "unat x div 2 < 2 ^ Suc (?l - Suc a)" "Suc a \<le> ?l"
      using "1.IH" [OF refl False False] h by auto
    have "?l - a = Suc (?l - Suc a)" using IH(3) by simp
    moreover have "cbuf_log2 x a = ?l"
      using False by (simp add: cbuf_log2.simps [of x a] Let_def del: drop_bit_Suc)
    moreover have "2 * 2 ^ (?l - Suc a) \<le> unat x" "unat x < 2 * (2 * 2 ^ (?l - Suc a))"
      using IH(1,2) unfolding power_Suc by linarith+
    ultimately show ?thesis using IH(3) by (simp only: power_Suc) simp
  qed
qed

lemma cbuf_calc_bufsize_bounds:
  assumes "n \<noteq> 0" "unat n < 2 ^ 30" "unat n \<le> unat m"
  shows "unat n \<le> unat (cbuf_calc_bufsize n m) \<and> unat (cbuf_calc_bufsize n m) \<le> unat m"
proof -
  let ?l = "cbuf_log2 n 0"
  have l: "2 ^ ?l \<le> unat n" "unat n < 2 ^ Suc ?l" using cbuf_log2_bounds [OF assms(1), of 0] by auto
  then have "(2::nat) ^ ?l < 2 ^ 30" using assms(2) by linarith
  then have l30: "?l < 30" by (simp only: power_strict_increasing_iff one_less_numeral_iff semiring_norm)
  then have "scast (push_bit (?l + 1) 1 :: u32) = (2 ^ Suc ?l :: u64)"
    using scast_push_bit_u32 [of "Suc ?l"] by simp
  then have c: "cbuf_calc_bufsize n m = (if 2 ^ Suc ?l > m then m else 2 ^ Suc ?l)"
    by (simp add: cbuf_calc_bufsize_def Let_def)
  have "unat (2 ^ Suc ?l :: u64) = 2 ^ Suc ?l" using l30 by (intro unat_pow2_u64) simp
  then show ?thesis using l assms c by (auto simp: word_less_nat_alt)
qed

lemma cbuf_tmp_grow_ok:
  assumes "tmp_pair_ok tsz tmp" "0 < n" "unat n < 2 ^ 30" "unat n \<le> unat m"
  obtains t where "snd (cbuf_tmp_grow True fill n hint m tsz tmp) = Some t"
    "length t = unat (fst (cbuf_tmp_grow True fill n hint m tsz tmp))" "unat n \<le> length t"
proof -
  have calc: "unat n \<le> unat (cbuf_calc_bufsize n m)"
    using cbuf_calc_bufsize_bounds [of n m] assms by auto
  show ?thesis
  proof (cases "tsz < n")
    case True
    let ?sz = "if n \<le> hint then hint else cbuf_calc_bufsize n m"
    have "unat n \<le> unat ?sz" using calc by (simp add: word_le_nat_alt)
    moreover obtain t where t: "c_realloc True fill tmp (unat ?sz) = Some t"
      by (cases "c_realloc True fill tmp (unat ?sz)") auto
    ultimately show ?thesis using True c_realloc_Some [OF t] that [of t]
      by (simp add: cbuf_tmp_grow_def Let_def t)
  next
    case False
    then show ?thesis using assms that
      by (cases tmp) (auto simp: cbuf_tmp_grow_def tmp_pair_ok_def word_less_nat_alt)
  qed
qed

lemma cbuf_peek_refines:
  assumes inv: "cbuf_inv b" and tmp: "cbuf_tmp_ok b"
    and n: "0 < n" "unat n \<le> length (cbuf_list b)" "unat n < 2 ^ 30" 
  shows "\<exists>p b'. cbuf_peek True fill b n = Some (0, p, b') \<and>
    cptr_bytes b' p (unat n) = Some (take (unat n) (cbuf_list b)) \<and>
    cbuf_inv b' \<and> cbuf_tmp_ok b' \<and> bsize b' = bsize b \<and> cbuf_list b' = cbuf_list b"
proof -
  let ?r = "rd_ptr b AND (bsize b - 1)" and ?N = "unat (bsize b)"
  have N: "length (bdata b) = ?N" "cbuf_used b \<le> ?N" using inv by (auto simp: cbuf_inv_def)
  have u: "unat n \<le> cbuf_used b" using n by simp
  have g: "\<not> cbuf_fill_level b < n" "n \<noteq> 0" using inv u n by (auto simp: cbuf_fill_less)
  show ?thesis
  proof (cases "unat ?r + unat n \<le> ?N")
    case True
    have "memcpy_ck (replicate (unat n) fill) 0 (bdata b) (unat ?r) (unat n) =
        Some (take (unat n) (cbuf_list b))"
      using ring_copy_out(2) [OF inv u, of "replicate (unat n) fill"] True by simp
    then have "subseg (bdata b) (unat ?r) (unat n) = take (unat n) (cbuf_list b)"
      using True N by (simp add: memcpy_ck_def blit_def subseg_def)
    moreover have "cbuf_peek True fill b n = Some (0, AtData ?r, b)"
      using True g ring_copy_out(1) [OF inv u, of "replicate (unat n) fill"]
      by (simp add: cbuf_peek_def Let_def)
    ultimately show ?thesis using True N inv tmp by (simp add: cptr_bytes_def)
  next
    case False
    let ?g = "cbuf_tmp_grow True fill n (hint_max_read_size b) (bsize b)
        (read_data_tmp_size b) (read_data_tmp b)"
    obtain t where t: "snd ?g = Some t" "length t = unat (fst ?g)" "unat n \<le> length t"
      using cbuf_tmp_grow_ok [of "read_data_tmp_size b" "read_data_tmp b" n "bsize b"] tmp n u N
      by (auto simp: cbuf_tmp_ok_def)
    obtain t' where t': "memcpy_ck t 0 (bdata b) (unat ?r) (unat (via_int (bsize b - ?r))) = Some t'"
      "memcpy_ck t' (unat (via_int (bsize b - ?r))) (bdata b) 0
         (unat (n - via_int (bsize b - ?r))) =
         Some (take (unat n) (cbuf_list b) @ drop (unat n) t)"
      using ring_copy_out(3) [OF inv u t(3) False] by blast
    let ?b' = "b\<lparr>read_data_tmp_size := fst ?g,
        read_data_tmp := Some (take (unat n) (cbuf_list b) @ drop (unat n) t)\<rparr>"
    have "cbuf_peek True fill b n = Some (0, AtReadTmp, ?b')"
      using g False t t' ring_copy_out(1) [OF inv u t(3)]
      by (simp add: cbuf_peek_def Let_def case_prod_beta)
    moreover have "cbuf_inv ?b'" "bsize ?b' = bsize b" "cbuf_list ?b' = cbuf_list b"
      using inv by (simp_all add: cbuf_inv_def cbuf_list_def cbuf_used_def)
    moreover have "cbuf_tmp_ok ?b'" using tmp t u by (simp add: cbuf_tmp_ok_def tmp_pair_ok_def)
    moreover have "cptr_bytes ?b' AtReadTmp (unat n) = Some (take (unat n) (cbuf_list b))"
      using u t by (simp add: cptr_bytes_def)
    ultimately show ?thesis by blast
  qed
qed

text \<open>
  Committing \<open>m\<close> bytes from the temporary buffer: the copy to the end of the array is done in full
  even when fewer bytes are committed.
\<close>

lemma cbuf_commit_tmp:
  assumes "write_data_tmp b = Some t" "length (bdata b) = unat (bsize b)"
    "unat (wr_ptr b AND (bsize b - 1)) = w" "w < unat (bsize b)" "m \<noteq> 0"
    "unat (bsize b) - w \<le> length t" "unat m \<le> length t" "unat m \<le> unat (bsize b)"
  shows "cbuf_commit b AtWriteTmp m =
    Some (0, cbuf_advance_wr
      (b\<lparr>bdata := ring_write (bdata b) w t (max (unat m) (unat (bsize b) - w))\<rparr>) m)"
proof -
  let ?w = "wr_ptr b AND (bsize b - 1)"
  have e: "unat (bsize b - ?w) = unat (bsize b) - w" using assms by (subst unat_diff_u64) auto
  show ?thesis
  proof (cases "unat m \<le> unat (bsize b) - w")
    case True
    then have "\<not> m > bsize b - ?w" by (simp add: word_less_nat_alt e)
    with True assms e show ?thesis
      by (simp add: cbuf_commit_def cptr_is_write_tmp_def Let_def memcpy_ck_Some ring_write_def
          max_def subseg_def blit_def)
  next
    case False
    then have gt: "m > bsize b - ?w" by (simp add: word_less_nat_alt e)
    have s: "unat (m - (bsize b - ?w)) = unat m - (unat (bsize b) - w)"
      using False e by (subst unat_diff_u64) auto
    have "length (blit (bdata b) w t (unat (bsize b) - w)) = unat (bsize b)"
      using assms by (subst length_blit) auto
    moreover have "unat m + w - unat (bsize b) \<le> unat (bsize b)" using assms by linarith
    ultimately show ?thesis using False gt s assms e
      by (simp add: cbuf_commit_def cptr_is_write_tmp_def Let_def memcpy_ck_def ring_write_def
          max_def subseg_def blit_def)
  qed
qed

lemma cbuf_reserve_guards:
  assumes inv: "cbuf_inv b" and n: "cbuf_used b + unat n \<le> unat (bsize b)"
  defines "w \<equiv> wr_ptr b AND (bsize b - 1)"
  shows "\<not> n > cbuf_free_level b" "w + n \<le> bsize b \<longleftrightarrow> unat w + unat n \<le> unat (bsize b)"
    "unat w = unat (wr_ptr b) mod unat (bsize b)" "unat w < unat (bsize b)"
proof -
  have N: "0 < unat (bsize b)" "unat (bsize b) < 2 ^ 31" using inv cbuf_size_pos by (auto simp: cbuf_inv_def)
  show "\<not> n > cbuf_free_level b" using inv n by (simp add: word_less_nat_alt cbuf_levels)
  show w: "unat w = unat (wr_ptr b) mod unat (bsize b)"
    unfolding w_def using inv by (rule unat_mask_size)
  then show "unat w < unat (bsize b)" using N by simp
  then show "w + n \<le> bsize b \<longleftrightarrow> unat w + unat n \<le> unat (bsize b)"
    using n N by (simp add: word_le_nat_alt unat_add_u64)
qed

lemma cbuf_reserve_commit_direct:
  assumes inv: "cbuf_inv b" and tmp: "cbuf_tmp_ok b"
    and n: "cbuf_used b + unat n \<le> unat (bsize b)" and xs: "length xs \<le> unat n"
    and m: "unat m = length xs"
    and fits: "unat (wr_ptr b AND (bsize b - 1)) + unat n \<le> unat (bsize b)"
  shows "\<exists>p b1 b2 b3. cbuf_reserve ok fill b n = (0, p, b1) \<and> cptr_store b1 p xs = Some b2 \<and>
    cbuf_commit b2 p m = Some (0, b3) \<and>
    cbuf_inv b3 \<and> cbuf_tmp_ok b3 \<and> bsize b3 = bsize b \<and> cbuf_list b3 = cbuf_list b @ xs"
proof -
  let ?w = "wr_ptr b AND (bsize b - 1)" and ?N = "unat (bsize b)"
  note g = cbuf_reserve_guards [OF inv n]
  have N: "length (bdata b) = ?N" using inv by (auto simp: cbuf_inv_def)
  have res: "cbuf_reserve ok fill b n = (0, AtData ?w, b)"
    using fits g by (simp add: cbuf_reserve_def Let_def)
  let ?d = "ring_write (bdata b) (unat (wr_ptr b) mod ?N) xs (length xs)"
  let ?b2 = "b\<lparr>bdata := ?d\<rparr>"
  have st: "cptr_store b (AtData ?w) xs = Some ?b2"
    using fits xs N by (simp add: cptr_store_def memcpy_ck_Some ring_write_def g(3) [symmetric] subseg_def)
  have com: "cbuf_commit ?b2 (AtData ?w) m = Some (0, if m = 0 then ?b2 else cbuf_advance_wr ?b2 m)"
    by (auto simp: cbuf_commit_def cptr_is_write_tmp_def split: option.splits)
  have same: "?b2 = b" if "xs = []"
    using that g(4) by (simp add: ring_write_def blit_def g(3) [symmetric] N)
  have tmp': "cbuf_tmp_ok (cbuf_advance_wr ?b2 m)" "bsize (cbuf_advance_wr ?b2 m) = bsize b"
    using tmp by (simp_all add: cbuf_tmp_ok_def cbuf_advance_wr_def)
  have "cbuf_inv (cbuf_advance_wr ?b2 m)" "cbuf_list (cbuf_advance_wr ?b2 m) = cbuf_list b @ xs"
    using cbuf_list_ring_write [OF inv _ _ order_refl refl, of xs m] m n xs by auto
  with res st com same tmp' inv tmp m show ?thesis by (cases "m = 0") auto
qed

lemma cbuf_reserve_commit_wrapped:
  assumes inv: "cbuf_inv b" and tmp: "cbuf_tmp_ok b"
    and n: "cbuf_used b + unat n \<le> unat (bsize b)" "unat n < 2 ^ 30"
    and xs: "length xs \<le> unat n" and m: "unat m = length xs"
    and wraps: "\<not> unat (wr_ptr b AND (bsize b - 1)) + unat n \<le> unat (bsize b)"
  shows "\<exists>p b1 b2 b3. cbuf_reserve True fill b n = (0, p, b1) \<and> cptr_store b1 p xs = Some b2 \<and>
    cbuf_commit b2 p m = Some (0, b3) \<and>
    cbuf_inv b3 \<and> cbuf_tmp_ok b3 \<and> bsize b3 = bsize b \<and> cbuf_list b3 = cbuf_list b @ xs"
proof -
  let ?w = "wr_ptr b AND (bsize b - 1)" and ?N = "unat (bsize b)"
  note g = cbuf_reserve_guards [OF inv n(1)]
  have N: "length (bdata b) = ?N" using inv by (auto simp: cbuf_inv_def)
  let ?g = "cbuf_tmp_grow True fill n (hint_max_write_size b) (bsize b)
      (write_data_tmp_size b) (write_data_tmp b)"
  have "n \<noteq> 0" using wraps g(4) by (cases "n = 0") auto
  then obtain t where t: "snd ?g = Some t" "length t = unat (fst ?g)" "unat n \<le> length t"
    using cbuf_tmp_grow_ok [of "write_data_tmp_size b" "write_data_tmp b" n "bsize b"] tmp n
    by (auto simp: cbuf_tmp_ok_def word_neq_0_conv)
  define b1 where "b1 = b\<lparr>write_data_tmp_size := fst ?g, write_data_tmp := Some t\<rparr>"
  have res: "cbuf_reserve True fill b n = (0, AtWriteTmp, b1)"
    using wraps g t by (simp add: cbuf_reserve_def Let_def case_prod_beta b1_def)
  define t' where "t' = blit t 0 xs (length xs)"
  let ?b2 = "b1\<lparr>write_data_tmp := Some t'\<rparr>"
  have st: "cptr_store b1 AtWriteTmp xs = Some ?b2"
    using t xs by (simp add: b1_def cptr_store_def memcpy_ck_def t'_def subseg_def)
  have t': "length t' = length t" "take (length xs) t' = xs"
    using t xs by (simp_all add: t'_def blit_def)
  let ?c = "max (length xs) (?N - unat ?w)"
  let ?d = "ring_write (bdata b) (unat (wr_ptr b) mod ?N) t' ?c"
  let ?b3 = "cbuf_advance_wr (?b2\<lparr>bdata := ?d\<rparr>) m"
  have inv2: "cbuf_inv ?b2" "cbuf_list ?b2 = cbuf_list b" "cbuf_used ?b2 = cbuf_used b"
    using inv by (simp_all add: b1_def cbuf_inv_def cbuf_list_def cbuf_used_def)
  have tmp2: "cbuf_tmp_ok ?b2" "cbuf_tmp_ok ?b3" "bsize ?b3 = bsize b" "bsize ?b2 = bsize b"
    using tmp t t' by (simp_all add: b1_def cbuf_tmp_ok_def tmp_pair_ok_def cbuf_advance_wr_def)
  have com: "cbuf_commit ?b2 AtWriteTmp m = Some (0, if m = 0 then ?b2 else ?b3)"
    using wraps t t' xs n m N g cbuf_commit_tmp [of ?b2 t' "unat ?w" m]
    by (cases "m = 0") (auto simp: b1_def cbuf_commit_def)
  have "cbuf_used ?b2 + ?c \<le> unat (bsize ?b2)" using wraps n xs inv2 g by (simp add: b1_def)
  then have "cbuf_inv ?b3" "cbuf_list ?b3 = cbuf_list b @ take (unat m) t'"
    using cbuf_list_ring_write [OF inv2(1), of ?c m t' ?d] inv2(2) t t' xs m wraps
    by (auto simp: b1_def)
  with res st com tmp2 inv2 t' m show ?thesis by (cases "m = 0") auto
qed

lemma cbuf_reserve_commit_refines:
  assumes "cbuf_inv b" "cbuf_tmp_ok b" "length (cbuf_list b) + unat n \<le> unat (bsize b)"
    "unat n < 2 ^ 30" "length xs \<le> unat n"
  shows "\<exists>p b1 b2 b3. cbuf_reserve True fill b n = (0, p, b1) \<and> cptr_store b1 p xs = Some b2 \<and>
    cbuf_commit b2 p (of_nat (length xs)) = Some (0, b3) \<and>
    cbuf_inv b3 \<and> cbuf_tmp_ok b3 \<and> bsize b3 = bsize b \<and> cbuf_list b3 = cbuf_list b @ xs"
proof -
  have m: "unat (of_nat (length xs) :: u64) = length xs"
    using assms by (simp add: unat_of_nat_u64)
  show ?thesis
    using cbuf_reserve_commit_direct [OF assms(1,2) _ assms(5) m, of True fill]
      cbuf_reserve_commit_wrapped [OF assms(1,2) _ assms(4,5) m, of fill] assms(3)
    by (cases "unat (wr_ptr b AND (bsize b - 1)) + unat n \<le> unat (bsize b)") auto
qed

lemma cbuf_reserve_full:
  assumes "cbuf_inv b" "unat (bsize b) < length (cbuf_list b) + unat n"
  shows "cbuf_reserve ok fill b n = (- EINVAL, Uninit, b)"
proof -
  have "cbuf_free_level b < n"
    using assms by (simp add: word_less_nat_alt cbuf_levels cbuf_inv_def) linarith
  then show ?thesis by (simp add: cbuf_reserve_def Let_def)
qed

subsection \<open>The buffer as a bounded byte queue\<close>

text \<open>
  Client operations: the basic mode, and the API mode as its documentation prescribes it (reserve
  \<open>n\<close> bytes, fill some of them, commit what was filled; peek, then discard).
\<close>

datatype fifo_op =
    Write "u8 list"
  | ApiWrite nat "u8 list"
  | Read nat
  | Peek nat
  | Discard nat

datatype fifo_result = Done | Bytes "u8 list" | Failed int

definition fifo_valid :: "fifo_op \<Rightarrow> bool" where
  "fifo_valid x =
     (case x of
        Write xs \<Rightarrow> length xs < 2 ^ 30
      | ApiWrite n xs \<Rightarrow> n < 2 ^ 30 \<and> length xs \<le> n
      | Read n \<Rightarrow> n < 2 ^ 30
      | Peek n \<Rightarrow> n < 2 ^ 30
      | Discard n \<Rightarrow> n < 2 ^ 30)"

text \<open>The specification: a byte queue with a capacity.\<close>

definition fifo_spec :: "nat \<times> u8 list \<Rightarrow> fifo_op \<Rightarrow> fifo_result \<times> nat \<times> u8 list" where
  "fifo_spec a x =
     (case a of (cap, q) \<Rightarrow>
        (case x of
           Write xs \<Rightarrow>
             if length q + length xs \<le> cap then (Done, cap, q @ xs) else (Failed (- EINVAL), cap, q)
         | ApiWrite n xs \<Rightarrow>
             if length q + n \<le> cap then (Done, cap, q @ xs) else (Failed (- EINVAL), cap, q)
         | Read n \<Rightarrow>
             if n \<le> length q then (Bytes (take n q), cap, drop n q) else (Failed (- EINVAL), cap, q)
         | Peek n \<Rightarrow>
             if n \<le> length q then (Bytes (take n q), cap, q) else (Failed (- EINVAL), cap, q)
         | Discard n \<Rightarrow>
             if n \<le> length q then (Done, cap, drop n q) else (Failed (- EINVAL), cap, q)))"

definition cbuf_do :: "u8 \<Rightarrow> cbuf \<Rightarrow> fifo_op \<Rightarrow> (fifo_result \<times> cbuf) option" where
  "cbuf_do fill b x =
     (case x of
        Write xs \<Rightarrow>
          map_option (\<lambda>(rv, b'). (if rv = 0 then Done else Failed rv, b'))
            (cbuf_write b xs (of_nat (length xs)))
      | ApiWrite n xs \<Rightarrow>
          (case cbuf_reserve True fill b (of_nat n) of
             (rv, p, b1) \<Rightarrow>
               if rv \<noteq> 0 then Some (Failed rv, b1)
               else
                 (case cptr_store b1 p xs of
                    None \<Rightarrow> None
                  | Some b2 \<Rightarrow>
                      map_option (\<lambda>(rv, b'). (if rv = 0 then Done else Failed rv, b'))
                        (cbuf_commit b2 p (of_nat (length xs)))))
      | Read n \<Rightarrow>
          map_option (\<lambda>(rv, out, b'). (if rv = 0 then Bytes out else Failed rv, b'))
            (cbuf_read b (replicate n 0) (of_nat n))
      | Peek n \<Rightarrow>
          (case cbuf_peek True fill b (of_nat n) of
             None \<Rightarrow> None
           | Some (rv, p, b') \<Rightarrow>
               if rv \<noteq> 0 then Some (Failed rv, b')
               else if n = 0 then Some (Bytes [], b')
               else map_option (\<lambda>out. (Bytes out, b')) (cptr_bytes b' p n))
      | Discard n \<Rightarrow>
          (case cbuf_discard b (of_nat n) of
             (rv, b') \<Rightarrow> Some (if rv = 0 then Done else Failed rv, b')))"

definition cbuf_abs :: "cbuf \<Rightarrow> nat \<times> u8 list" where
  "cbuf_abs b = (unat (bsize b), cbuf_list b)"

lemma EINVAL_nonzero [simp]: "EINVAL \<noteq> 0"
  by (simp add: EINVAL_def)

lemma cbuf_tmp_ok_frame: "cbuf_frame b b' \<Longrightarrow> cbuf_tmp_ok b \<Longrightarrow> cbuf_tmp_ok b'"
  by (simp add: cbuf_frame_def cbuf_tmp_ok_def)

lemma cbuf_peek_underflow:
  "cbuf_inv b \<Longrightarrow> length (cbuf_list b) < unat n \<Longrightarrow>
   cbuf_peek ok fill b n = Some (- EINVAL, Uninit, b)"
  by (auto simp: cbuf_peek_def cbuf_fill_less)

lemma cbuf_do_simulates:
  assumes "cbuf_inv b \<and> cbuf_tmp_ok b" "fifo_valid x"
  shows "\<exists>r b'. cbuf_do fill b x = Some (r, b') \<and> (cbuf_inv b' \<and> cbuf_tmp_ok b') \<and>
    fifo_spec (cbuf_abs b) x = (r, cbuf_abs b')"
proof (cases x)
  case (Write xs)
  have m: "unat (of_nat (length xs) :: u64) = length xs"
    using assms Write by (simp add: fifo_valid_def unat_of_nat_u64)
  show ?thesis
    using cbuf_write_refines [of b "of_nat (length xs)" xs] cbuf_tmp_ok_frame
      cbuf_write_full [of b "of_nat (length xs)" xs] assms m Write
    by (fastforce simp: cbuf_do_def fifo_spec_def cbuf_abs_def cbuf_frame_def)
next
  case (ApiWrite n xs)
  have m: "unat (of_nat n :: u64) = n" "length xs \<le> n" "n < 2 ^ 30"
    using assms ApiWrite by (auto simp: fifo_valid_def unat_of_nat_u64)
  show ?thesis
    using cbuf_reserve_commit_refines [of b "of_nat n" xs fill]
      cbuf_reserve_full [of b "of_nat n" True fill] assms m ApiWrite
    by (fastforce simp: cbuf_do_def fifo_spec_def cbuf_abs_def)
next
  case (Read n)
  have m: "unat (of_nat n :: u64) = n" using assms Read by (simp add: fifo_valid_def unat_of_nat_u64)
  show ?thesis
    using cbuf_read_refines [of b "of_nat n" "replicate n 0"] cbuf_tmp_ok_frame
      cbuf_read_underflow [of b "of_nat n" "replicate n 0"] assms m Read
    by (fastforce simp: cbuf_do_def fifo_spec_def cbuf_abs_def cbuf_frame_def)
next
  case (Peek n)
  have m: "unat (of_nat n :: u64) = n" "n < 2 ^ 30"
    using assms Peek by (auto simp: fifo_valid_def unat_of_nat_u64)
  show ?thesis
  proof (cases "n = 0")
    case True
    then show ?thesis using assms Peek
      by (simp add: cbuf_do_def fifo_spec_def cbuf_abs_def cbuf_peek_def)
  next
    case False
    then have "0 < (of_nat n :: u64)" using m by (simp add: word_less_nat_alt)
    then show ?thesis
      using cbuf_peek_refines [of b "of_nat n" fill] cbuf_peek_underflow [of b "of_nat n" True fill]
        assms m Peek False
      by (fastforce simp: cbuf_do_def fifo_spec_def cbuf_abs_def)
  qed
next
  case (Discard n)
  have m: "unat (of_nat n :: u64) = n" using assms Discard by (simp add: fifo_valid_def unat_of_nat_u64)
  show ?thesis
    using cbuf_discard_refines [of b "of_nat n"] assms m Discard
    by (auto simp: cbuf_do_def fifo_spec_def cbuf_abs_def cbuf_advance_rd_def cbuf_tmp_ok_def)
qed

interpretation cb: refinement "cbuf_do fill" fifo_spec "\<lambda>b. cbuf_inv b \<and> cbuf_tmp_ok b" cbuf_abs fifo_valid
  by unfold_locales (rule cbuf_do_simulates)

lemma cbuf_init_inv:
  assumes "cbuf_init True True sz = Some (Inr b)" "unat sz < 2 ^ 31"
  shows "cbuf_inv b \<and> cbuf_tmp_ok b \<and> cbuf_abs b = (unat sz, [])"
  using assms
  by (auto simp: cbuf_init_def cbuf_inv_def is_pow2_def cbuf_used_def cbuf_tmp_ok_def tmp_pair_ok_def
      cbuf_abs_def cbuf_list_def ring_read_def unat_gt_0 split: if_splits)


subsection \<open>Properties\<close>



text \<open>
  \<^verbatim>\<open>cbuf_write\<close> appends the bytes when they fit and otherwise returns
  \<^verbatim>\<open>-EINVAL\<close> and leaves the buffer as it is; no copy leaves its array, also when the data wraps
  around the end of the ring.
\<close>

theorem cbuf_write_correct:
  assumes "cbuf_inv b" "unat n \<le> length data"
  shows "if length (cbuf_list b) + unat n \<le> unat (bsize b)
    then (\<exists>b'. cbuf_write b data n = Some (0, b') \<and> cbuf_inv b' \<and> cbuf_frame b b' \<and>
            cbuf_list b' = cbuf_list b @ take (unat n) data)
    else cbuf_write b data n = Some (- EINVAL, b)"
  using cbuf_write_refines [OF assms(1) _ assms(2)] cbuf_write_full [OF assms(1)] by simp

definition cbuf_sample :: cbuf where
  "cbuf_sample =
     \<lparr>level_changed = 0, wr_ptr = 3, rd_ptr = 2, bsize = 4, bdata = [10, 11, 12, 13],
      hint_max_read_size = 0, read_data_tmp_size = 0, read_data_tmp = None,
      hint_max_write_size = 0, write_data_tmp_size = 0, write_data_tmp = None,
      cancel_waits = False\<rparr>"

lemma cbuf_sample_ok:
  "cbuf_inv cbuf_sample" "cbuf_list cbuf_sample = [12]" "bsize cbuf_sample = 4"
  by (simp_all add: cbuf_sample_def cbuf_inv_def is_pow2_def cbuf_used_def cbuf_list_def ring_read_def)

theorem cbuf_write_correct_witness:
  "(\<exists>b'. cbuf_write cbuf_sample [1, 2, 3] 3 = Some (0, b') \<and> cbuf_list b' = [12, 1, 2, 3]) \<and>
   cbuf_write cbuf_sample [1, 2, 3, 4] 4 = Some (- EINVAL, cbuf_sample)"
  using cbuf_write_correct [OF cbuf_sample_ok(1), of 3 "[1, 2, 3]"]
    cbuf_write_correct [OF cbuf_sample_ok(1), of 4 "[1, 2, 3, 4]"]
  by (auto simp: cbuf_sample_ok)

text \<open>
  C28 (roundtrip). Reading back: \<^verbatim>\<open>cbuf_read\<close> of what \<^verbatim>\<open>cbuf_write\<close> stored in an empty buffer
  returns the same bytes and leaves the buffer empty, wherever the pointers stand.
\<close>

theorem cbuf_write_read_roundtrip:
  assumes "cbuf_inv b" "cbuf_is_empty b" "unat n \<le> unat (bsize b)"
    "length data = unat n" "length out = unat n"
  shows "\<exists>b1 b2. cbuf_write b data n = Some (0, b1) \<and> cbuf_read b1 out n = Some (0, data, b2) \<and>
    cbuf_inv b2 \<and> cbuf_is_empty b2"
proof -
  have e: "cbuf_list b = []" using assms(1,2) cbuf_is_empty_iff by (simp add: length_0_conv [symmetric] del: length_0_conv)
  obtain b1 where b1: "cbuf_write b data n = Some (0, b1)" "cbuf_inv b1" "cbuf_list b1 = data"
    using cbuf_write_refines [of b n data] assms e by auto
  obtain b2 where b2: "cbuf_read b1 out n = Some (0, data, b2)" "cbuf_inv b2" "cbuf_list b2 = []"
    using cbuf_read_refines [OF b1(2), of n out] b1 assms by auto
  have "cbuf_is_empty b2" using b2 cbuf_is_empty_iff [of b2] by (metis length_cbuf_list list.size(3))
  with b1 b2 show ?thesis by blast
qed

theorem cbuf_write_read_roundtrip_witness:
  "\<exists>b1 b2. cbuf_write (cbuf_sample\<lparr>rd_ptr := 3\<rparr>) [1, 2, 3] 3 = Some (0, b1) \<and>
     cbuf_read b1 [0, 0, 0] 3 = Some (0, [1, 2, 3], b2) \<and> cbuf_is_empty b2"
proof -
  have "cbuf_inv (cbuf_sample\<lparr>rd_ptr := 3\<rparr>)" "cbuf_is_empty (cbuf_sample\<lparr>rd_ptr := 3\<rparr>)"
    by (simp_all add: cbuf_sample_def cbuf_inv_def is_pow2_def cbuf_used_def cbuf_is_empty_def)
  from cbuf_write_read_roundtrip [OF this, of 3 "[1, 2, 3]" "[0, 0, 0]"]
  show ?thesis by (auto simp: cbuf_sample_def)
qed

text \<open>
  C39 (safety). After \<^verbatim>\<open>cbuf_reserve\<close> failed to allocate its temporary buffer it has recorded
  the new size beside the null pointer: a second, identical call reports success with a null pointer,
  and committing it copies from address zero.
\<close>

theorem cbuf_reserve_after_failed_realloc:
  assumes "cbuf_inv b" "length (cbuf_list b) + unat n \<le> unat (bsize b)" "unat n < 2 ^ 30"
    "unat (wr_ptr b) mod unat (bsize b) + unat n > unat (bsize b)" "write_data_tmp_size b < n"
  shows "\<exists>b1. cbuf_reserve False fill b n = (- ENOMEM, Uninit, b1) \<and>
    cbuf_reserve ok fill b1 n = (0, NullPtr, b1) \<and> cbuf_commit b1 NullPtr n = None"
proof -
  have u: "cbuf_used b + unat n \<le> unat (bsize b)" using assms(2) by simp
  note g = cbuf_reserve_guards [OF assms(1) u]
  let ?w = "wr_ptr b AND (bsize b - 1)"
  have wraps: "\<not> unat ?w + unat n \<le> unat (bsize b)" using assms(4) g(3) by simp
  define sz where "sz = (if n \<le> hint_max_write_size b then hint_max_write_size b
    else cbuf_calc_bufsize n (bsize b))"
  have n0: "n \<noteq> 0" using assms(5) by auto
  have sz: "n \<le> sz" using cbuf_calc_bufsize_bounds [OF n0 assms(3)] u
    by (simp add: sz_def word_le_nat_alt)
  define b1 where "b1 = b\<lparr>write_data_tmp_size := sz, write_data_tmp := None\<rparr>"
  have r1: "cbuf_reserve False fill b n = (- ENOMEM, Uninit, b1)"
    using wraps g assms(5)
    by (simp add: cbuf_reserve_def Let_def cbuf_tmp_grow_def sz_def b1_def c_realloc_def)
  have inv1: "cbuf_inv b1" "cbuf_used b1 + unat n \<le> unat (bsize b1)" "bsize b1 = bsize b"
    "wr_ptr b1 = wr_ptr b"
    using assms(1) u by (simp_all add: b1_def cbuf_inv_def cbuf_used_def)
  have "cbuf_reserve ok fill b1 n = (0, NullPtr, b1)"
    using cbuf_reserve_guards [OF inv1(1,2)] wraps leD [OF sz] inv1
    by (simp add: cbuf_reserve_def Let_def cbuf_tmp_grow_def) (simp add: b1_def)
  moreover have "cbuf_commit b1 NullPtr n = None"
    using n0 by (simp add: cbuf_commit_def cptr_is_write_tmp_def b1_def)
  ultimately show ?thesis using r1 by blast
qed

theorem cbuf_reserve_after_failed_realloc_witness:
  "\<exists>b1. cbuf_reserve False 0 cbuf_sample 2 = (- ENOMEM, Uninit, b1) \<and>
     cbuf_reserve True 0 b1 2 = (0, NullPtr, b1) \<and> cbuf_commit b1 NullPtr 2 = None"
  using cbuf_reserve_after_failed_realloc [OF cbuf_sample_ok(1), of 2 0 True]
  by (simp add: cbuf_sample_ok) (simp add: cbuf_sample_def)

text \<open>
  The levels computed by masked subtraction are exact: the fill level is the number of
  bytes held, the free level is the rest of the capacity, and the empty and full tests hold exactly
  at the two ends; the fill level never exceeds the size.
\<close>

theorem cbuf_levels_exact:
  assumes "cbuf_inv b"
  shows "unat (cbuf_fill_level b) = length (cbuf_list b) \<and>
    unat (cbuf_free_level b) + length (cbuf_list b) = unat (cbuf_size b) \<and>
    (cbuf_is_empty b \<longleftrightarrow> cbuf_list b = []) \<and>
    (cbuf_is_full b \<longleftrightarrow> length (cbuf_list b) = unat (cbuf_size b))"
  using assms cbuf_levels [OF assms] cbuf_is_empty_iff [OF assms] cbuf_is_full_iff [OF assms]
  by (auto simp: cbuf_size_def cbuf_inv_def length_0_conv [symmetric] simp del: length_0_conv)

theorem cbuf_levels_exact_witness:
  "unat (cbuf_fill_level cbuf_sample) = 1 \<and> unat (cbuf_free_level cbuf_sample) + 1 = 4 \<and>
   \<not> cbuf_is_empty cbuf_sample \<and> \<not> cbuf_is_full cbuf_sample"
  using cbuf_levels_exact [OF cbuf_sample_ok(1)] by (simp add: cbuf_sample_ok cbuf_size_def)



end
