(* ===== verification/Machine.thy ===== *)
theory Machine
  imports Prelude
begin

text \<open>
  The machine that the M-mode trap handlers of the bootloader work on: the trap frame of a hart, its
  CSRs, its hart-local storage (\<^verbatim>\<open>hls_t\<close> of \<^verbatim>\<open>mtrap.h\<close>) and the memory of the interrupted
  program as the \<^verbatim>\<open>MPRV\<close> accesses of \<^verbatim>\<open>unprivileged_memory.h\<close> see it. A handler is a
  state transformer that may also leave for good: by redirecting the trap to the supervisor
  (\<open>Redirect\<close>), by powering off (\<open>Die\<close>), or by running into behaviour that C leaves undefined.
\<close>

subsection \<open>State\<close>

record hls =
  timecmp :: u64
  ipi :: u32
  mipi_pending :: u32
  sipi_pending :: u32
  console_ibuf :: u32
  utime_delta :: u64
  ucycle_delta :: u64
  uinstret_delta :: u64
  stime_delta :: u64
  scycle_delta :: u64
  sinstret_delta :: u64

text \<open>
  \<open>x_regs\<close> and \<open>f_regs\<close> are the integer and the soft-float part of the trap frame, \<open>tp_reg\<close> is the
  register that holds the emulated \<^verbatim>\<open>fcsr\<close> while a handler runs. \<open>umem\<close> is defined at the
  addresses the interrupted program can read, \<open>uwritable\<close> holds at those it can write.
\<close>

record hart =
  x_regs :: "u64 list"
  f_regs :: "u64 list"
  tp_reg :: u32
  csr_mepc :: u64
  csr_mcause :: u64
  csr_mbadaddr :: u64
  csr_mstatus :: u64
  csr_mip :: u64
  csr_mie :: u64
  csr_mcycle :: u64
  csr_minstret :: u64
  csr_sepc :: u64
  csr_scause :: u64
  csr_sbadaddr :: u64
  csr_stvec :: u64
  csr_sie :: u64
  mtime_reg :: u64
  hart_hls :: hls
  umem :: "u64 \<Rightarrow> u8 option"
  uwritable :: "u64 \<Rightarrow> bool"

datatype exit = Redirect hart | Die hart | Undefined

text \<open>
  A computation on states of type \<open>'s\<close> that leaves with an \<open>'e\<close> or returns an \<open>'a\<close>; the handlers
  of one hart are the instance \<open>'a exec\<close>.
\<close>

type_synonym ('s, 'e, 'a) comp = "'s \<Rightarrow> 'e + 'a \<times> 's"

type_synonym 'a exec = "(hart, exit, 'a) comp"

definition ret :: "'a \<Rightarrow> ('s, 'e, 'a) comp" where
  "ret a h = Inr (a, h)"

definition ebind :: "('s, 'e, 'a) comp \<Rightarrow> ('a \<Rightarrow> ('s, 'e, 'b) comp) \<Rightarrow> ('s, 'e, 'b) comp" where
  "ebind m f h = (case m h of Inl e \<Rightarrow> Inl e | Inr (a, h') \<Rightarrow> f a h')"

definition modify :: "('s \<Rightarrow> 's) \<Rightarrow> ('s, 'e, unit) comp" where
  "modify f h = Inr ((), f h)"

definition gets :: "('s \<Rightarrow> 'a) \<Rightarrow> ('s, 'e, 'a) comp" where
  "gets f h = Inr (f h, h)"

definition undefined_behaviour :: "'a exec" where
  "undefined_behaviour h = Inl Undefined"

named_theorems exec_simps \<open>evaluation of handlers\<close>

lemma ret_apply [exec_simps]: "ret a h = Inr (a, h)"
  by (simp add: ret_def)

lemma modify_apply [exec_simps]: "modify f h = Inr ((), f h)"
  by (simp add: modify_def)

lemma gets_apply [exec_simps]: "gets f h = Inr (f h, h)"
  by (simp add: gets_def)

lemma undefined_apply [exec_simps]: "undefined_behaviour h = Inl Undefined"
  by (simp add: undefined_behaviour_def)

lemma ebind_apply [exec_simps]:
  "ebind m f h = (case m h of Inl e \<Rightarrow> Inl e | Inr r \<Rightarrow> f (fst r) (snd r))"
  by (simp add: ebind_def split: sum.split prod.split)

lemma ebind_Inl: "m h = Inl e \<Longrightarrow> ebind m f h = Inl e"
  by (simp add: ebind_def)

lemma ebind_Inr: "m h = Inr (a, h') \<Longrightarrow> ebind m f h = f a h'"
  by (simp add: ebind_def)

lemma ebind_assoc: "ebind (ebind m f) g = ebind m (\<lambda>x. ebind (f x) g)"
  by (rule ext) (simp add: ebind_def split: sum.split prod.split)

subsection \<open>Fields of a CSR\<close>

definition MSTATUS_SPIE :: u64 where "MSTATUS_SPIE = 0x20"
definition MSTATUS_MPIE :: u64 where "MSTATUS_MPIE = 0x80"
definition MSTATUS_SPP :: u64 where "MSTATUS_SPP = 0x100"
definition MSTATUS_MPP :: u64 where "MSTATUS_MPP = 0x1800"
definition MSTATUS_FS :: u64 where "MSTATUS_FS = 0x6000"
definition MSTATUS_MPRV :: u64 where "MSTATUS_MPRV = 0x20000"

lemmas mstatus_defs = MSTATUS_SPIE_def MSTATUS_MPIE_def MSTATUS_SPP_def MSTATUS_MPP_def
  MSTATUS_FS_def MSTATUS_MPRV_def

definition PRV_S :: u64 where "PRV_S = 1"

definition CAUSE_FAULT_LOAD :: u64 where "CAUSE_FAULT_LOAD = 5"
definition CAUSE_FAULT_STORE :: u64 where "CAUSE_FAULT_STORE = 7"
definition CAUSE_MISALIGNED_LOAD :: u64 where "CAUSE_MISALIGNED_LOAD = 4"
definition CAUSE_MISALIGNED_STORE :: u64 where "CAUSE_MISALIGNED_STORE = 6"

lemmas cause_defs = CAUSE_FAULT_LOAD_def CAUSE_FAULT_STORE_def CAUSE_MISALIGNED_LOAD_def
  CAUSE_MISALIGNED_STORE_def

definition EXTRACT_FIELD :: "u64 \<Rightarrow> u64 \<Rightarrow> u64" where
  "EXTRACT_FIELD val which = (val AND which) div (which AND NOT (which - 1))"

definition INSERT_FIELD :: "u64 \<Rightarrow> u64 \<Rightarrow> u64 \<Rightarrow> u64" where
  "INSERT_FIELD val which fieldval = (val AND NOT which) OR (fieldval * (which AND NOT (which - 1)))"

subsection \<open>Redirecting a trap to the supervisor\<close>

definition redirect_mstatus :: "u64 \<Rightarrow> u64" where
  "redirect_mstatus mstatus =
     (let prev_priv = EXTRACT_FIELD mstatus MSTATUS_MPP;
          prev_ie = EXTRACT_FIELD mstatus MSTATUS_MPIE;
          m1 = INSERT_FIELD mstatus MSTATUS_SPP prev_priv;
          m2 = INSERT_FIELD m1 MSTATUS_SPIE prev_ie;
          m3 = INSERT_FIELD m2 MSTATUS_MPP PRV_S
      in INSERT_FIELD m3 MSTATUS_MPIE 0)"

definition redirect_trap :: "u64 \<Rightarrow> u64 \<Rightarrow> 'a exec" where
  "redirect_trap epc mstatus h =
     Inl (Redirect (h\<lparr>csr_sepc := epc, csr_scause := csr_mcause h, csr_mepc := csr_stvec h,
                     csr_mstatus := redirect_mstatus mstatus\<rparr>))"

definition truly_illegal_insn :: "u64 \<Rightarrow> u64 \<Rightarrow> u64 \<Rightarrow> u32 \<Rightarrow> 'a exec" where
  "truly_illegal_insn mcause mepc mstatus insn = redirect_trap mepc mstatus"

text \<open>\<^verbatim>\<open>bad_trap\<close> prints and powers off.\<close>

definition bad_trap :: "'a exec" where
  "bad_trap h = Inl (Die h)"

text \<open>
  \<^verbatim>\<open>machine_page_fault\<close>, with the two registers \<^verbatim>\<open>a2\<close> and \<^verbatim>\<open>a3\<close> of the interrupted
  machine-mode code, where the unprivileged accesses keep the original \<^verbatim>\<open>mepc\<close> and \<^verbatim>\<open>mstatus\<close>.
\<close>

definition machine_page_fault :: "u64 \<Rightarrow> u64 \<Rightarrow> 'a exec" where
  "machine_page_fault a2 a3 h =
     (if csr_mstatus h AND MSTATUS_MPRV \<noteq> 0
      then redirect_trap a2 a3 (h\<lparr>csr_sbadaddr := csr_mbadaddr h\<rparr>)
      else bad_trap h)"

text \<open>
  What the hardware does on a fault of an access under \<^verbatim>\<open>MPRV\<close>: it records the cause and the
  address and enters machine mode again; \<^verbatim>\<open>trap_from_machine_mode\<close> then handles the cause.
\<close>

definition unprivileged_fault :: "u64 \<Rightarrow> u64 \<Rightarrow> u64 \<Rightarrow> 'a exec" where
  "unprivileged_fault cause addr mepc h =
     (let h' = h\<lparr>csr_mcause := cause, csr_mbadaddr := addr,
                 csr_mstatus := csr_mstatus h OR MSTATUS_MPRV\<rparr>
      in if cause = CAUSE_FAULT_LOAD \<or> cause = CAUSE_FAULT_STORE
         then machine_page_fault mepc (csr_mstatus h) h'
         else bad_trap h')"

subsection \<open>Unprivileged memory accesses\<close>

text \<open>Little-endian assembly of bytes.\<close>

fun le_word :: "u8 list \<Rightarrow> u64" where
  "le_word [] = 0"
| "le_word (b # bs) = ucast b OR push_bit 8 (le_word bs)"

fun le_bytes :: "nat \<Rightarrow> u64 \<Rightarrow> u8 list" where
  "le_bytes 0 w = []"
| "le_bytes (Suc n) w = ucast w # le_bytes n (drop_bit 8 w)"

definition uread :: "hart \<Rightarrow> u64 \<Rightarrow> nat \<Rightarrow> u8 list option" where
  "uread h addr n = those (map (\<lambda>i. umem h (addr + of_nat i)) [0..<n])"

definition uwrite :: "hart \<Rightarrow> u64 \<Rightarrow> u8 list \<Rightarrow> hart" where
  "uwrite h addr bs =
     h\<lparr>umem := fold (\<lambda>i m. m(addr + of_nat i \<mapsto> bs ! i)) [0..<length bs] (umem h)\<rparr>"

definition load_bytes :: "nat \<Rightarrow> u64 \<Rightarrow> u64 \<Rightarrow> u8 list exec" where
  "load_bytes n addr mepc h =
     (if unat addr mod n \<noteq> 0 then unprivileged_fault CAUSE_MISALIGNED_LOAD addr mepc h
      else
        (case uread h addr n of
           None \<Rightarrow> unprivileged_fault CAUSE_FAULT_LOAD addr mepc h
         | Some bs \<Rightarrow> Inr (bs, h)))"

definition store_bytes :: "u64 \<Rightarrow> u8 list \<Rightarrow> u64 \<Rightarrow> unit exec" where
  "store_bytes addr bs mepc h =
     (if unat addr mod length bs \<noteq> 0 then unprivileged_fault CAUSE_MISALIGNED_STORE addr mepc h
      else if list_all (\<lambda>i. uwritable h (addr + of_nat i)) [0..<length bs] then Inr ((), uwrite h addr bs)
      else unprivileged_fault CAUSE_FAULT_STORE addr mepc h)"

definition load_uint8_t :: "u64 \<Rightarrow> u64 \<Rightarrow> u8 exec" where
  "load_uint8_t addr mepc = ebind (load_bytes 1 addr mepc) (\<lambda>bs. ret (hd bs))"

definition load_int32_t :: "u64 \<Rightarrow> u64 \<Rightarrow> u32 exec" where
  "load_int32_t addr mepc = ebind (load_bytes 4 addr mepc) (\<lambda>bs. ret (ucast (le_word bs)))"

definition load_uint64_t :: "u64 \<Rightarrow> u64 \<Rightarrow> u64 exec" where
  "load_uint64_t addr mepc = ebind (load_bytes 8 addr mepc) (\<lambda>bs. ret (le_word bs))"

definition store_uint8_t :: "u64 \<Rightarrow> u8 \<Rightarrow> u64 \<Rightarrow> unit exec" where
  "store_uint8_t addr val mepc = store_bytes addr [val] mepc"

definition store_uint32_t :: "u64 \<Rightarrow> u32 \<Rightarrow> u64 \<Rightarrow> unit exec" where
  "store_uint32_t addr val mepc = store_bytes addr (le_bytes 4 (ucast val)) mepc"

definition store_uint64_t :: "u64 \<Rightarrow> u64 \<Rightarrow> u64 \<Rightarrow> unit exec" where
  "store_uint64_t addr val mepc = store_bytes addr (le_bytes 8 val) mepc"

text \<open>The instruction at \<^verbatim>\<open>mepc\<close>, and the \<^verbatim>\<open>mstatus\<close> that was in force.\<close>

definition get_insn :: "u64 \<Rightarrow> (u32 \<times> u64) exec" where
  "get_insn mepc =
     ebind (load_bytes 4 mepc mepc) (\<lambda>bs h. Inr ((ucast (le_word bs), csr_mstatus h), h))"

subsection \<open>Register operands\<close>

definition reg_index :: "u32 \<Rightarrow> nat \<Rightarrow> nat" where
  "reg_index insn pos = unat (drop_bit (pos - 3) insn AND 0xF8) div 8"

definition GET_REG :: "u32 \<Rightarrow> nat \<Rightarrow> hart \<Rightarrow> u64" where
  "GET_REG insn pos h = x_regs h ! reg_index insn pos"

definition GET_RS1 :: "u32 \<Rightarrow> hart \<Rightarrow> u64" where
  "GET_RS1 insn h = GET_REG insn 15 h"

definition GET_RS2 :: "u32 \<Rightarrow> hart \<Rightarrow> u64" where
  "GET_RS2 insn h = GET_REG insn 20 h"

definition SET_RD :: "u32 \<Rightarrow> u64 \<Rightarrow> unit exec" where
  "SET_RD insn val = modify (\<lambda>h. h\<lparr>x_regs := (x_regs h)[reg_index insn 7 := val]\<rparr>)"

definition IMM_I :: "u32 \<Rightarrow> u32" where
  "IMM_I insn = signed_drop_bit 20 insn"

definition IMM_S :: "u32 \<Rightarrow> u32" where
  "IMM_S insn = push_bit 5 (signed_drop_bit 25 insn) OR (drop_bit 7 insn AND 0x1f)"

definition write_mepc :: "u64 \<Rightarrow> unit exec" where
  "write_mepc v = modify (\<lambda>h. h\<lparr>csr_mepc := v\<rparr>)"

subsection \<open>Soft-float registers\<close>

text \<open>
  The macros of \<^verbatim>\<open>fp_emulation.h\<close> for a hart without a hardware FPU: the float registers follow
  the integer registers in the trap frame, a single-precision value is the lower half of its
  register, and \<^verbatim>\<open>fcsr\<close> lives in the lower byte of \<^verbatim>\<open>tp\<close>.
\<close>

definition GET_PRECISION :: "u32 \<Rightarrow> u32" where
  "GET_PRECISION insn = drop_bit 25 insn AND 3"

definition GET_RM :: "u32 \<Rightarrow> u32" where
  "GET_RM insn = drop_bit 12 insn AND 7"

definition PRECISION_S :: u32 where "PRECISION_S = 0"
definition PRECISION_D :: u32 where "PRECISION_D = 1"

definition GET_F64_REG :: "u32 \<Rightarrow> nat \<Rightarrow> hart \<Rightarrow> u64" where
  "GET_F64_REG insn pos h = f_regs h ! reg_index insn pos"

definition SET_F64_REG :: "u32 \<Rightarrow> nat \<Rightarrow> u64 \<Rightarrow> unit exec" where
  "SET_F64_REG insn pos val = modify (\<lambda>h. h\<lparr>f_regs := (f_regs h)[reg_index insn pos := val]\<rparr>)"

definition GET_F32_REG :: "u32 \<Rightarrow> nat \<Rightarrow> hart \<Rightarrow> u32" where
  "GET_F32_REG insn pos h = ucast (GET_F64_REG insn pos h)"

definition SET_F32_REG :: "u32 \<Rightarrow> nat \<Rightarrow> u32 \<Rightarrow> unit exec" where
  "SET_F32_REG insn pos val =
     modify (\<lambda>h. h\<lparr>f_regs := (f_regs h)[reg_index insn pos :=
       (GET_F64_REG insn pos h AND 0xFFFFFFFF00000000) OR ucast val]\<rparr>)"

definition SET_FS_DIRTY :: "unit exec" where
  "SET_FS_DIRTY = modify (\<lambda>h. h\<lparr>csr_mstatus := csr_mstatus h OR MSTATUS_FS\<rparr>)"

definition SET_F32_RD :: "u32 \<Rightarrow> u32 \<Rightarrow> unit exec" where
  "SET_F32_RD insn val = ebind (SET_F32_REG insn 7 val) (\<lambda>_. SET_FS_DIRTY)"

definition SET_F64_RD :: "u32 \<Rightarrow> u64 \<Rightarrow> unit exec" where
  "SET_F64_RD insn val = ebind (SET_F64_REG insn 7 val) (\<lambda>_. SET_FS_DIRTY)"

definition GET_FCSR :: "hart \<Rightarrow> u32" where
  "GET_FCSR h = tp_reg h AND 0xFF"

definition SET_FCSR :: "u64 \<Rightarrow> unit exec" where
  "SET_FCSR value = modify (\<lambda>h. h\<lparr>tp_reg := ucast (value AND 0xFF)\<rparr>)"

definition GET_FRM :: "hart \<Rightarrow> u32" where
  "GET_FRM h = drop_bit 5 (GET_FCSR h)"

definition GET_FFLAGS :: "hart \<Rightarrow> u32" where
  "GET_FFLAGS h = GET_FCSR h AND 0x1F"

definition SET_FRM :: "u64 \<Rightarrow> unit exec" where
  "SET_FRM value h = SET_FCSR (ucast (GET_FFLAGS h) OR push_bit 5 value) h"

definition SET_FFLAGS :: "u64 \<Rightarrow> unit exec" where
  "SET_FFLAGS value h = SET_FCSR (ucast (push_bit 5 (GET_FRM h)) OR (value AND 0x1F)) h"

subsection \<open>Lemmas\<close>

lemma those_eq_Some: "those xs = Some ys \<longleftrightarrow> xs = map Some ys"
  by (induction xs arbitrary: ys) (auto split: option.splits simp: Cons_eq_map_conv)

lemma uread_Some_iff:
  "uread h a n = Some bs \<longleftrightarrow> length bs = n \<and> (\<forall>i<n. umem h (a + of_nat i) = Some (bs ! i))"
  by (auto simp: uread_def those_eq_Some list_eq_iff_nth_eq)

lemma length_le_bytes [simp]: "length (le_bytes n w) = n"
  by (induction n arbitrary: w) auto

lemma bit_le_word:
  "bit (le_word bs) k \<longleftrightarrow> k < 64 \<and> k div 8 < length bs \<and> bit (bs ! (k div 8)) (k mod 8)"
proof (induction bs arbitrary: k)
  case (Cons b bs)
  have "bit (le_word (b # bs)) k \<longleftrightarrow> k < 64 \<and> (bit b k \<or> 8 \<le> k \<and> bit (le_word bs) (k - 8))"
    by (auto simp: bit_or_iff bit_push_bit_iff bit_unsigned_iff dest: bit_imp_le_length)
  also have "\<dots> \<longleftrightarrow> k < 64 \<and> k div 8 < length (b # bs) \<and> bit ((b # bs) ! (k div 8)) (k mod 8)"
  proof (cases "k < 8")
    case False
    then have "\<not> bit b k" by (auto dest: bit_imp_le_length)
    moreover have "k div 8 = Suc ((k - 8) div 8)" "k mod 8 = (k - 8) mod 8"
      using False by (auto simp: le_div_geq le_mod_geq)
    ultimately show ?thesis using False Cons.IH [of "k - 8"] by auto
  qed simp
  finally show ?case .
qed simp

lemma nth_le_bytes: "i < n \<Longrightarrow> le_bytes n w ! i = ucast (drop_bit (8 * i) w)"
  by (induction n arbitrary: w i) (auto simp: nth_Cons add.commute split: nat.split simp del: drop_bit_Suc)

text \<open>Disassembling and reassembling \<open>n\<close> bytes keeps the lower \<open>8 n\<close> bits.\<close>

lemma le_word_le_bytes: "le_word (le_bytes n w) = take_bit (8 * n) w"
proof (rule bit_eqI)
  fix k
  assume "possible_bit TYPE(u64) k"
  then have k: "k < 64" by simp
  have "bit (le_bytes n w ! (k div 8)) (k mod 8) \<longleftrightarrow> bit w k" if "k div 8 < n"
    using that k by (simp add: nth_le_bytes bit_unsigned_iff bit_drop_bit_eq)
  then show "bit (le_word (le_bytes n w)) k \<longleftrightarrow> bit (take_bit (8 * n) w) k"
    using k by (auto simp: bit_le_word bit_take_bit_iff)
qed

lemma le_word_append_zeros: "le_word (bs @ replicate n 0) = le_word bs"
  by (rule bit_eqI) (auto simp: bit_le_word nth_append)

text \<open>The shift pair \<^verbatim>\<open><< s >> s\<close> sign-extends the lower \<open>64 - s\<close> bits.\<close>

lemma sext_shift:
  assumes "s < 64"
  shows "signed_drop_bit s (push_bit s (x :: u64)) = signed_take_bit (63 - s) x"
proof (rule bit_eqI)
  fix n
  assume "possible_bit TYPE(u64) n"
  then have n: "n < 64" by simp
  have "n = 63 - s" if "63 - s \<le> n" "\<not> 64 - s \<le> n" using that assms by linarith
  then show "bit (signed_drop_bit s (push_bit s x)) n \<longleftrightarrow> bit (signed_take_bit (63 - s) x) n"
    using n assms
    by (auto simp: bit_signed_drop_bit_iff bit_push_bit_iff bit_signed_take_bit_iff min_def)
qed

lemma reg_index_less: "reg_index insn pos < 32"
proof -
  have "unat (drop_bit (pos - 3) insn AND 0xF8) \<le> unat (0xF8 :: u32)"
    by (metis word_and_le1 word_le_nat_alt)
  then show ?thesis by (simp add: reg_index_def)
qed

end
