(* ===== verification/Emulation.thy ===== *)
theory Emulation
  imports Machine "HOL-Library.Signed_Division"
begin

text \<open>
  Emulation of instructions that the hart does not implement, from \<^verbatim>\<open>machine/misaligned_ldst.c\<close>,
  \<^verbatim>\<open>machine/muldiv_emulation.c\<close> and the CSR part of \<^verbatim>\<open>machine/emulation.c\<close>, for the 64-bit
  configuration without a hardware FPU and without a multiplier (\<^verbatim>\<open>__riscv64\<close>, no
  \<^verbatim>\<open>__riscv_hard_float\<close>, no \<^verbatim>\<open>__riscv_muldiv\<close>, \<^verbatim>\<open>PK_ENABLE_FP_EMULATION\<close>, no compressed
  instructions).
\<close>

subsection \<open>Misaligned loads and stores\<close>

text \<open>The length, the shift and the kind of register of a load.\<close>

definition misaligned_load_decode :: "u32 \<Rightarrow> (nat \<times> nat \<times> bool) option" where
  "misaligned_load_decode insn =
     (if insn AND 0x707f = 0x2003 then Some (4, 8 * (8 - 4), False)
      else if insn AND 0x707f = 0x3003 then Some (8, 8 * (8 - 8), False)
      else if insn AND 0x707f = 0x6003 then Some (4, 0, False)
      else if insn AND 0x707f = 0x3007 then Some (8, 0, True)
      else if insn AND 0x707f = 0x2007 then Some (4, 0, True)
      else if insn AND 0x707f = 0x1003 then Some (2, 8 * (8 - 2), False)
      else if insn AND 0x707f = 0x5003 then Some (2, 0, False)
      else None)"

text \<open>\<^verbatim>\<open>for (i = len-1; i >= 0; i--) val.bytes[i] = load_uint8_t(addr + i)\<close>\<close>

fun load_loop :: "nat \<Rightarrow> u64 \<Rightarrow> u64 \<Rightarrow> u8 list \<Rightarrow> u8 list exec" where
  "load_loop 0 addr mepc bytes = ret bytes"
| "load_loop (Suc i) addr mepc bytes =
     ebind (load_uint8_t (addr + of_nat i) mepc) (\<lambda>b. load_loop i addr mepc (bytes[i := b]))"

definition misaligned_load_trap :: "u64 \<Rightarrow> u64 \<Rightarrow> unit exec" where
  "misaligned_load_trap mcause mepc =
     ebind (get_insn mepc) (\<lambda>(insn, mstatus).
     ebind (gets csr_mbadaddr) (\<lambda>addr.
       (case misaligned_load_decode insn of
          None \<Rightarrow> truly_illegal_insn mcause mepc mstatus insn
        | Some (len, shift, fp) \<Rightarrow>
            ebind (load_loop len addr mepc (replicate 8 0)) (\<lambda>bytes.
              let val = le_word bytes in
              ebind
                (if \<not> fp then SET_RD insn (signed_drop_bit shift (push_bit shift val))
                 else if len = 8 then SET_F64_RD insn val
                 else SET_F32_RD insn (ucast val))
                (\<lambda>_. write_mepc (mepc + 4))))))"

text \<open>\<^verbatim>\<open>for (i = 0; i < len; i++) store_uint8_t(addr + i, val.bytes[i])\<close>\<close>

fun store_loop :: "nat \<Rightarrow> u64 \<Rightarrow> u8 list \<Rightarrow> u64 \<Rightarrow> unit exec" where
  "store_loop i addr [] mepc = ret ()"
| "store_loop i addr (b # bytes) mepc =
     ebind (store_uint8_t (addr + of_nat i) b mepc) (\<lambda>_. store_loop (Suc i) addr bytes mepc)"

text \<open>
  The length of a store and the value of the union; \<^verbatim>\<open>FSW\<close> assigns the sign-extended
  \<^verbatim>\<open>int32_t\<close> to \<^verbatim>\<open>intx\<close>.
\<close>

definition misaligned_store_decode :: "u32 \<Rightarrow> hart \<Rightarrow> (nat \<times> u64) option" where
  "misaligned_store_decode insn h =
     (if insn AND 0x707f = 0x2023 then Some (4, GET_RS2 insn h)
      else if insn AND 0x707f = 0x3023 then Some (8, GET_RS2 insn h)
      else if insn AND 0x707f = 0x3027 then Some (8, GET_F64_REG insn 20 h)
      else if insn AND 0x707f = 0x2027 then Some (4, scast (GET_F32_REG insn 20 h))
      else if insn AND 0x707f = 0x1023 then Some (2, GET_RS2 insn h)
      else None)"

definition misaligned_store_trap :: "u64 \<Rightarrow> u64 \<Rightarrow> unit exec" where
  "misaligned_store_trap mcause mepc =
     ebind (get_insn mepc) (\<lambda>(insn, mstatus).
     ebind (gets (misaligned_store_decode insn)) (\<lambda>d.
       (case d of
          None \<Rightarrow> truly_illegal_insn mcause mepc mstatus insn
        | Some (len, val) \<Rightarrow>
            ebind (gets csr_mbadaddr) (\<lambda>addr.
            ebind (store_loop 0 addr (take len (le_bytes 8 val)) mepc) (\<lambda>_.
              write_mepc (mepc + 4))))))"

subsection \<open>Multiplication and division\<close>

text \<open>
  C's \<^verbatim>\<open>/\<close> and \<^verbatim>\<open>%\<close> on signed operands: truncating, undefined for a zero divisor and for a
  quotient that does not fit. \<open>None\<close> is undefined.
\<close>

definition c_sdiv :: "nat \<Rightarrow> int \<Rightarrow> int \<Rightarrow> int option" where
  "c_sdiv w a b = (if b = 0 \<or> a = - (2 ^ (w - 1)) \<and> b = - 1 then None else Some (a sdiv b))"

definition c_smod :: "nat \<Rightarrow> int \<Rightarrow> int \<Rightarrow> int option" where
  "c_smod w a b = (if b = 0 \<or> a = - (2 ^ (w - 1)) \<and> b = - 1 then None else Some (a smod b))"

definition c_udiv :: "int \<Rightarrow> int \<Rightarrow> int option" where
  "c_udiv a b = (if b = 0 then None else Some (a div b))"

definition c_umod :: "int \<Rightarrow> int \<Rightarrow> int option" where
  "c_umod a b = (if b = 0 then None else Some (a mod b))"

text \<open>The product of two values of \<^verbatim>\<open>__int128\<close>, undefined on overflow, and its upper half.\<close>

definition c_mul128 :: "int \<Rightarrow> int \<Rightarrow> int option" where
  "c_mul128 a b = (if - (2 ^ 127) \<le> a * b \<and> a * b < 2 ^ 127 then Some (a * b) else None)"

definition mul_div_val :: "u32 \<Rightarrow> u64 \<Rightarrow> u64 \<Rightarrow> int option option" where
  "mul_div_val insn rs1 rs2 =
     (if insn AND 0xfe00707f = 0x2000033 then Some (Some (uint (rs1 * rs2)))
      else if insn AND 0xfe00707f = 0x2004033 then Some (c_sdiv 64 (sint rs1) (sint rs2))
      else if insn AND 0xfe00707f = 0x2005033 then Some (c_udiv (uint rs1) (uint rs2))
      else if insn AND 0xfe00707f = 0x2006033 then Some (c_smod 64 (sint rs1) (sint rs2))
      else if insn AND 0xfe00707f = 0x2007033 then Some (c_umod (uint rs1) (uint rs2))
      else if insn AND 0xfe00707f = 0x2001033 then
        Some (map_option (drop_bit 64) (c_mul128 (sint rs1) (sint rs2)))
      else if insn AND 0xfe00707f = 0x2003033 then
        Some (map_option (drop_bit 64) (c_mul128 (uint rs1) (uint rs2)))
      else if insn AND 0xfe00707f = 0x2002033 then
        Some (map_option (drop_bit 64) (c_mul128 (sint rs1) (uint rs2)))
      else None)"

definition emulate_mul_div :: "u64 \<Rightarrow> u64 \<Rightarrow> u64 \<Rightarrow> u32 \<Rightarrow> unit exec" where
  "emulate_mul_div mcause mepc mstatus insn =
     ebind (gets (\<lambda>h. mul_div_val insn (GET_RS1 insn h) (GET_RS2 insn h))) (\<lambda>r.
       (case r of
          None \<Rightarrow> truly_illegal_insn mcause mepc mstatus insn
        | Some None \<Rightarrow> undefined_behaviour
        | Some (Some val) \<Rightarrow> SET_RD insn (word_of_int val)))"

definition mul_div32_val :: "u32 \<Rightarrow> u32 \<Rightarrow> u32 \<Rightarrow> int option option" where
  "mul_div32_val insn rs1 rs2 =
     (if insn AND 0xfe00707f = 0x200003b then Some (Some (uint (rs1 * rs2)))
      else if insn AND 0xfe00707f = 0x200403b then Some (c_sdiv 32 (sint rs1) (sint rs2))
      else if insn AND 0xfe00707f = 0x200503b then Some (c_udiv (uint rs1) (uint rs2))
      else if insn AND 0xfe00707f = 0x200603b then Some (c_smod 32 (sint rs1) (sint rs2))
      else if insn AND 0xfe00707f = 0x200703b then Some (c_umod (uint rs1) (uint rs2))
      else None)"

definition emulate_mul_div32 :: "u64 \<Rightarrow> u64 \<Rightarrow> u64 \<Rightarrow> u32 \<Rightarrow> unit exec" where
  "emulate_mul_div32 mcause mepc mstatus insn =
     ebind (gets (\<lambda>h. mul_div32_val insn (ucast (GET_RS1 insn h)) (ucast (GET_RS2 insn h)))) (\<lambda>r.
       (case r of
          None \<Rightarrow> truly_illegal_insn mcause mepc mstatus insn
        | Some None \<Rightarrow> undefined_behaviour
        | Some (Some val) \<Rightarrow> SET_RD insn (scast (word_of_int val :: u32))))"

subsection \<open>CSR instructions\<close>

definition emulate_read_csr :: "u32 \<Rightarrow> u64 \<Rightarrow> hart \<Rightarrow> u64 option" where
  "emulate_read_csr num mstatus h =
     (if num = 0xc01 then Some (mtime_reg h + utime_delta (hart_hls h))
      else if num = 0xc00 then Some (csr_mcycle h + ucycle_delta (hart_hls h))
      else if num = 0xc02 then Some (csr_minstret h + uinstret_delta (hart_hls h))
      else if num = 0xd01 then Some (mtime_reg h + stime_delta (hart_hls h))
      else if num = 0xd00 then Some (csr_mcycle h + scycle_delta (hart_hls h))
      else if num = 0xd02 then Some (csr_minstret h + sinstret_delta (hart_hls h))
      else if num = 0x2 then if mstatus AND MSTATUS_FS = 0 then None else Some (ucast (GET_FRM h))
      else if num = 0x1 then if mstatus AND MSTATUS_FS = 0 then None else Some (ucast (GET_FFLAGS h))
      else if num = 0x3 then if mstatus AND MSTATUS_FS = 0 then None else Some (ucast (GET_FCSR h))
      else None)"

text \<open>\<open>False\<close> is the failing return value \<open>-1\<close>.\<close>

definition emulate_write_csr :: "u32 \<Rightarrow> u64 \<Rightarrow> bool exec" where
  "emulate_write_csr num value =
     (if num = 0x2 then ebind (SET_FRM value) (\<lambda>_. ret True)
      else if num = 0x1 then ebind (SET_FFLAGS value) (\<lambda>_. ret True)
      else if num = 0x3 then ebind (SET_FCSR value) (\<lambda>_. ret True)
      else ret False)"

text \<open>The new value and whether it is written, from the \<^verbatim>\<open>switch\<close> on \<^verbatim>\<open>funct3\<close>.\<close>

definition csr_update :: "u32 \<Rightarrow> u32 \<Rightarrow> u64 \<Rightarrow> u64 \<Rightarrow> (u64 \<times> bool) option" where
  "csr_update rm rs1_num rs1_val csr_val =
     (if rm = 1 then Some (rs1_val, True)
      else if rm = 2 then Some (csr_val OR rs1_val, rs1_num \<noteq> 0)
      else if rm = 3 then Some (csr_val AND NOT rs1_val, rs1_num \<noteq> 0)
      else if rm = 5 then Some (ucast rs1_num, True)
      else if rm = 6 then Some (csr_val OR ucast rs1_num, rs1_num \<noteq> 0)
      else if rm = 7 then Some (csr_val AND NOT (ucast rs1_num), rs1_num \<noteq> 0)
      else None)"

definition emulate_system_opcode :: "u64 \<Rightarrow> u64 \<Rightarrow> u64 \<Rightarrow> u32 \<Rightarrow> unit exec" where
  "emulate_system_opcode mcause mepc mstatus insn =
     (let rs1_num = drop_bit 15 insn AND 0x1f; csr_num = drop_bit 20 insn in
      ebind (gets (GET_RS1 insn)) (\<lambda>rs1_val.
      ebind (gets (emulate_read_csr csr_num mstatus)) (\<lambda>r.
        (case r of
           None \<Rightarrow> truly_illegal_insn mcause mepc mstatus insn
         | Some csr_val \<Rightarrow>
             (case csr_update (GET_RM insn) rs1_num rs1_val csr_val of
                None \<Rightarrow> truly_illegal_insn mcause mepc mstatus insn
              | Some (new_csr_val, do_write) \<Rightarrow>
                  ebind (if do_write then emulate_write_csr csr_num new_csr_val else ret True)
                    (\<lambda>ok. if ok then SET_RD insn csr_val
                          else truly_illegal_insn mcause mepc mstatus insn))))))"

subsection \<open>Byte loops\<close>

text \<open>
  What a fault of an unprivileged access leads to: the supervisor is entered at \<^verbatim>\<open>stvec\<close> with the
  original program counter, and nothing of the interrupted program's state has changed.
\<close>

definition fault_state :: "u64 \<Rightarrow> u64 \<Rightarrow> u64 \<Rightarrow> hart \<Rightarrow> hart" where
  "fault_state cause addr mepc h =
     h\<lparr>csr_mcause := cause, csr_mbadaddr := addr, csr_sbadaddr := addr, csr_sepc := mepc,
       csr_scause := cause, csr_mepc := csr_stvec h,
       csr_mstatus := redirect_mstatus (csr_mstatus h)\<rparr>"

lemma or_mprv: "(x OR MSTATUS_MPRV) AND MSTATUS_MPRV \<noteq> 0"
  by (simp add: bit.conj_disj_distrib2 MSTATUS_MPRV_def word_ao_absorbs)

lemma unprivileged_fault_page:
  assumes "cause = CAUSE_FAULT_LOAD \<or> cause = CAUSE_FAULT_STORE"
  shows "unprivileged_fault cause addr mepc h = Inl (Redirect (fault_state cause addr mepc h))"
  using assms or_mprv [of "csr_mstatus h"]
  by (auto simp: unprivileged_fault_def machine_page_fault_def redirect_trap_def Let_def
      fault_state_def)

lemma load_uint8_Some [simp]: "umem h a = Some b \<Longrightarrow> load_uint8_t a mepc h = Inr (b, h)"
  by (simp add: load_uint8_t_def load_bytes_def uread_def exec_simps)

lemma load_uint8_None [simp]:
  "umem h a = None \<Longrightarrow> load_uint8_t a mepc h = Inl (Redirect (fault_state CAUSE_FAULT_LOAD a mepc h))"
  by (simp add: load_uint8_t_def load_bytes_def uread_def exec_simps unprivileged_fault_page)

lemma load_loop_all:
  assumes "\<And>i. i < n \<Longrightarrow> umem h (a + of_nat i) = Some (bs ! i)" "length bs = n" "n \<le> length xs"
  shows "load_loop n a mepc xs h = Inr (bs @ drop n xs, h)"
  using assms
proof (induction n arbitrary: xs bs)
  case (Suc n)
  have "load_loop n a mepc (xs[n := bs ! n]) h = Inr (take n bs @ drop n (xs[n := bs ! n]), h)"
    using Suc.prems by (intro Suc.IH) auto
  moreover have "drop n (xs[n := bs ! n]) = bs ! n # drop (Suc n) xs"
    using Suc.prems by (simp add: Cons_nth_drop_Suc [symmetric] drop_update_cancel)
  moreover have "take n bs @ [bs ! n] = bs" using Suc.prems by (simp add: take_Suc_conv_app_nth [symmetric])
  ultimately show ?case using Suc.prems(1) [of n]
    by (simp add: exec_simps)
qed (simp add: exec_simps)

lemma load_loop_fault:
  assumes "\<exists>i<n. umem h (a + of_nat i) = None"
  shows "\<exists>i<n. umem h (a + of_nat i) = None \<and>
    load_loop n a mepc xs h = Inl (Redirect (fault_state CAUSE_FAULT_LOAD (a + of_nat i) mepc h))"
  using assms
proof (induction n arbitrary: xs)
  case (Suc n)
  show ?case
  proof (cases "umem h (a + of_nat n)")
    case None
    then show ?thesis by (intro exI [of _ n]) (simp add: exec_simps)
  next
    case (Some b)
    with Suc.prems have "\<exists>i<n. umem h (a + of_nat i) = None" by (metis less_Suc_eq option.distinct(1))
    from Suc.IH [OF this, of "xs[n := b]"] Some show ?thesis
      by (auto simp: exec_simps intro: less_SucI)
  qed
qed simp

lemma get_insn_Some:
  assumes "uread h mepc 4 = Some ib" "unat mepc mod 4 = 0"
  shows "get_insn mepc h = Inr ((ucast (le_word ib), csr_mstatus h), h)"
  using assms by (simp add: get_insn_def load_bytes_def exec_simps)

subsection \<open>Stores\<close>

lemma store_uint8_ok [simp]:
  "uwritable h a \<Longrightarrow> store_uint8_t a b mepc h = Inr ((), h\<lparr>umem := (umem h)(a \<mapsto> b)\<rparr>)"
  by (simp add: store_uint8_t_def store_bytes_def uwrite_def)

lemma store_loop_ok:
  assumes "\<And>j. j < length bs \<Longrightarrow> uwritable h (a + of_nat (i + j))"
  shows "\<exists>m. store_loop i a bs mepc h = Inr ((), h\<lparr>umem := m\<rparr>) \<and>
    (length bs + i \<le> 2 ^ 64 \<longrightarrow> (\<forall>j<length bs. m (a + of_nat (i + j)) = Some (bs ! j))) \<and>
    (\<forall>x. (\<forall>j<length bs. x \<noteq> a + of_nat (i + j)) \<longrightarrow> m x = umem h x)"
  using assms
proof (induction bs arbitrary: i h)
  case Nil
  then show ?case by (intro exI [of _ "umem h"]) (simp add: exec_simps)
next
  case (Cons b bs)
  define h' where "h' = h\<lparr>umem := (umem h)(a + of_nat i \<mapsto> b)\<rparr>"
  have w: "uwritable h (a + of_nat i)" using Cons.prems [of 0] by simp
  have "uwritable h' (a + of_nat (Suc i + j))" if "j < length bs" for j
    using Cons.prems [of "Suc j"] that by (simp add: h'_def)
  from Cons.IH [OF this] obtain m where m: "store_loop (Suc i) a bs mepc h' = Inr ((), h'\<lparr>umem := m\<rparr>)"
    "length bs + Suc i \<le> 2 ^ 64 \<longrightarrow> (\<forall>j<length bs. m (a + of_nat (Suc i + j)) = Some (bs ! j))"
    "\<forall>x. (\<forall>j<length bs. x \<noteq> a + of_nat (Suc i + j)) \<longrightarrow> m x = umem h' x" by blast
  have first: "m (a + of_nat i) = Some b" if len: "length (b # bs) + i \<le> 2 ^ 64"
  proof -
    have "of_nat i \<noteq> (of_nat (Suc i + j) :: u64)" if "j < length bs" for j
      using that len by (simp add: of_nat_eq_iff_u64 del: of_nat_Suc of_nat_add)
    then have "\<forall>j<length bs. a + of_nat i \<noteq> a + of_nat (Suc i + j)" by simp
    with m(3) show ?thesis by (simp add: h'_def)
  qed
  have "store_loop i a (b # bs) mepc h = Inr ((), h\<lparr>umem := m\<rparr>)"
    using w m(1) by (simp add: exec_simps h'_def)
  moreover have "\<forall>j<length (b # bs). m (a + of_nat (i + j)) = Some ((b # bs) ! j)"
    if "length (b # bs) + i \<le> 2 ^ 64"
    using that first m(2) by (auto simp: nth_Cons ac_simps split: nat.split)
  moreover have "m x = umem h x" if "\<forall>j<length (b # bs). x \<noteq> a + of_nat (i + j)" for x
  proof -
    have "x \<noteq> a + of_nat i" "\<forall>j<length bs. x \<noteq> a + of_nat (Suc i + j)"
      using that [rule_format, of 0] that [rule_format, of "Suc j" for j] by auto
    with m(3) show ?thesis by (simp add: h'_def)
  qed
  ultimately show ?case by blast
qed

subsection \<open>Reference semantics\<close>

text \<open>What the ISA manual says an integer load of the bytes \<open>bs\<close> puts into its register.\<close>

definition isa_load :: "u32 \<Rightarrow> u8 list \<Rightarrow> u64" where
  "isa_load insn bs =
     (let w = le_word bs; funct3 = drop_bit 12 insn AND 7 in
      if funct3 = 1 then scast (ucast w :: u16)
      else if funct3 = 2 then scast (ucast w :: u32)
      else if funct3 = 3 then w
      else if funct3 = 5 then ucast (ucast w :: u16)
      else ucast (ucast w :: u32))"

lemma funct3_of_match: "insn AND 0x707f = c \<Longrightarrow> drop_bit 12 insn AND 7 = drop_bit 12 (c :: u32) AND 7"
proof -
  assume "insn AND 0x707f = c"
  then have "drop_bit 12 c AND 7 = drop_bit 12 (insn AND 0x707f) AND 7" by simp
  also have "\<dots> = drop_bit 12 insn AND 7"
    by (simp add: drop_bit_and and.assoc)
  finally show ?thesis by simp
qed

lemma le_word_take: "8 * length bs \<le> 64 \<Longrightarrow> take_bit (8 * length bs) (le_word bs) = le_word bs"
  by (rule bit_eqI) (auto simp: bit_take_bit_iff bit_le_word div_less_iff_less_mult)

lemma scast_ucast_16: "(scast (ucast (w :: u64) :: u16) :: u64) = signed_take_bit 15 w"
  by (simp add: signed_ucast_eq)

lemma scast_ucast_32: "(scast (ucast (w :: u64) :: u32) :: u64) = signed_take_bit 31 w"
  by (simp add: signed_ucast_eq)

lemma ucast_ucast_take: "(ucast (ucast (w :: u64) :: 'a :: len word) :: u64) = take_bit LENGTH('a) w"
  by (rule bit_eqI) (auto simp: bit_unsigned_iff bit_take_bit_iff)

lemma misaligned_load_value:
  assumes "misaligned_load_decode insn = Some (len, shift, False)" "length bs = len"
  shows "signed_drop_bit shift (push_bit shift (le_word bs)) = isa_load insn bs"
proof -
  have t: "take_bit (8 * len) (le_word bs) = le_word bs" if "len \<le> 8"
    using le_word_take [of bs] assms(2) that by simp
  show ?thesis
    using assms(1) t
    by (auto simp: misaligned_load_decode_def isa_load_def Let_def sext_shift scast_ucast_16
        scast_ucast_32 ucast_ucast_take dest!: funct3_of_match split: if_splits)
qed

lemma misaligned_load_decode_len:
  "misaligned_load_decode insn = Some (len, shift, fp) \<Longrightarrow> len \<in> {2, 4, 8}"
  by (auto simp: misaligned_load_decode_def split: if_splits)

subsection \<open>Properties of the misaligned accesses\<close>


text \<open>A hart with a small program memory, for the witnesses.\<close>

definition hls_zero :: hls where
  "hls_zero =
     \<lparr>timecmp = 0, ipi = 0, mipi_pending = 0, sipi_pending = 0, console_ibuf = 0, utime_delta = 0,
      ucycle_delta = 0, uinstret_delta = 0, stime_delta = 0, scycle_delta = 0, sinstret_delta = 0\<rparr>"

definition sample_hart :: "(u64 \<Rightarrow> u8 option) \<Rightarrow> hart" where
  "sample_hart m =
     \<lparr>x_regs = replicate 32 0, f_regs = replicate 32 0, tp_reg = 0, csr_mepc = 0, csr_mcause = 0,
      csr_mbadaddr = 0x101, csr_mstatus = 0, csr_mip = 0, csr_mie = 0, csr_mcycle = 0,
      csr_minstret = 0, csr_sepc = 0, csr_scause = 0, csr_sbadaddr = 0, csr_stvec = 0x8000,
      csr_sie = 0, mtime_reg = 0, hart_hls = hls_zero, umem = m, uwritable = (\<lambda>a. a \<ge> 0x100)\<rparr>"

text \<open>\<^verbatim>\<open>lh a0, 0(x0)\<close> at address 0 and the two bytes \<^verbatim>\<open>34 92\<close> at the odd address 0x101.\<close>

definition lh_mem :: "u64 \<Rightarrow> u8 option" where
  "lh_mem = [0 \<mapsto> 0x03, 1 \<mapsto> 0x15, 2 \<mapsto> 0, 3 \<mapsto> 0, 0x101 \<mapsto> 0x34, 0x102 \<mapsto> 0x92]"

lemma lh_fetch: "uread (sample_hart lh_mem) 0 4 = Some [0x03, 0x15, 0, 0]"
  by (simp add: uread_def sample_hart_def lh_mem_def upt_small)



text \<open>\<^verbatim>\<open>sh a0, 0(x0)\<close> at address 0.\<close>

definition sh_hart :: hart where
  "sh_hart = (sample_hart [0 \<mapsto> 0x23, 1 \<mapsto> 0x10, 2 \<mapsto> 0xa0, 3 \<mapsto> 0])
     \<lparr>x_regs := (replicate 32 0)[10 := 0xABCDEF]\<rparr>"


subsection \<open>Properties of multiplication and division\<close>

text \<open>
  The results that the ISA manual defines, including those for a zero divisor and for overflow. The
  upper halves of the products are taken from a 128-bit multiplication.
\<close>

definition isa_mul_div :: "u32 \<Rightarrow> u64 \<Rightarrow> u64 \<Rightarrow> u64" where
  "isa_mul_div insn a b =
     (let f = drop_bit 12 insn AND 7 in
      if f = 0 then a * b
      else if f = 1 then ucast (drop_bit 64 ((scast a :: 128 word) * scast b))
      else if f = 2 then ucast (drop_bit 64 ((scast a :: 128 word) * ucast b))
      else if f = 3 then ucast (drop_bit 64 ((ucast a :: 128 word) * ucast b))
      else if f = 4 then
        (if b = 0 then - 1 else if a = 2 ^ 63 \<and> b = - 1 then 2 ^ 63 else word_of_int (sint a sdiv sint b))
      else if f = 5 then (if b = 0 then - 1 else a div b)
      else if f = 6 then
        (if b = 0 then a else if a = 2 ^ 63 \<and> b = - 1 then 0 else word_of_int (sint a smod sint b))
      else (if b = 0 then a else a mod b))"

lemma upper_half:
  assumes "x = word_of_int p"
  shows "(ucast (drop_bit 64 (x :: 128 word)) :: u64) = word_of_int (drop_bit 64 p)"
  using assms by (intro bit_eqI)
    (auto simp: bit_unsigned_iff bit_drop_bit_eq bit_word_of_int_iff)

lemma sint_bounds_u64: "- (2 ^ 63) \<le> sint (a :: u64)" "sint (a :: u64) < 2 ^ 63"
  using sint_ge [of a] sint_lt [of a] by simp_all

lemma sint_special_u64:
  "sint (a :: u64) = - (2 ^ 63) \<longleftrightarrow> a = 2 ^ 63" "sint a = - 1 \<longleftrightarrow> a = - 1" "sint a = 0 \<longleftrightarrow> a = 0"
  "uint a = 0 \<longleftrightarrow> a = 0"
proof -
  have "sint (2 ^ 63 :: u64) = - (2 ^ 63)" by simp
  then show "sint a = - (2 ^ 63) \<longleftrightarrow> a = 2 ^ 63" by (metis signed_word_eqI)
qed (metis signed_word_eqI signed_minus_1, metis signed_word_eqI signed_0,
  simp only: unsigned_eq_0_iff)

lemma product_fits_ss: "- (2 ^ 127) \<le> sint (a :: u64) * sint (b :: u64) \<and> sint a * sint b < 2 ^ 127"
proof -
  have "\<bar>sint a * sint b\<bar> \<le> 2 ^ 63 * 2 ^ 63"
    unfolding abs_mult using sint_bounds_u64 [of a] sint_bounds_u64 [of b] by (intro mult_mono) auto
  then show ?thesis by (simp add: abs_le_iff)
qed

lemma product_fits_su: "- (2 ^ 127) \<le> sint (a :: u64) * uint (b :: u64) \<and> sint a * uint b < 2 ^ 127"
proof -
  have u: "0 \<le> uint b" "uint b < 2 ^ 64" using unsigned_less [where w = b and ?'a = int] by auto
  have "\<bar>sint a * uint b\<bar> \<le> 2 ^ 63 * (2 ^ 64 - 1)"
    unfolding abs_mult using sint_bounds_u64 [of a] u by (intro mult_mono) auto
  then show ?thesis by (simp add: abs_le_iff)
qed

lemma product_uu_nonneg: "- (2 ^ 127) \<le> uint (a :: u64) * uint (b :: u64)"
proof -
  have "0 \<le> uint a * uint b" "- (2 ^ 127) \<le> (0 :: int)" by simp_all
  then show ?thesis by (rule order_trans [rotated])
qed

lemma mul_div_undefined_iff:
  "mul_div_val insn a b = Some None \<longleftrightarrow>
     insn AND 0xfe00707f \<in> {0x2004033, 0x2006033} \<and> (b = 0 \<or> a = 2 ^ 63 \<and> b = - 1) \<or>
     insn AND 0xfe00707f \<in> {0x2005033, 0x2007033} \<and> b = 0 \<or>
     insn AND 0xfe00707f = 0x2003033 \<and> 2 ^ 127 \<le> uint a * uint b"
proof -
  have d: "c_sdiv 64 (sint a) (sint b) = None \<longleftrightarrow> b = 0 \<or> a = 2 ^ 63 \<and> b = - 1"
    "c_smod 64 (sint a) (sint b) = None \<longleftrightarrow> b = 0 \<or> a = 2 ^ 63 \<and> b = - 1"
    "c_udiv (uint a) (uint b) = None \<longleftrightarrow> b = 0" "c_umod (uint a) (uint b) = None \<longleftrightarrow> b = 0"
    using sint_special_u64 [of a] sint_special_u64 [of b]
    by (simp_all add: c_sdiv_def c_smod_def c_udiv_def c_umod_def)
  have m: "c_mul128 (sint a) (sint b) \<noteq> None" "c_mul128 (sint a) (uint b) \<noteq> None"
    "c_mul128 (uint a) (uint b) = None \<longleftrightarrow> 2 ^ 127 \<le> uint a * uint b"
    using product_fits_ss product_fits_su product_uu_nonneg [of a b]
    by (auto simp: c_mul128_def not_less)
  show ?thesis unfolding mul_div_val_def using d m by (auto simp: option.map_disc_iff split: if_splits)
qed

lemma funct3_of_match_r: "insn AND 0xfe00707f = c \<Longrightarrow> drop_bit 12 insn AND 7 = drop_bit 12 (c :: u32) AND 7"
proof -
  assume "insn AND 0xfe00707f = c"
  then have "drop_bit 12 c AND 7 = drop_bit 12 (insn AND 0xfe00707f) AND 7" by simp
  also have "\<dots> = drop_bit 12 insn AND 7" by (simp add: drop_bit_and and.assoc)
  finally show ?thesis by simp
qed

lemma mul_div_value:
  assumes "mul_div_val insn a b = Some (Some v)"
  shows "word_of_int v = isa_mul_div insn a b"
proof -
  have n: "\<not> (b = 0 \<or> a = 2 ^ 63 \<and> b = - 1)" if "insn AND 0xfe00707f \<in> {0x2004033, 0x2006033}"
    using that mul_div_undefined_iff [of insn a b] assms by auto
  have z: "b \<noteq> 0" if "insn AND 0xfe00707f \<in> {0x2005033, 0x2007033}"
    using that mul_div_undefined_iff [of insn a b] assms by auto
  show ?thesis
    using assms n z unfolding mul_div_val_def
    by (auto simp: isa_mul_div_def Let_def c_sdiv_def c_smod_def c_udiv_def c_umod_def c_mul128_def
        word_div_def word_mod_def intro!: upper_half [symmetric]
        dest!: funct3_of_match_r split: if_splits)
qed

definition m_insns :: "u32 set" where
  "m_insns = {0x2000033, 0x2001033, 0x2002033, 0x2003033, 0x2004033, 0x2005033, 0x2006033, 0x2007033}"

definition mul_div_undefined :: "u32 \<Rightarrow> u64 \<Rightarrow> u64 \<Rightarrow> bool" where
  "mul_div_undefined insn a b \<longleftrightarrow>
     (let op = insn AND 0xfe00707f in
      (op = 0x2004033 \<or> op = 0x2006033) \<and> (b = 0 \<or> a = 2 ^ 63 \<and> b = - 1) \<or>
      (op = 0x2005033 \<or> op = 0x2007033) \<and> b = 0 \<or>
      op = 0x2003033 \<and> 2 ^ 127 \<le> uint a * uint b)"

text \<open>
  C23 (equivalence). The emulation of \<^verbatim>\<open>mul\<close>, \<^verbatim>\<open>mulh\<close>, \<^verbatim>\<open>mulhsu\<close>, \<^verbatim>\<open>mulhu\<close>, \<^verbatim>\<open>div\<close>,
  \<^verbatim>\<open>divu\<close>, \<^verbatim>\<open>rem\<close> and \<^verbatim>\<open>remu\<close> puts the value that the ISA defines into the destination
  register, except on exactly the operands for which the C expression is undefined: a zero divisor,
  the overflowing quotient of \<open>-2\<^sup>6\<^sup>3\<close> and \<open>-1\<close>, and a \<^verbatim>\<open>mulhu\<close> whose product does not fit
  \<^verbatim>\<open>__int128\<close>. For these the ISA defines a result and the handler has none. Every other
  instruction is passed to the supervisor.
\<close>

theorem emulate_mul_div_correct:
  "emulate_mul_div mcause mepc mstatus insn h =
    (if insn AND 0xfe00707f \<notin> m_insns then redirect_trap mepc mstatus h
     else if mul_div_undefined insn (GET_RS1 insn h) (GET_RS2 insn h) then Inl Undefined
     else Inr ((), h\<lparr>x_regs := (x_regs h)[reg_index insn 7 :=
            isa_mul_div insn (GET_RS1 insn h) (GET_RS2 insn h)]\<rparr>))"
proof -
  let ?v = "mul_div_val insn (GET_RS1 insn h) (GET_RS2 insn h)"
  have n: "?v = None \<longleftrightarrow> insn AND 0xfe00707f \<notin> m_insns"
    unfolding mul_div_val_def m_insns_def by (simp split: if_split)
  have u: "?v = Some None \<longleftrightarrow> mul_div_undefined insn (GET_RS1 insn h) (GET_RS2 insn h)"
    unfolding mul_div_undefined_iff mul_div_undefined_def by (simp add: Let_def)
  consider "?v = None" | "?v = Some None" | v where "?v = Some (Some v)"
    by (cases ?v) (auto simp: not_None_eq [symmetric] simp del: not_None_eq)
  then show ?thesis
    using n u mul_div_value [of insn "GET_RS1 insn h" "GET_RS2 insn h"]
    by cases (simp_all add: emulate_mul_div_def exec_simps truly_illegal_insn_def SET_RD_def)
qed

text \<open>The word forms, on the lower halves of the registers and with a sign-extended result.\<close>

definition isa_mul_div32 :: "u32 \<Rightarrow> u32 \<Rightarrow> u32 \<Rightarrow> u64" where
  "isa_mul_div32 insn a b =
     scast
      (let f = drop_bit 12 insn AND 7 in
       if f = 0 then a * b
       else if f = 4 then
         (if b = 0 then - 1 else if a = 2 ^ 31 \<and> b = - 1 then 2 ^ 31 else word_of_int (sint a sdiv sint b))
       else if f = 5 then (if b = 0 then - 1 else a div b)
       else if f = 6 then
         (if b = 0 then a else if a = 2 ^ 31 \<and> b = - 1 then 0 else word_of_int (sint a smod sint b))
       else (if b = 0 then a else a mod b))"

lemma sint_special_u32:
  "sint (a :: u32) = - (2 ^ 31) \<longleftrightarrow> a = 2 ^ 31" "sint a = - 1 \<longleftrightarrow> a = - 1" "sint a = 0 \<longleftrightarrow> a = 0"
  "uint a = 0 \<longleftrightarrow> a = 0"
proof -
  have "sint (2 ^ 31 :: u32) = - (2 ^ 31)" by simp
  then show "sint a = - (2 ^ 31) \<longleftrightarrow> a = 2 ^ 31" by (metis signed_word_eqI)
qed (metis signed_word_eqI signed_minus_1, metis signed_word_eqI signed_0,
  simp only: unsigned_eq_0_iff)

definition m32_insns :: "u32 set" where
  "m32_insns = {0x200003b, 0x200403b, 0x200503b, 0x200603b, 0x200703b}"

definition mul_div32_undefined :: "u32 \<Rightarrow> u32 \<Rightarrow> u32 \<Rightarrow> bool" where
  "mul_div32_undefined insn a b \<longleftrightarrow>
     (let op = insn AND 0xfe00707f in
      (op = 0x200403b \<or> op = 0x200603b) \<and> (b = 0 \<or> a = 2 ^ 31 \<and> b = - 1) \<or>
      (op = 0x200503b \<or> op = 0x200703b) \<and> b = 0)"

lemma mul_div32_cases:
  shows "mul_div32_val insn a b = None \<longleftrightarrow> insn AND 0xfe00707f \<notin> m32_insns"
    and "mul_div32_val insn a b = Some None \<longleftrightarrow> mul_div32_undefined insn a b"
    and "mul_div32_val insn a b = Some (Some v) \<Longrightarrow> scast (word_of_int v :: u32) = isa_mul_div32 insn a b"
proof -
  note sp = sint_special_u32 [of a] sint_special_u32 [of b]
  show "mul_div32_val insn a b = None \<longleftrightarrow> insn AND 0xfe00707f \<notin> m32_insns"
    unfolding mul_div32_val_def m32_insns_def by (simp split: if_split)
  have d: "c_sdiv 32 (sint a) (sint b) = None \<longleftrightarrow> b = 0 \<or> a = 2 ^ 31 \<and> b = - 1"
    "c_smod 32 (sint a) (sint b) = None \<longleftrightarrow> b = 0 \<or> a = 2 ^ 31 \<and> b = - 1"
    "c_udiv (uint a) (uint b) = None \<longleftrightarrow> b = 0" "c_umod (uint a) (uint b) = None \<longleftrightarrow> b = 0"
    using sp by (simp_all add: c_sdiv_def c_smod_def c_udiv_def c_umod_def)
  show u: "mul_div32_val insn a b = Some None \<longleftrightarrow> mul_div32_undefined insn a b"
    unfolding mul_div32_val_def mul_div32_undefined_def Let_def using d by (auto split: if_splits)
  assume v: "mul_div32_val insn a b = Some (Some v)"
  with u have "\<not> mul_div32_undefined insn a b" by simp
  with v show "scast (word_of_int v :: u32) = isa_mul_div32 insn a b"
    unfolding mul_div32_val_def mul_div32_undefined_def Let_def
    by (auto simp: isa_mul_div32_def Let_def c_sdiv_def c_smod_def c_udiv_def c_umod_def
        word_div_def word_mod_def dest!: funct3_of_match_r split: if_splits)
qed

text \<open>
  C29 (equivalence). The emulation of \<^verbatim>\<open>mulw\<close>, \<^verbatim>\<open>divw\<close>, \<^verbatim>\<open>divuw\<close>, \<^verbatim>\<open>remw\<close> and
  \<^verbatim>\<open>remuw\<close> agrees with the ISA on every operand for which the C expression is defined, with the
  32-bit result sign-extended.
\<close>

theorem emulate_mul_div32_correct:
  "emulate_mul_div32 mcause mepc mstatus insn h =
    (let a = ucast (GET_RS1 insn h); b = ucast (GET_RS2 insn h) in
     if insn AND 0xfe00707f \<notin> m32_insns then redirect_trap mepc mstatus h
     else if mul_div32_undefined insn a b then Inl Undefined
     else Inr ((), h\<lparr>x_regs := (x_regs h)[reg_index insn 7 := isa_mul_div32 insn a b]\<rparr>))"
proof -
  let ?v = "mul_div32_val insn (ucast (GET_RS1 insn h)) (ucast (GET_RS2 insn h))"
  consider "?v = None" | "?v = Some None" | v where "?v = Some (Some v)"
    by (cases ?v) (auto simp: not_None_eq [symmetric] simp del: not_None_eq)
  then show ?thesis
    using mul_div32_cases [of insn "ucast (GET_RS1 insn h)" "ucast (GET_RS2 insn h)"]
    by cases (simp_all add: emulate_mul_div32_def exec_simps truly_illegal_insn_def SET_RD_def Let_def)
qed

subsection \<open>Properties of the CSR instructions\<close>

lemma fcsr_after_set:
  "GET_FCSR (h\<lparr>tp_reg := ucast (v AND 0xFF :: u64)\<rparr>) = ucast (v AND 0xFF)"
  by (simp add: GET_FCSR_def and.assoc unsigned_and_eq)

lemma fcsr_fields_after_frm:
  defines "w \<equiv> \<lambda>h v. (ucast (GET_FFLAGS h) OR push_bit 5 v) AND (0xFF :: u64)"
  shows "GET_FRM (h\<lparr>tp_reg := ucast (w h v)\<rparr>) = ucast (v AND 7)"
    "GET_FFLAGS (h\<lparr>tp_reg := ucast (w h v)\<rparr>) = GET_FFLAGS h"
  unfolding w_def
  by (rule bit_eqI, auto simp: GET_FRM_def GET_FFLAGS_def fcsr_after_set GET_FCSR_def
      and_numeral_masks bit_simps)+

lemma fcsr_fields_after_fflags:
  defines "w \<equiv> \<lambda>h v. (ucast (push_bit 5 (GET_FRM h)) OR (v AND 0x1F)) AND (0xFF :: u64)"
  shows "GET_FFLAGS (h\<lparr>tp_reg := ucast (w h v)\<rparr>) = ucast (v AND 0x1F)"
    "GET_FRM (h\<lparr>tp_reg := ucast (w h v)\<rparr>) = GET_FRM h"
  unfolding w_def
  by (rule bit_eqI, auto simp: GET_FRM_def GET_FFLAGS_def fcsr_after_set GET_FCSR_def
      and_numeral_masks bit_simps)+

text \<open>
  C31 (roundtrip). The three views of the emulated floating-point CSR agree: what is written to
  \<^verbatim>\<open>frm\<close>, \<^verbatim>\<open>fflags\<close> or \<^verbatim>\<open>fcsr\<close> is what is read back, cut to the width of the field,
  and writing one field leaves the other one as it was. No other CSR can be written.
\<close>

theorem fcsr_write_read:
  "(\<exists>h'. emulate_write_csr 2 v h = Inr (True, h') \<and>
      GET_FRM h' = ucast (v AND 7) \<and> GET_FFLAGS h' = GET_FFLAGS h) \<and>
   (\<exists>h'. emulate_write_csr 1 v h = Inr (True, h') \<and>
      GET_FFLAGS h' = ucast (v AND 0x1F) \<and> GET_FRM h' = GET_FRM h) \<and>
   (\<exists>h'. emulate_write_csr 3 v h = Inr (True, h') \<and> GET_FCSR h' = ucast (v AND 0xFF)) \<and>
   (if num = 1 \<or> num = 2 \<or> num = 3 then True else emulate_write_csr num v h = Inr (False, h))"
  by (simp add: emulate_write_csr_def exec_simps SET_FRM_def SET_FFLAGS_def SET_FCSR_def
      fcsr_fields_after_frm fcsr_fields_after_fflags fcsr_after_set del: not_None_eq)

text \<open>
  The user and supervisor counters are read-only: an emulated CSR instruction that names
  one of them either only reads it, and then puts the counter plus the hart's offset into the
  destination register and changes nothing else, or is passed to the supervisor as illegal with the
  registers unchanged.
\<close>

theorem counters_read_only:
  assumes "drop_bit 20 insn \<in> {0xc00, 0xc01, 0xc02, 0xd00, 0xd01, 0xd02 :: u32}"
  shows "\<exists>v. emulate_read_csr (drop_bit 20 insn) mstatus h = Some v \<and>
    emulate_system_opcode mcause mepc mstatus insn h =
      (if GET_RM insn \<in> {2, 3, 6, 7} \<and> drop_bit 15 insn AND 0x1f = 0
       then Inr ((), h\<lparr>x_regs := (x_regs h)[reg_index insn 7 := v]\<rparr>)
       else redirect_trap mepc mstatus h)"
proof -
  obtain v where v: "emulate_read_csr (drop_bit 20 insn) mstatus h = Some v"
    using assms by (auto simp: emulate_read_csr_def)
  have w: "emulate_write_csr (drop_bit 20 insn) x = ret False" for x
    using assms by (auto simp: emulate_write_csr_def)
  show ?thesis
    using v by (auto simp: emulate_system_opcode_def Let_def exec_simps csr_update_def w
        truly_illegal_insn_def SET_RD_def)
qed

text \<open>\<^verbatim>\<open>rdtime a0\<close>\<close>

theorem counters_read_only_witness:
  "\<exists>v. emulate_read_csr 0xc01 0 (sample_hart Map.empty) = Some v \<and>
     emulate_system_opcode 2 0 0 0xc0102573 (sample_hart Map.empty) =
       Inr ((), (sample_hart Map.empty)\<lparr>x_regs := (replicate 32 0)[10 := v]\<rparr>)"
proof -
  have f: "drop_bit 20 (0xc0102573 :: u32) = 0xc01" "GET_RM 0xc0102573 = 2"
    "drop_bit 15 (0xc0102573 :: u32) AND 0x1f = 0" "reg_index 0xc0102573 7 = 10"
    by (simp_all add: GET_RM_def reg_index_def)
  show ?thesis
    using counters_read_only [of "0xc0102573" 0 "sample_hart Map.empty" 2 0]
    by (simp only: f) (simp add: sample_hart_def)
qed

end
