(* ===== verification/Fp_Emulation.thy ===== *)
theory Fp_Emulation
  imports Emulation
begin

text \<open>
  Floating-point emulation: \<^verbatim>\<open>machine/fp_emulation.c\<close>, \<^verbatim>\<open>machine/fp_ldst.c\<close> and the dispatch of
  \<^verbatim>\<open>machine/emulation.c\<close>, in the configuration of \<open>Emulation\<close>. The Berkeley SoftFloat routines
  are a parameter: a record of functions that take the register \<^verbatim>\<open>tp\<close>, which carries the rounding
  mode and the accrued flags, and return their result with the new \<^verbatim>\<open>tp\<close>.
\<close>

subsection \<open>The SoftFloat interface\<close>

record softfloat =
  f32_add :: "u32 \<Rightarrow> u32 \<Rightarrow> u32 \<Rightarrow> u32 \<times> u32"
  f64_add :: "u64 \<Rightarrow> u64 \<Rightarrow> u32 \<Rightarrow> u64 \<times> u32"
  f32_mul :: "u32 \<Rightarrow> u32 \<Rightarrow> u32 \<Rightarrow> u32 \<times> u32"
  f64_mul :: "u64 \<Rightarrow> u64 \<Rightarrow> u32 \<Rightarrow> u64 \<times> u32"
  f32_div :: "u32 \<Rightarrow> u32 \<Rightarrow> u32 \<Rightarrow> u32 \<times> u32"
  f64_div :: "u64 \<Rightarrow> u64 \<Rightarrow> u32 \<Rightarrow> u64 \<times> u32"
  f32_sqrt :: "u32 \<Rightarrow> u32 \<Rightarrow> u32 \<times> u32"
  f64_sqrt :: "u64 \<Rightarrow> u32 \<Rightarrow> u64 \<times> u32"
  f32_lt_quiet :: "u32 \<Rightarrow> u32 \<Rightarrow> u32 \<Rightarrow> bool \<times> u32"
  f64_lt_quiet :: "u64 \<Rightarrow> u64 \<Rightarrow> u32 \<Rightarrow> bool \<times> u32"
  f32_eq :: "u32 \<Rightarrow> u32 \<Rightarrow> u32 \<Rightarrow> bool \<times> u32"
  f64_eq :: "u64 \<Rightarrow> u64 \<Rightarrow> u32 \<Rightarrow> bool \<times> u32"
  f32_lt :: "u32 \<Rightarrow> u32 \<Rightarrow> u32 \<Rightarrow> bool \<times> u32"
  f64_lt :: "u64 \<Rightarrow> u64 \<Rightarrow> u32 \<Rightarrow> bool \<times> u32"
  f64_to_f32 :: "u64 \<Rightarrow> u32 \<Rightarrow> u32 \<times> u32"
  f32_to_f64 :: "u32 \<Rightarrow> u32 \<Rightarrow> u64 \<times> u32"
  ui64_to_f64 :: "u64 \<Rightarrow> u32 \<Rightarrow> u64 \<times> u32"
  f64_to_ui64 :: "u64 \<Rightarrow> u32 \<Rightarrow> u32 \<Rightarrow> u64 \<times> u32"
  mulAddF32 :: "u32 \<Rightarrow> u32 \<Rightarrow> u32 \<Rightarrow> u32 \<Rightarrow> u32 \<Rightarrow> u32 \<times> u32"
  mulAddF64 :: "u32 \<Rightarrow> u64 \<Rightarrow> u64 \<Rightarrow> u64 \<Rightarrow> u32 \<Rightarrow> u64 \<times> u32"

definition sf_call :: "(u32 \<Rightarrow> 'a \<times> u32) \<Rightarrow> 'a exec" where
  "sf_call f h = (case f (tp_reg h) of (r, tp) \<Rightarrow> Inr (r, h\<lparr>tp_reg := tp\<rparr>))"

definition softfloat_roundingMode :: "hart \<Rightarrow> u32" where
  "softfloat_roundingMode h = signed_drop_bit 13 (tp_reg h)"

definition softfloat_raiseFlags :: "u32 \<Rightarrow> unit exec" where
  "softfloat_raiseFlags which = modify (\<lambda>h. h\<lparr>tp_reg := tp_reg h OR which\<rparr>)"

definition softfloat_flag_invalid :: u32 where "softfloat_flag_invalid = 16"

definition isNaNF32UI :: "u32 \<Rightarrow> bool" where
  "isNaNF32UI ui \<longleftrightarrow> 0xFF000000 < push_bit 1 ui"

definition isNaNF64UI :: "u64 \<Rightarrow> bool" where
  "isNaNF64UI ui \<longleftrightarrow> 0xFFE0000000000000 < push_bit 1 ui"

subsection \<open>Operand access\<close>

type_synonym emulation_func = "u64 \<Rightarrow> u64 \<Rightarrow> u64 \<Rightarrow> u32 \<Rightarrow> unit exec"

definition GET_F32_RS1 :: "u32 \<Rightarrow> hart \<Rightarrow> u32" where "GET_F32_RS1 insn = GET_F32_REG insn 15"
definition GET_F32_RS2 :: "u32 \<Rightarrow> hart \<Rightarrow> u32" where "GET_F32_RS2 insn = GET_F32_REG insn 20"
definition GET_F32_RS3 :: "u32 \<Rightarrow> hart \<Rightarrow> u32" where "GET_F32_RS3 insn = GET_F32_REG insn 27"
definition GET_F64_RS1 :: "u32 \<Rightarrow> hart \<Rightarrow> u64" where "GET_F64_RS1 insn = GET_F64_REG insn 15"
definition GET_F64_RS2 :: "u32 \<Rightarrow> hart \<Rightarrow> u64" where "GET_F64_RS2 insn = GET_F64_REG insn 20"
definition GET_F64_RS3 :: "u32 \<Rightarrow> hart \<Rightarrow> u64" where "GET_F64_RS3 insn = GET_F64_REG insn 27"

lemmas fp_operand_defs = GET_F32_RS1_def GET_F32_RS2_def GET_F32_RS3_def GET_F64_RS1_def
  GET_F64_RS2_def GET_F64_RS3_def

text \<open>\<open>False\<close> is the early return of the macro for a reserved rounding mode.\<close>

definition SETUP_STATIC_ROUNDING :: "u32 \<Rightarrow> bool exec" where
  "SETUP_STATIC_ROUNDING insn h =
     (let tp = tp_reg h AND 0xFF in
      if insn AND 0x7000 = 0x7000 then Inr (True, h\<lparr>tp_reg := tp OR push_bit 8 tp\<rparr>)
      else if GET_RM insn > 4 then Inr (False, h\<lparr>tp_reg := tp\<rparr>)
      else Inr (True, h\<lparr>tp_reg := tp OR push_bit 13 (GET_RM insn)\<rparr>))"

subsection \<open>Arithmetic\<close>

definition emulate_any_fadd :: "softfloat \<Rightarrow> u64 \<Rightarrow> u64 \<Rightarrow> u64 \<Rightarrow> u32 \<Rightarrow> u32 \<Rightarrow> unit exec" where
  "emulate_any_fadd sf mcause mepc mstatus insn neg_b =
     (if GET_PRECISION insn = PRECISION_S then
        ebind (gets (GET_F32_RS1 insn)) (\<lambda>rs1.
        ebind (gets (\<lambda>h. GET_F32_RS2 insn h XOR neg_b)) (\<lambda>rs2.
        ebind (sf_call (f32_add sf rs1 rs2)) (SET_F32_RD insn)))
      else if GET_PRECISION insn = PRECISION_D then
        ebind (gets (GET_F64_RS1 insn)) (\<lambda>rs1.
        ebind (gets (\<lambda>h. GET_F64_RS2 insn h XOR push_bit 32 (scast neg_b))) (\<lambda>rs2.
        ebind (sf_call (f64_add sf rs1 rs2)) (SET_F64_RD insn)))
      else truly_illegal_insn mcause mepc mstatus insn)"

definition emulate_fadd :: "softfloat \<Rightarrow> emulation_func" where
  "emulate_fadd sf mcause mepc mstatus insn = emulate_any_fadd sf mcause mepc mstatus insn 0"

definition emulate_fsub :: "softfloat \<Rightarrow> emulation_func" where
  "emulate_fsub sf mcause mepc mstatus insn = emulate_any_fadd sf mcause mepc mstatus insn 0x80000000"

definition emulate_fmul :: "softfloat \<Rightarrow> emulation_func" where
  "emulate_fmul sf mcause mepc mstatus insn =
     (if GET_PRECISION insn = PRECISION_S then
        ebind (gets (GET_F32_RS1 insn)) (\<lambda>rs1.
        ebind (gets (GET_F32_RS2 insn)) (\<lambda>rs2.
        ebind (sf_call (f32_mul sf rs1 rs2)) (SET_F32_RD insn)))
      else if GET_PRECISION insn = PRECISION_D then
        ebind (gets (GET_F64_RS1 insn)) (\<lambda>rs1.
        ebind (gets (GET_F64_RS2 insn)) (\<lambda>rs2.
        ebind (sf_call (f64_mul sf rs1 rs2)) (SET_F64_RD insn)))
      else truly_illegal_insn mcause mepc mstatus insn)"

definition emulate_fdiv :: "softfloat \<Rightarrow> emulation_func" where
  "emulate_fdiv sf mcause mepc mstatus insn =
     (if GET_PRECISION insn = PRECISION_S then
        ebind (gets (GET_F32_RS1 insn)) (\<lambda>rs1.
        ebind (gets (GET_F32_RS2 insn)) (\<lambda>rs2.
        ebind (sf_call (f32_div sf rs1 rs2)) (SET_F32_RD insn)))
      else if GET_PRECISION insn = PRECISION_D then
        ebind (gets (GET_F64_RS1 insn)) (\<lambda>rs1.
        ebind (gets (GET_F64_RS2 insn)) (\<lambda>rs2.
        ebind (sf_call (f64_div sf rs1 rs2)) (SET_F64_RD insn)))
      else truly_illegal_insn mcause mepc mstatus insn)"

definition emulate_fsqrt :: "softfloat \<Rightarrow> emulation_func" where
  "emulate_fsqrt sf mcause mepc mstatus insn =
     (if drop_bit 20 insn AND 0x1f \<noteq> 0 then truly_illegal_insn mcause mepc mstatus insn
      else if GET_PRECISION insn = PRECISION_S then
        ebind (gets (GET_F32_RS1 insn)) (\<lambda>rs1.
        ebind (sf_call (f32_sqrt sf rs1)) (SET_F32_RD insn))
      else if GET_PRECISION insn = PRECISION_D then
        ebind (gets (GET_F64_RS1 insn)) (\<lambda>rs1.
        ebind (sf_call (f64_sqrt sf rs1)) (SET_F64_RD insn))
      else truly_illegal_insn mcause mepc mstatus insn)"

text \<open>The macro \<^verbatim>\<open>DO_FSGNJ\<close> at its two widths.\<close>

definition DO_FSGNJ32 :: "u32 \<Rightarrow> u32 \<Rightarrow> u32 \<Rightarrow> u32" where
  "DO_FSGNJ32 rs1 rs2 rm =
     (let rs1_sign = drop_bit 31 rs1; rs2_sign = drop_bit 31 rs2;
          rs1_sign = rs1_sign AND drop_bit 1 rm;
          rs1_sign = rs1_sign XOR (rm XOR rs2_sign)
      in drop_bit 1 (push_bit 1 rs1) OR push_bit 31 rs1_sign)"

definition DO_FSGNJ64 :: "u64 \<Rightarrow> u64 \<Rightarrow> u64 \<Rightarrow> u64" where
  "DO_FSGNJ64 rs1 rs2 rm =
     (let rs1_sign = drop_bit 63 rs1; rs2_sign = drop_bit 63 rs2;
          rs1_sign = rs1_sign AND drop_bit 1 rm;
          rs1_sign = rs1_sign XOR (rm XOR rs2_sign)
      in drop_bit 1 (push_bit 1 rs1) OR push_bit 63 rs1_sign)"

definition emulate_fsgnj :: emulation_func where
  "emulate_fsgnj mcause mepc mstatus insn =
     (let rm = GET_RM insn in
      if rm \<ge> 3 then truly_illegal_insn mcause mepc mstatus insn
      else if GET_PRECISION insn = PRECISION_S then
        ebind (gets (\<lambda>h. DO_FSGNJ32 (GET_F32_RS1 insn h) (GET_F32_RS2 insn h) rm)) (SET_F32_RD insn)
      else if GET_PRECISION insn = PRECISION_D then
        ebind (gets (\<lambda>h. DO_FSGNJ64 (GET_F64_RS1 insn h) (GET_F64_RS2 insn h) (ucast rm)))
          (SET_F64_RD insn)
      else truly_illegal_insn mcause mepc mstatus insn)"

definition emulate_fmin :: "softfloat \<Rightarrow> emulation_func" where
  "emulate_fmin sf mcause mepc mstatus insn =
     (let rm = GET_RM insn in
      if rm \<ge> 2 then truly_illegal_insn mcause mepc mstatus insn
      else if GET_PRECISION insn = PRECISION_S then
        ebind (gets (GET_F32_RS1 insn)) (\<lambda>rs1.
        ebind (gets (GET_F32_RS2 insn)) (\<lambda>rs2.
          let arg1 = if rm \<noteq> 0 then rs2 else rs1; arg2 = if rm \<noteq> 0 then rs1 else rs2 in
          ebind (sf_call (f32_lt_quiet sf arg1 arg2)) (\<lambda>lt.
            let use_rs1 = lt \<or> isNaNF32UI rs2 in
            SET_F32_RD insn (if use_rs1 then rs1 else rs2))))
      else if GET_PRECISION insn = PRECISION_D then
        ebind (gets (GET_F64_RS1 insn)) (\<lambda>rs1.
        ebind (gets (GET_F64_RS2 insn)) (\<lambda>rs2.
          let arg1 = if rm \<noteq> 0 then rs2 else rs1; arg2 = if rm \<noteq> 0 then rs1 else rs2 in
          ebind (sf_call (f64_lt_quiet sf arg1 arg2)) (\<lambda>lt.
            let use_rs1 = lt \<or> isNaNF64UI rs2 in
            SET_F64_RD insn (if use_rs1 then rs1 else rs2))))
      else truly_illegal_insn mcause mepc mstatus insn)"

subsection \<open>Conversions, comparisons and moves\<close>

definition emulate_fcvt_ff :: "softfloat \<Rightarrow> emulation_func" where
  "emulate_fcvt_ff sf mcause mepc mstatus insn =
     (let rs2_num = drop_bit 20 insn AND 0x1f in
      if GET_PRECISION insn = PRECISION_S then
        if rs2_num \<noteq> 1 then truly_illegal_insn mcause mepc mstatus insn
        else
          ebind (gets (GET_F64_RS1 insn)) (\<lambda>rs1.
          ebind (sf_call (f64_to_f32 sf rs1)) (SET_F32_RD insn))
      else if GET_PRECISION insn = PRECISION_D then
        if rs2_num \<noteq> 0 then truly_illegal_insn mcause mepc mstatus insn
        else
          ebind (gets (GET_F32_RS1 insn)) (\<lambda>rs1.
          ebind (sf_call (f32_to_f64 sf rs1)) (SET_F64_RD insn))
      else truly_illegal_insn mcause mepc mstatus insn)"

text \<open>
  The sign and the magnitude of the integer operand: \<open>None\<close> for an undefined encoding, \<open>Some None\<close>
  for the overflow of \<^verbatim>\<open>-(int32_t)uint_val\<close>.
\<close>

definition fcvt_fi_operand :: "u32 \<Rightarrow> u64 \<Rightarrow> (bool \<times> u64) option option" where
  "fcvt_fi_operand sel uint_val =
     (if sel = 0 then
        let i = ucast uint_val :: u32; negative = sint i < 0 in
        if i = 0x80000000 then Some None
        else Some (Some (negative, if negative then scast (- i) else scast i))
      else if sel = 1 then Some (Some (False, ucast (ucast uint_val :: u32)))
      else if sel = 2 then
        let negative = sint uint_val < 0 in
        Some (Some (negative, if negative then - uint_val else uint_val))
      else if sel = 3 then Some (Some (False, uint_val))
      else None)"

definition emulate_fcvt_fi :: "softfloat \<Rightarrow> emulation_func" where
  "emulate_fcvt_fi sf mcause mepc mstatus insn =
     (if GET_PRECISION insn \<noteq> PRECISION_S \<and> GET_PRECISION insn \<noteq> PRECISION_D
      then truly_illegal_insn mcause mepc mstatus insn
      else
        ebind (gets (GET_RS1 insn)) (\<lambda>rs1.
          (case fcvt_fi_operand (drop_bit 20 insn AND 0x1f) rs1 of
             None \<Rightarrow> truly_illegal_insn mcause mepc mstatus insn
           | Some None \<Rightarrow> undefined_behaviour
           | Some (Some (negative, uint_val)) \<Rightarrow>
               ebind (sf_call (ui64_to_f64 sf uint_val)) (\<lambda>f.
                 let float64 = if negative then f XOR 0x8000000000000000 else f in
                 if GET_PRECISION insn = PRECISION_S
                 then ebind (sf_call (f64_to_f32 sf float64)) (SET_F32_RD insn)
                 else SET_F64_RD insn float64))))"

text \<open>The result, the limit and the result beyond the limit, from the \<^verbatim>\<open>switch\<close>.\<close>

definition fcvt_if_limits :: "u32 \<Rightarrow> bool \<Rightarrow> u64 \<Rightarrow> u64 \<times> u64 \<times> u64" where
  "fcvt_if_limits rs2_num negative uint_val =
     (if rs2_num = 0 then
        if negative then (scast (ucast (- uint_val) :: u32), 0x80000000, 0x80000000)
        else (scast (ucast uint_val :: u32), 0x7FFFFFFF, 0x7FFFFFFF)
      else if rs2_num = 1 then
        if negative then (0, 0, 0xFFFFFFFF)
        else (ucast (ucast uint_val :: u32), 0xFFFFFFFF, 0xFFFFFFFF)
      else if rs2_num = 2 then
        if negative then (- uint_val, 0x8000000000000000, 0x8000000000000000)
        else (uint_val, 0x7FFFFFFFFFFFFFFF, 0x7FFFFFFFFFFFFFFF)
      else
        if negative then (0, 0, 0xFFFFFFFFFFFFFFFF)
        else (uint_val, 0xFFFFFFFFFFFFFFFF, 0xFFFFFFFFFFFFFFFF))"

definition fcvt_if_finish :: "softfloat \<Rightarrow> u32 \<Rightarrow> u32 \<Rightarrow> u64 \<Rightarrow> unit exec" where
  "fcvt_if_finish sf insn rs2_num float64 =
     (let negative = sint float64 < 0;
          mag = if negative then float64 XOR 0x8000000000000000 else float64 in
      ebind (gets softfloat_roundingMode) (\<lambda>rm.
      ebind (sf_call (f64_to_ui64 sf mag rm)) (\<lambda>uint_val.
        (case fcvt_if_limits rs2_num negative uint_val of
           (result, limit, limit_result) \<Rightarrow>
             ebind
               (if uint_val > limit
                then ebind (softfloat_raiseFlags softfloat_flag_invalid) (\<lambda>_. ret limit_result)
                else ret result)
               (\<lambda>r. ebind SET_FS_DIRTY (\<lambda>_. SET_RD insn r))))))"

definition emulate_fcvt_if :: "softfloat \<Rightarrow> emulation_func" where
  "emulate_fcvt_if sf mcause mepc mstatus insn =
     (let rs2_num = drop_bit 20 insn AND 0x1f in
      if rs2_num \<ge> 4 then truly_illegal_insn mcause mepc mstatus insn
      else if GET_PRECISION insn = PRECISION_S then
        ebind (gets (GET_F32_RS1 insn)) (\<lambda>rs1.
        ebind (sf_call (f32_to_f64 sf rs1)) (fcvt_if_finish sf insn rs2_num))
      else if GET_PRECISION insn = PRECISION_D then
        ebind (gets (GET_F64_RS1 insn)) (fcvt_if_finish sf insn rs2_num)
      else truly_illegal_insn mcause mepc mstatus insn)"

text \<open>The calls of \<^verbatim>\<open>f32_eq\<close> and \<^verbatim>\<open>f32_lt\<close> (or their 64-bit forms) for one value of \<^verbatim>\<open>rm\<close>.\<close>

definition fcmp_calls :: "u32 \<Rightarrow> (u32 \<Rightarrow> bool \<times> u32) \<Rightarrow> (u32 \<Rightarrow> bool \<times> u32) \<Rightarrow> bool exec" where
  "fcmp_calls rm eq lt =
     ebind (if rm \<noteq> 1 then sf_call eq else ret False) (\<lambda>result.
       if rm = 1 \<or> rm = 0 \<and> \<not> result then sf_call lt else ret result)"

definition emulate_fcmp :: "softfloat \<Rightarrow> emulation_func" where
  "emulate_fcmp sf mcause mepc mstatus insn =
     (let rm = GET_RM insn in
      if rm \<ge> 3 then truly_illegal_insn mcause mepc mstatus insn
      else if GET_PRECISION insn = PRECISION_S then
        ebind (gets (GET_F32_RS1 insn)) (\<lambda>rs1.
        ebind (gets (GET_F32_RS2 insn)) (\<lambda>rs2.
        ebind (fcmp_calls rm (f32_eq sf rs1 rs2) (f32_lt sf rs1 rs2)) (\<lambda>result.
          SET_RD insn (of_bool result))))
      else if GET_PRECISION insn = PRECISION_D then
        ebind (gets (GET_F64_RS1 insn)) (\<lambda>rs1.
        ebind (gets (GET_F64_RS2 insn)) (\<lambda>rs2.
        ebind (fcmp_calls rm (f64_eq sf rs1 rs2) (f64_lt sf rs1 rs2)) (\<lambda>result.
          SET_RD insn (of_bool result))))
      else truly_illegal_insn mcause mepc mstatus insn)"

definition emulate_fmv_if :: emulation_func where
  "emulate_fmv_if mcause mepc mstatus insn =
     (if insn AND 0xfff0707f = 0xe0000053 then
        ebind (gets (GET_F32_RS1 insn)) (\<lambda>v. SET_RD insn (scast v))
      else if insn AND 0xfff0707f = 0xe2000053 then
        ebind (gets (GET_F64_RS1 insn)) (SET_RD insn)
      else truly_illegal_insn mcause mepc mstatus insn)"

definition emulate_fmv_fi :: emulation_func where
  "emulate_fmv_fi mcause mepc mstatus insn =
     ebind (gets (GET_RS1 insn)) (\<lambda>rs1.
       if insn AND 0xfff0707f = 0xf0000053 then SET_F32_RD insn (ucast rs1)
       else if insn AND 0xfff0707f = 0xf2000053 then SET_F64_RD insn rs1
       else truly_illegal_insn mcause mepc mstatus insn)"

definition emulate_fmadd :: "softfloat \<Rightarrow> emulation_func" where
  "emulate_fmadd sf mcause mepc mstatus insn =
     (if mstatus AND MSTATUS_FS = 0 then truly_illegal_insn mcause mepc mstatus insn
      else
        (let op = drop_bit 2 insn AND 3 in
         ebind (SETUP_STATIC_ROUNDING insn) (\<lambda>ok.
           if \<not> ok then truly_illegal_insn mcause mepc mstatus insn
           else if GET_PRECISION insn = PRECISION_S then
             ebind (gets (GET_F32_RS1 insn)) (\<lambda>rs1.
             ebind (gets (GET_F32_RS2 insn)) (\<lambda>rs2.
             ebind (gets (GET_F32_RS3 insn)) (\<lambda>rs3.
             ebind (sf_call (mulAddF32 sf op rs1 rs2 rs3)) (SET_F32_RD insn))))
           else if GET_PRECISION insn = PRECISION_D then
             ebind (gets (GET_F64_RS1 insn)) (\<lambda>rs1.
             ebind (gets (GET_F64_RS2 insn)) (\<lambda>rs2.
             ebind (gets (GET_F64_RS3 insn)) (\<lambda>rs3.
             ebind (sf_call (mulAddF64 sf op rs1 rs2 rs3)) (SET_F64_RD insn))))
           else truly_illegal_insn mcause mepc mstatus insn)))"

subsection \<open>Loads and stores\<close>

definition emulate_float_load :: emulation_func where
  "emulate_float_load mcause mepc mstatus insn =
     ebind (gets (\<lambda>h. GET_RS1 insn h + scast (IMM_I insn))) (\<lambda>addr.
       if insn AND 0x7000 = 0x2000 then
         if addr mod 4 \<noteq> 0 then misaligned_load_trap mcause mepc
         else ebind (load_int32_t addr mepc) (SET_F32_RD insn)
       else if insn AND 0x7000 = 0x3000 then
         if addr mod 8 \<noteq> 0 then misaligned_load_trap mcause mepc
         else ebind (load_uint64_t addr mepc) (SET_F64_RD insn)
       else truly_illegal_insn mcause mepc mstatus insn)"

definition emulate_float_store :: emulation_func where
  "emulate_float_store mcause mepc mstatus insn =
     ebind (gets (\<lambda>h. GET_RS1 insn h + scast (IMM_S insn))) (\<lambda>addr.
       if insn AND 0x7000 = 0x2000 then
         if addr mod 4 \<noteq> 0 then misaligned_store_trap mcause mepc
         else ebind (gets (GET_F32_RS2 insn)) (\<lambda>v. store_uint32_t addr v mepc)
       else if insn AND 0x7000 = 0x3000 then
         if addr mod 8 \<noteq> 0 then misaligned_store_trap mcause mepc
         else ebind (gets (GET_F64_RS2 insn)) (\<lambda>v. store_uint64_t addr v mepc)
       else truly_illegal_insn mcause mepc mstatus insn)"

subsection \<open>Dispatch\<close>

definition fp_emulation_table :: "softfloat \<Rightarrow> emulation_func list" where
  "fp_emulation_table sf =
     [emulate_fadd sf, emulate_fsub sf, emulate_fmul sf, emulate_fdiv sf,
      emulate_fsgnj, emulate_fmin sf, truly_illegal_insn, truly_illegal_insn,
      emulate_fcvt_ff sf, truly_illegal_insn, truly_illegal_insn, emulate_fsqrt sf,
      truly_illegal_insn, truly_illegal_insn, truly_illegal_insn, truly_illegal_insn,
      truly_illegal_insn, truly_illegal_insn, truly_illegal_insn, truly_illegal_insn,
      emulate_fcmp sf, truly_illegal_insn, truly_illegal_insn, truly_illegal_insn,
      emulate_fcvt_if sf, truly_illegal_insn, emulate_fcvt_fi sf, truly_illegal_insn,
      emulate_fmv_if, truly_illegal_insn, emulate_fmv_fi, truly_illegal_insn]"

definition emulate_fp :: "softfloat \<Rightarrow> emulation_func" where
  "emulate_fp sf mcause mepc mstatus insn =
     (if mstatus AND MSTATUS_FS = 0 then truly_illegal_insn mcause mepc mstatus insn
      else
        (let f = fp_emulation_table sf ! (unat (drop_bit 25 insn AND 0x7c) div 4) in
         ebind (SETUP_STATIC_ROUNDING insn) (\<lambda>ok.
           if \<not> ok then truly_illegal_insn mcause mepc mstatus insn
           else f mcause mepc mstatus insn)))"

definition illegal_insn_trap_table :: "softfloat \<Rightarrow> emulation_func list" where
  "illegal_insn_trap_table sf =
     [truly_illegal_insn, emulate_float_load, truly_illegal_insn, truly_illegal_insn,
      truly_illegal_insn, truly_illegal_insn, truly_illegal_insn, truly_illegal_insn,
      truly_illegal_insn, emulate_float_store, truly_illegal_insn, truly_illegal_insn,
      emulate_mul_div, truly_illegal_insn, emulate_mul_div32, truly_illegal_insn,
      emulate_fmadd sf, emulate_fmadd sf, emulate_fmadd sf, emulate_fmadd sf,
      emulate_fp sf, truly_illegal_insn, truly_illegal_insn, truly_illegal_insn,
      truly_illegal_insn, truly_illegal_insn, truly_illegal_insn, truly_illegal_insn,
      emulate_system_opcode, truly_illegal_insn, truly_illegal_insn, truly_illegal_insn]"

definition illegal_insn_trap :: "softfloat \<Rightarrow> u64 \<Rightarrow> u64 \<Rightarrow> unit exec" where
  "illegal_insn_trap sf mcause mepc =
     ebind (get_insn mepc) (\<lambda>(insn, mstatus).
       if insn AND 3 \<noteq> 3 then truly_illegal_insn mcause mepc mstatus insn
       else
         ebind (write_mepc (mepc + 4)) (\<lambda>_.
           (illegal_insn_trap_table sf ! (unat (insn AND 0x7c) div 4)) mcause mepc mstatus insn))"

subsection \<open>Precise traps\<close>

text \<open>
  The contract of a handler that emulates the instruction at \<open>mepc\<close>: when it gives up, the supervisor
  is entered for that instruction with the integer and float registers as they were; when it returns,
  the program counter is the old one or the next instruction's; it never powers the machine off.
\<close>

definition keeps :: "u64 \<Rightarrow> hart \<Rightarrow> hart \<Rightarrow> bool" where
  "keeps mepc h h' \<longleftrightarrow>
     (csr_mepc h' = csr_mepc h \<or> csr_mepc h' = mepc + 4) \<and> csr_stvec h' = csr_stvec h \<and>
     length (x_regs h') = length (x_regs h) \<and> length (f_regs h') = length (f_regs h)"

definition precise :: "u64 \<Rightarrow> 'a exec \<Rightarrow> bool" where
  "precise mepc m \<longleftrightarrow>
     (\<forall>h. case m h of
        Inr (a, h') \<Rightarrow> keeps mepc h h'
      | Inl (Redirect h') \<Rightarrow>
          csr_sepc h' = mepc \<and> csr_mepc h' = csr_stvec h \<and> x_regs h' = x_regs h \<and> f_regs h' = f_regs h
      | Inl (Die h') \<Rightarrow> False
      | Inl Undefined \<Rightarrow> True)"

text \<open>A part of a handler that leaves the register file alone, and one that always returns.\<close>

definition quiet :: "'a exec \<Rightarrow> bool" where
  "quiet m \<longleftrightarrow> (\<forall>h a h'. m h = Inr (a, h') \<longrightarrow> x_regs h' = x_regs h \<and> f_regs h' = f_regs h)"

definition returns :: "'a exec \<Rightarrow> bool" where
  "returns m \<longleftrightarrow> (\<forall>h. \<exists>a h'. m h = Inr (a, h'))"

named_theorems precise_intros \<open>building blocks of precise handlers\<close>

lemma keeps_refl [simp]: "keeps mepc h h"
  by (simp add: keeps_def)

lemma keeps_trans: "keeps mepc h h' \<Longrightarrow> keeps mepc h' h'' \<Longrightarrow> keeps mepc h h''"
  by (auto simp: keeps_def)

lemma preciseD:
  assumes "precise mepc m"
  shows "m h = Inr (a, h') \<Longrightarrow> keeps mepc h h'"
    "m h = Inl (Redirect h') \<Longrightarrow>
      csr_sepc h' = mepc \<and> csr_mepc h' = csr_stvec h \<and> x_regs h' = x_regs h \<and> f_regs h' = f_regs h"
    "m h \<noteq> Inl (Die h')"
  using assms unfolding precise_def by (auto dest!: spec [of _ h])

lemma preciseI:
  assumes "\<And>h a h'. m h = Inr (a, h') \<Longrightarrow> keeps mepc h h'"
    "\<And>h h'. m h = Inl (Redirect h') \<Longrightarrow>
      csr_sepc h' = mepc \<and> csr_mepc h' = csr_stvec h \<and> x_regs h' = x_regs h \<and> f_regs h' = f_regs h"
    "\<And>h h'. m h \<noteq> Inl (Die h')"
  shows "precise mepc m"
  using assms unfolding precise_def by (auto split: sum.split exit.split)

lemma ebind_cases:
  obtains e where "m h = Inl e" "ebind m f h = Inl e"
  | a h' where "m h = Inr (a, h')" "ebind m f h = f a h'"
  by (cases "m h") (auto simp: ebind_def split: prod.splits)

lemma ebind_keeps:
  assumes "precise mepc m" "\<And>a. precise mepc (f a)" "ebind m f h = Inr (a, h')"
  shows "keeps mepc h h'"
proof (cases rule: ebind_cases [of m h f])
  case (2 a' h1)
  then have "keeps mepc h h1" "f a' h1 = Inr (a, h')" using preciseD(1) [OF assms(1)] assms(3) by auto
  then show ?thesis using preciseD(1) [OF assms(2)] keeps_trans by blast
qed (use assms in simp)

lemma ebind_not_Die:
  assumes "precise mepc m" "\<And>a. precise mepc (f a)"
  shows "ebind m f h \<noteq> Inl (Die h')"
  by (cases rule: ebind_cases [of m h f])
    (use preciseD(3) [OF assms(1), of h h'] preciseD(3) [OF assms(2)] in auto)

lemma precise_bind:
  assumes "precise mepc m" "quiet m" "\<And>a. precise mepc (f a)"
  shows "precise mepc (ebind m f)"
proof (rule preciseI)
  fix h h'
  assume r: "ebind m f h = Inl (Redirect h')"
  show "csr_sepc h' = mepc \<and> csr_mepc h' = csr_stvec h \<and> x_regs h' = x_regs h \<and> f_regs h' = f_regs h"
  proof (cases rule: ebind_cases [of m h f])
    case 1
    then show ?thesis using r preciseD(2) [OF assms(1)] by simp
  next
    case (2 a h1)
    then have "keeps mepc h h1" "x_regs h1 = x_regs h" "f_regs h1 = f_regs h"
      using preciseD(1) [OF assms(1)] assms(2) by (auto simp: quiet_def)
    then show ?thesis using 2 r preciseD(2) [OF assms(3)] by (auto simp: keeps_def)
  qed
qed (rule ebind_keeps [OF assms(1,3)] ebind_not_Die [OF assms(1,3)]; assumption?)+

lemma precise_bind_returns:
  assumes "precise mepc m" "\<And>a. precise mepc (f a)" "\<And>a. returns (f a)"
  shows "precise mepc (ebind m f)"
proof (rule preciseI)
  fix h h'
  assume "ebind m f h = Inl (Redirect h')"
  then have "m h = Inl (Redirect h')"
    using assms(3) by (cases rule: ebind_cases [of m h f]) (auto simp: returns_def, metis sum.distinct(1))
  then show "csr_sepc h' = mepc \<and> csr_mepc h' = csr_stvec h \<and> x_regs h' = x_regs h \<and> f_regs h' = f_regs h"
    using preciseD(2) [OF assms(1)] by simp
qed (rule ebind_keeps [OF assms(1,2)] ebind_not_Die [OF assms(1,2)]; assumption?)+

lemma quiet_bind: "quiet m \<Longrightarrow> (\<And>a. quiet (f a)) \<Longrightarrow> quiet (ebind m f)"
  by (auto simp: quiet_def ebind_def split: sum.splits prod.splits)

lemma returns_bind: "returns m \<Longrightarrow> (\<And>a. returns (f a)) \<Longrightarrow> returns (ebind m f)"
  unfolding returns_def by (metis ebind_Inr)

lemma precise_basic [precise_intros]:
  "precise mepc (ret a)" "precise mepc (gets g)" "precise mepc (sf_call c)"
  "precise mepc undefined_behaviour" "precise mepc (redirect_trap mepc mstatus)"
  "precise mepc (truly_illegal_insn mcause mepc mstatus insn)"
  "precise mepc (SET_RD insn v)" "precise mepc (write_mepc (mepc + 4))" "precise mepc SET_FS_DIRTY"
  "precise mepc (SET_FCSR v)" "precise mepc (SET_FRM v)" "precise mepc (SET_FFLAGS v)"
  "precise mepc (softfloat_raiseFlags w)" "precise mepc (SETUP_STATIC_ROUNDING insn)"
  by (auto simp: precise_def keeps_def exec_simps sf_call_def redirect_trap_def truly_illegal_insn_def
      SET_RD_def write_mepc_def SET_FS_DIRTY_def SET_FCSR_def SET_FRM_def SET_FFLAGS_def
      softfloat_raiseFlags_def SETUP_STATIC_ROUNDING_def Let_def split: prod.split)

lemma quiet_basic [precise_intros]:
  "quiet (ret a)" "quiet (gets g)" "quiet (sf_call c)" "quiet (SETUP_STATIC_ROUNDING insn)"
  "quiet (SET_FCSR v)" "quiet (SET_FRM v)" "quiet (SET_FFLAGS v)" "quiet (softfloat_raiseFlags w)"
  "quiet SET_FS_DIRTY" "quiet (write_mepc v')"
  by (auto simp: quiet_def exec_simps sf_call_def SETUP_STATIC_ROUNDING_def Let_def SET_FCSR_def
      SET_FRM_def SET_FFLAGS_def softfloat_raiseFlags_def SET_FS_DIRTY_def write_mepc_def
      split: prod.splits if_splits)

lemma returns_basic [precise_intros]:
  "returns (ret a)" "returns (SET_RD insn v)" "returns SET_FS_DIRTY" "returns (write_mepc v')"
  by (auto simp: returns_def exec_simps SET_RD_def SET_FS_DIRTY_def write_mepc_def)

lemma precise_set_float [precise_intros]:
  "precise mepc (SET_F32_RD insn v)" "precise mepc (SET_F64_RD insn w)"
  by (auto simp: precise_def keeps_def exec_simps SET_F32_RD_def SET_F64_RD_def SET_F32_REG_def
      SET_F64_REG_def SET_FS_DIRTY_def)

lemma page_faults [simp]:
  "unprivileged_fault CAUSE_FAULT_LOAD addr mepc h = Inl (Redirect (fault_state CAUSE_FAULT_LOAD addr mepc h))"
  "unprivileged_fault CAUSE_FAULT_STORE addr mepc h = Inl (Redirect (fault_state CAUSE_FAULT_STORE addr mepc h))"
  by (simp_all add: unprivileged_fault_page)

lemma precise_load_bytes [precise_intros]:
  assumes "unat addr mod n = 0"
  shows "precise mepc (load_bytes n addr mepc)" "quiet (load_bytes n addr mepc)"
  using assms
  by (auto simp: precise_def quiet_def load_bytes_def fault_state_def mod_eq_0_iff_dvd split: option.splits)

lemma precise_store_bytes [precise_intros]:
  assumes "unat addr mod length bs = 0"
  shows "precise mepc (store_bytes addr bs mepc)" "quiet (store_bytes addr bs mepc)"
  using assms
  by (auto simp: precise_def quiet_def store_bytes_def uwrite_def keeps_def fault_state_def
      mod_eq_0_iff_dvd split: if_splits)

lemma precise_bytes [precise_intros]:
  "precise mepc (load_uint8_t a mepc)" "quiet (load_uint8_t a mepc)"
  "precise mepc (store_uint8_t a b mepc)" "quiet (store_uint8_t a b mepc)"
  unfolding load_uint8_t_def store_uint8_t_def
  by (intro precise_bind quiet_bind precise_intros; simp)+

lemma precise_load_loop [precise_intros]:
  "precise mepc (load_loop n a mepc bytes)" "quiet (load_loop n a mepc bytes)"
proof (induction n arbitrary: bytes)
  case 0
  { case 1 show ?case by (simp add: precise_intros) }
  { case 2 show ?case by (simp add: precise_intros) }
next
  case (Suc n)
  { case 1 show ?case by (simp add: precise_bind precise_bytes Suc.IH) }
  { case 2 show ?case by (simp add: quiet_bind precise_bytes Suc.IH) }
qed

lemma precise_store_loop [precise_intros]:
  "precise mepc (store_loop i a bytes mepc)" "quiet (store_loop i a bytes mepc)"
proof (induction bytes arbitrary: i)
  case Nil
  { case 1 show ?case by (simp add: precise_intros) }
  { case 2 show ?case by (simp add: precise_intros) }
next
  case (Cons b bytes)
  { case 1 show ?case by (simp add: precise_bind precise_bytes Cons.IH) }
  { case 2 show ?case by (simp add: quiet_bind precise_bytes Cons.IH) }
qed

lemma unat_aligned: "(addr :: u64) mod 4 = 0 \<Longrightarrow> unat addr mod 4 = 0" "addr mod 8 = 0 \<Longrightarrow> unat addr mod 8 = 0"
  using unat_mod_distrib [of addr 4] unat_mod_distrib [of addr 8] by simp_all

lemma precise_aligned [precise_intros]:
  "addr mod 4 = 0 \<Longrightarrow> precise mepc (load_int32_t addr mepc)"
  "addr mod 4 = 0 \<Longrightarrow> quiet (load_int32_t addr mepc)"
  "addr mod 8 = 0 \<Longrightarrow> precise mepc (load_uint64_t addr mepc)"
  "addr mod 8 = 0 \<Longrightarrow> quiet (load_uint64_t addr mepc)"
  "addr mod 4 = 0 \<Longrightarrow> precise mepc (store_uint32_t addr v mepc)"
  "addr mod 8 = 0 \<Longrightarrow> precise mepc (store_uint64_t addr w mepc)"
  unfolding load_int32_t_def load_uint64_t_def store_uint32_t_def store_uint64_t_def
  by (simp_all only: precise_bind quiet_bind precise_load_bytes precise_store_bytes precise_basic
      quiet_basic unat_aligned length_le_bytes)

lemma precise_split [precise_intros]:
  "(c \<Longrightarrow> precise mepc m) \<Longrightarrow> (\<not> c \<Longrightarrow> precise mepc m') \<Longrightarrow> precise mepc (if c then m else m')"
  "(c \<Longrightarrow> quiet m) \<Longrightarrow> (\<not> c \<Longrightarrow> quiet m') \<Longrightarrow> quiet (if c then m else m')"
  by auto

text \<open>The contract as an interface, with what the dispatcher gets from it.\<close>

locale precise_handler =
  fixes f :: emulation_func
  assumes precise: "unat mepc mod 4 = 0 \<Longrightarrow> precise mepc (f mcause mepc mstatus insn)"
begin

lemma redirect_keeps_registers:
  "unat mepc mod 4 = 0 \<Longrightarrow> f mcause mepc mstatus insn h = Inl (Redirect h') \<Longrightarrow>
     csr_sepc h' = mepc \<and> csr_mepc h' = csr_stvec h \<and> x_regs h' = x_regs h \<and> f_regs h' = f_regs h"
  using preciseD(2) [OF precise] .

lemma returns_to_next:
  "unat mepc mod 4 = 0 \<Longrightarrow> csr_mepc h = mepc + 4 \<Longrightarrow> f mcause mepc mstatus insn h = Inr (u, h') \<Longrightarrow>
     csr_mepc h' = mepc + 4"
  using preciseD(1) [OF precise, of mepc mcause mstatus insn h u h'] by (auto simp: keeps_def)

end

lemmas precise_simps = precise_bind quiet_bind precise_intros

interpretation ill: precise_handler truly_illegal_insn
  by unfold_locales (simp add: precise_basic)

interpretation fadd: precise_handler "emulate_fadd sf"
  by unfold_locales (simp add: emulate_fadd_def emulate_any_fadd_def precise_simps)

interpretation fsub: precise_handler "emulate_fsub sf"
  by unfold_locales (simp add: emulate_fsub_def emulate_any_fadd_def precise_simps)

interpretation fmul: precise_handler "emulate_fmul sf"
  by unfold_locales (simp add: emulate_fmul_def precise_simps)

interpretation fdiv: precise_handler "emulate_fdiv sf"
  by unfold_locales (simp add: emulate_fdiv_def precise_simps)

interpretation fsqrt: precise_handler "emulate_fsqrt sf"
  by unfold_locales (simp add: emulate_fsqrt_def precise_simps)

interpretation fsgnj: precise_handler emulate_fsgnj
  by unfold_locales (simp add: emulate_fsgnj_def Let_def precise_simps)

interpretation fmin: precise_handler "emulate_fmin sf"
  by unfold_locales (simp add: emulate_fmin_def Let_def precise_simps)

interpretation fcvt_ff: precise_handler "emulate_fcvt_ff sf"
  by unfold_locales (simp add: emulate_fcvt_ff_def Let_def precise_simps)

interpretation fcvt_fi: precise_handler "emulate_fcvt_fi sf"
  by unfold_locales
    (simp add: emulate_fcvt_fi_def Let_def precise_simps split: option.split prod.split)

lemma precise_fcvt_if_finish [precise_intros]: "precise mepc (fcvt_if_finish sf insn n v)"
  by (simp add: fcvt_if_finish_def Let_def precise_simps split: prod.split)

interpretation fcvt_if: precise_handler "emulate_fcvt_if sf"
  by unfold_locales
    (simp add: emulate_fcvt_if_def Let_def precise_simps precise_fcvt_if_finish)

lemma precise_fcmp_calls [precise_intros]: "precise mepc (fcmp_calls rm eq lt)" "quiet (fcmp_calls rm eq lt)"
  by (simp_all add: fcmp_calls_def precise_simps)

interpretation fcmp: precise_handler "emulate_fcmp sf"
  by unfold_locales (simp add: emulate_fcmp_def Let_def precise_simps precise_fcmp_calls)

interpretation fmv_if: precise_handler emulate_fmv_if
  by unfold_locales (simp add: emulate_fmv_if_def precise_simps)

interpretation fmv_fi: precise_handler emulate_fmv_fi
  by unfold_locales (simp add: emulate_fmv_fi_def precise_simps)

interpretation fmadd: precise_handler "emulate_fmadd sf"
  by unfold_locales (simp add: emulate_fmadd_def Let_def precise_simps)

interpretation mul_div: precise_handler emulate_mul_div
  by unfold_locales (simp add: emulate_mul_div_def precise_simps split: option.split)

interpretation mul_div32: precise_handler emulate_mul_div32
  by unfold_locales (simp add: emulate_mul_div32_def precise_simps split: option.split)

interpretation system: precise_handler emulate_system_opcode
  by unfold_locales
    (simp add: emulate_system_opcode_def emulate_write_csr_def Let_def precise_simps
      split: option.split prod.split)

lemma precise_get_insn [precise_intros]:
  assumes "unat mepc mod 4 = 0"
  shows "precise mepc (get_insn mepc)" "quiet (get_insn mepc)"
proof -
  have "get_insn mepc = ebind (load_bytes 4 mepc mepc) (\<lambda>bs. gets (\<lambda>h. (ucast (le_word bs), csr_mstatus h)))"
    unfolding get_insn_def gets_def ..
  then show "precise mepc (get_insn mepc)" "quiet (get_insn mepc)"
    using assms by (simp_all only: precise_bind quiet_bind precise_load_bytes precise_basic quiet_basic)
qed

lemma precise_then_mepc: "precise mepc m \<Longrightarrow> precise mepc (ebind m (\<lambda>_. write_mepc (mepc + 4)))"
  by (rule precise_bind_returns) (simp_all only: precise_basic returns_basic)

lemma precise_misaligned [precise_intros]:
  assumes "unat mepc mod 4 = 0"
  shows "precise mepc (misaligned_load_trap mcause mepc)" "precise mepc (misaligned_store_trap mcause mepc)"
  unfolding misaligned_load_trap_def misaligned_store_trap_def
  using precise_get_insn [OF assms]
  by (simp_all add: Let_def precise_then_mepc precise_simps split: option.split prod.split)

interpretation float_load: precise_handler emulate_float_load
  by unfold_locales (simp add: emulate_float_load_def precise_simps precise_misaligned)

interpretation float_store: precise_handler emulate_float_store
  by unfold_locales (simp add: emulate_float_store_def precise_simps precise_misaligned)

lemma table_index: "unat (x AND 0x7c :: u32) div 4 < 32"
proof -
  have "unat (x AND 0x7c) \<le> unat (0x7c :: u32)" by (metis word_and_le1 word_le_nat_alt)
  then show ?thesis by simp
qed

lemma table_lengths: "length (fp_emulation_table sf) = 32" "length (illegal_insn_trap_table sf) = 32"
  by (simp_all add: fp_emulation_table_def illegal_insn_trap_table_def)

lemma fp_emulation_table_precise: "g \<in> set (fp_emulation_table sf) \<Longrightarrow> precise_handler g"
  unfolding fp_emulation_table_def
  using ill.precise_handler_axioms fadd.precise_handler_axioms fsub.precise_handler_axioms
    fmul.precise_handler_axioms fdiv.precise_handler_axioms fsgnj.precise_handler_axioms
    fmin.precise_handler_axioms fcvt_ff.precise_handler_axioms fsqrt.precise_handler_axioms
    fcmp.precise_handler_axioms fcvt_if.precise_handler_axioms fcvt_fi.precise_handler_axioms
    fmv_if.precise_handler_axioms fmv_fi.precise_handler_axioms
  by auto

interpretation fp: precise_handler "emulate_fp sf"
proof
  fix mepc mcause mstatus :: u64 and insn :: u32
  assume al: "unat mepc mod 4 = 0"
  let ?g = "fp_emulation_table sf ! (unat (drop_bit 25 insn AND 0x7c) div 4)"
  have "?g \<in> set (fp_emulation_table sf)"
    using table_index [of "drop_bit 25 insn"] by (intro nth_mem) (simp only: table_lengths)
  then have "precise mepc (?g mcause mepc mstatus insn)"
    by (rule precise_handler.precise [OF fp_emulation_table_precise al])
  then show "precise mepc (emulate_fp sf mcause mepc mstatus insn)"
    by (simp add: emulate_fp_def Let_def precise_simps)
qed

lemma illegal_insn_trap_table_precise: "g \<in> set (illegal_insn_trap_table sf) \<Longrightarrow> precise_handler g"
  unfolding illegal_insn_trap_table_def
  using ill.precise_handler_axioms fp.precise_handler_axioms fmadd.precise_handler_axioms
    mul_div.precise_handler_axioms mul_div32.precise_handler_axioms system.precise_handler_axioms
    float_load.precise_handler_axioms float_store.precise_handler_axioms
  by auto

subsection \<open>Properties\<close>


text \<open>A trivial floating-point library, for the witnesses.\<close>

definition sf_trivial :: softfloat where
  "sf_trivial =
     \<lparr>f32_add = (\<lambda>a b tp. (a, tp)), f64_add = (\<lambda>a b tp. (a, tp)), f32_mul = (\<lambda>a b tp. (a, tp)),
      f64_mul = (\<lambda>a b tp. (a, tp)), f32_div = (\<lambda>a b tp. (a, tp)), f64_div = (\<lambda>a b tp. (a, tp)),
      f32_sqrt = (\<lambda>a tp. (a, tp)), f64_sqrt = (\<lambda>a tp. (a, tp)),
      f32_lt_quiet = (\<lambda>a b tp. (\<not> isNaNF32UI a \<and> \<not> isNaNF32UI b \<and> a < b, tp)),
      f64_lt_quiet = (\<lambda>a b tp. (\<not> isNaNF64UI a \<and> \<not> isNaNF64UI b \<and> a < b, tp)),
      f32_eq = (\<lambda>a b tp. (a = b, tp)), f64_eq = (\<lambda>a b tp. (a = b, tp)),
      f32_lt = (\<lambda>a b tp. (a < b, tp)), f64_lt = (\<lambda>a b tp. (a < b, tp)),
      f64_to_f32 = (\<lambda>a tp. (ucast a, tp)), f32_to_f64 = (\<lambda>a tp. (ucast a, tp)),
      ui64_to_f64 = (\<lambda>a tp. (a, tp)), f64_to_ui64 = (\<lambda>a rm tp. (a, tp)),
      mulAddF32 = (\<lambda>op a b c tp. (a, tp)), mulAddF64 = (\<lambda>op a b c tp. (a, tp))\<rparr>"


lemma bit_fsgnj32:
  "n < 31 \<Longrightarrow> bit (DO_FSGNJ32 a b rm) n \<longleftrightarrow> bit a n"
  "bit (DO_FSGNJ32 a b rm) 31 \<longleftrightarrow> ((bit a 31 \<and> bit rm 1) \<noteq> (bit rm 0 \<noteq> bit b 31))"
  by (auto simp: DO_FSGNJ32_def Let_def bit_simps simp del: drop_bit_Suc push_bit_Suc)

lemma bit_fsgnj64:
  "n < 63 \<Longrightarrow> bit (DO_FSGNJ64 a b rm) n \<longleftrightarrow> bit a n"
  "bit (DO_FSGNJ64 a b rm) 63 \<longleftrightarrow> ((bit a 63 \<and> bit rm 1) \<noteq> (bit rm 0 \<noteq> bit b 63))"
  by (auto simp: DO_FSGNJ64_def Let_def bit_simps simp del: drop_bit_Suc push_bit_Suc)

text \<open>
  \<^verbatim>\<open>fsgnj\<close>, \<^verbatim>\<open>fsgnjn\<close> and \<^verbatim>\<open>fsgnjx\<close> in both precisions: the magnitude is that
  of the first operand, and the sign is the second operand's, its complement, or the product of both
  signs.
\<close>

theorem fsgnj_correct:
  "(\<forall>rm \<in> {0, 1, 2}. take_bit 31 (DO_FSGNJ32 a b rm) = take_bit 31 a \<and>
     (bit (DO_FSGNJ32 a b rm) 31 \<longleftrightarrow>
       (if rm = 0 then bit b 31 else if rm = 1 then \<not> bit b 31 else bit a 31 \<noteq> bit b 31))) \<and>
   (\<forall>rm \<in> {0, 1, 2}. take_bit 63 (DO_FSGNJ64 c d rm) = take_bit 63 c \<and>
     (bit (DO_FSGNJ64 c d rm) 63 \<longleftrightarrow>
       (if rm = 0 then bit d 63 else if rm = 1 then \<not> bit d 63 else bit c 63 \<noteq> bit d 63)))"
proof -
  have "take_bit 31 (DO_FSGNJ32 a b rm) = take_bit 31 a" for rm
    by (rule bit_eqI) (auto simp: bit_take_bit_iff bit_fsgnj32)
  moreover have "take_bit 63 (DO_FSGNJ64 c d rm) = take_bit 63 c" for rm
    by (rule bit_eqI) (auto simp: bit_take_bit_iff bit_fsgnj64)
  moreover have "bit (2 :: u32) 1" "\<not> bit (2 :: u32) 0" "bit (2 :: u64) 1" "\<not> bit (2 :: u64) 0"
    by (simp_all add: bit_numeral_rec)
  ultimately show ?thesis by (simp add: bit_fsgnj32 bit_fsgnj64)
qed

theorem fsgnj_correct_witness:
  "bit (DO_FSGNJ32 0x3f800000 0x80000000 0) 31 \<and> bit (DO_FSGNJ64 0x3ff0000000000000 0 1) 63"
  using fsgnj_correct [of "0x3f800000" "0x80000000" "0x3ff0000000000000" 0] by simp

subsection \<open>Conversions to integers\<close>

text \<open>The value that the conversion leaves in the register, from the three values of the switch.\<close>

definition fcvt_result :: "u32 \<Rightarrow> bool \<Rightarrow> u64 \<Rightarrow> u64" where
  "fcvt_result sel negative v =
     (case fcvt_if_limits sel negative v of (result, limit, limit_result) \<Rightarrow>
        if v > limit then limit_result else result)"

lemma fcvt_if_finish_result:
  assumes "f64_to_ui64 sf (if sint f < 0 then f XOR 0x8000000000000000 else f)
      (softfloat_roundingMode h) (tp_reg h) = (v, tp)"
  shows "\<exists>h'. fcvt_if_finish sf insn sel f h = Inr ((), h') \<and>
    x_regs h' = (x_regs h)[reg_index insn 7 := fcvt_result sel (sint f < 0) v]"
  using assms
  by (simp add: fcvt_if_finish_def Let_def exec_simps sf_call_def fcvt_result_def
      softfloat_raiseFlags_def SET_FS_DIRTY_def SET_RD_def split: prod.split)

lemma sint_scast_of_int: "- (2 ^ 31) \<le> k \<Longrightarrow> k < 2 ^ 31 \<Longrightarrow> sint (scast (word_of_int k :: u32) :: u64) = k"
proof -
  assume k: "- (2 ^ 31) \<le> k" "k < 2 ^ 31"
  then have "sint (word_of_int k :: u32) = k" by (simp add: signed_of_int signed_take_bit_int_eq_self)
  then have "(scast (word_of_int k :: u32) :: u64) = word_of_int k" by (simp only: scast_eq)
  then show ?thesis using k by (simp add: sint_of_int_u64)
qed

lemma ucast_of_int_u32: "(ucast (word_of_int k :: u64) :: u32) = word_of_int k"
  by (rule bit_eqI) (auto simp: bit_unsigned_iff bit_word_of_int_iff)

lemma fcvt_result_range:
  "sint (fcvt_result 2 True v) = max (- (2 ^ 63)) (- uint v) \<and>
   sint (fcvt_result 2 False v) = min (2 ^ 63 - 1) (uint v) \<and>
   sint (fcvt_result 0 False v) = min (2 ^ 31 - 1) (uint v) \<and>
   sint (fcvt_result 0 True v) = (if uint v \<le> 2 ^ 31 then - uint v else 2 ^ 31) \<and>
   uint (fcvt_result 1 False v) = min (2 ^ 32 - 1) (uint v) \<and>
   uint (fcvt_result 3 False v) = uint v \<and>
   uint (fcvt_result 1 True v) = (if v = 0 then 0 else 2 ^ 32 - 1) \<and>
   uint (fcvt_result 3 True v) = (if v = 0 then 0 else 2 ^ 64 - 1)"
proof -
  have u: "0 \<le> uint v" "uint v < 2 ^ 64" using unsigned_less [where w = v and ?'a = int] by auto
  have lo: "- (2 ^ 63) \<le> uint v" "- (2 ^ 31) \<le> uint v" by (rule order_trans [of _ 0]; simp)+
  have hi: "- uint v < 2 ^ 63" "- uint v < 2 ^ 31" by (rule le_less_trans [of _ 0]; simp)+
  have minus: "- v = word_of_int (- uint v)" by simp
  have lt: "c < v \<longleftrightarrow> uint c < uint v" for c by (rule word_less_def)
  have a: "sint (- v) = - uint v" if "uint v \<le> 2 ^ 63"
    unfolding minus using that hi by (intro sint_of_int_u64) auto
  have b: "sint v = uint v" if "uint v < 2 ^ 63"
    using sint_of_int_u64 [OF lo(1) that] by simp
  have c: "sint (scast (ucast v :: u32) :: u64) = uint v" if "uint v < 2 ^ 31"
    using sint_scast_of_int [OF lo(2) that] by simp
  have d: "sint (scast (ucast (- v) :: u32) :: u64) = - uint v" if "uint v \<le> 2 ^ 31"
  proof -
    have "(ucast (- v) :: u32) = word_of_int (- uint v)"
      by (subst minus) (rule ucast_of_int_u32)
    then show ?thesis using that sint_scast_of_int [OF _ hi(2)] by simp
  qed
  have e: "uint (ucast (ucast v :: u32) :: u64) = uint v" if "uint v < 2 ^ 32"
    using that u by (simp add: unsigned_ucast_eq unsigned_take_bit_eq take_bit_int_eq_self)
  have z: "v = 0 \<longleftrightarrow> \<not> 0 < v" by (simp add: word_gt_0)
  show ?thesis
    using u a b c d e z
    by (auto simp: fcvt_result_def fcvt_if_limits_def lt not_less)
qed

text \<open>
  C34 (bounds). Converting a floating-point magnitude \<open>v\<close>, as the library rounds it, to an integer.
  The signed 64-bit conversion saturates at both ends, the signed 32-bit conversion at the upper end,
  and the unsigned conversions of a non-negative number at the upper end. A negative number beyond the
  32-bit range leaves \<open>2\<^sup>3\<^sup>1\<close>, not sign-extended, and the unsigned conversions of a negative number
  whose magnitude does not round to zero leave the largest value instead of zero.
\<close>

theorem fcvt_if_correct:
  assumes "GET_PRECISION insn = PRECISION_D" "drop_bit 20 insn AND 0x1f = sel" "sel < 4"
    "f = GET_F64_RS1 insn h" "negative \<longleftrightarrow> sint f < 0"
    "f64_to_ui64 sf (if negative then f XOR 0x8000000000000000 else f)
       (softfloat_roundingMode h) (tp_reg h) = (v, tp)"
  shows "\<exists>h' r. emulate_fcvt_if sf mcause mepc mstatus insn h = Inr ((), h') \<and>
    x_regs h' = (x_regs h)[reg_index insn 7 := r] \<and>
    (if sel = 2 then sint r = (if negative then max (- (2 ^ 63)) (- uint v) else min (2 ^ 63 - 1) (uint v))
     else if sel = 0 then
       sint r = (if \<not> negative then min (2 ^ 31 - 1) (uint v) else if uint v \<le> 2 ^ 31 then - uint v else 2 ^ 31)
     else if sel = 1 then
       uint r = (if \<not> negative then min (2 ^ 32 - 1) (uint v) else if v = 0 then 0 else 2 ^ 32 - 1)
     else uint r = (if \<not> negative then uint v else if v = 0 then 0 else 2 ^ 64 - 1))"
proof -
  obtain h' where h': "fcvt_if_finish sf insn sel f h = Inr ((), h')"
    "x_regs h' = (x_regs h)[reg_index insn 7 := fcvt_result sel negative v]"
    using fcvt_if_finish_result [of sf f h v tp insn sel] assms by auto
  have e: "emulate_fcvt_if sf mcause mepc mstatus insn h = Inr ((), h')"
    using assms(1,2,4) h'(1) leD [of 4 sel] assms(3)
    by (auto simp: emulate_fcvt_if_def exec_simps PRECISION_S_def PRECISION_D_def)
  have s3: "fcvt_result sel n v = fcvt_result 3 n v" if "sel \<noteq> 0" "sel \<noteq> 1" "sel \<noteq> 2" for n
    using that by (simp add: fcvt_result_def fcvt_if_limits_def)
  show ?thesis
    by (rule exI [of _ h'], rule exI [of _ "fcvt_result sel negative v"])
      (use e h'(2) fcvt_result_range [of v] s3 in \<open>cases negative; simp\<close>)
qed

text \<open>\<^verbatim>\<open>fcvt.wu.d x1, f0\<close> of a negative number whose magnitude the library rounds to 5.\<close>

theorem fcvt_if_correct_witness:
  "\<exists>h' r. emulate_fcvt_if (sf_trivial\<lparr>f64_to_ui64 := \<lambda>_ _ tp. (5, tp)\<rparr>) 2 0 0 0xc21000d3
      ((sample_hart Map.empty)\<lparr>f_regs := replicate 32 0xc014000000000000\<rparr>) = Inr ((), h') \<and>
    x_regs h' = (replicate 32 0)[1 := r] \<and> uint r = 2 ^ 32 - 1"
proof -
  let ?h = "(sample_hart Map.empty)\<lparr>f_regs := replicate 32 0xc014000000000000\<rparr>"
  have f: "GET_PRECISION 0xc21000d3 = PRECISION_D" "drop_bit 20 (0xc21000d3 :: u32) AND 0x1f = 1"
    "reg_index 0xc21000d3 7 = 1" "GET_F64_RS1 0xc21000d3 ?h = 0xc014000000000000"
    by (simp_all add: GET_PRECISION_def PRECISION_D_def reg_index_def GET_F64_RS1_def GET_F64_REG_def)
  show ?thesis
    using fcvt_if_correct [OF f(1,2) _ f(4) [symmetric], where negative = True and v = 5 and tp = 0 and
        sf = "sf_trivial\<lparr>f64_to_ui64 := \<lambda>_ _ tp. (5, tp)\<rparr>" and mcause = 2 and mepc = 0 and mstatus = 0]
    by (simp add: f(3)) (simp add: sample_hart_def)
qed

subsection \<open>Conversions from integers\<close>

lemma uint_of_int_u64: "0 \<le> k \<Longrightarrow> k < 2 ^ 64 \<Longrightarrow> uint (word_of_int k :: u64) = k"
  by (simp add: unsigned_of_int take_bit_int_eq_self)

lemma uint_neg_u64: "sint (w :: u64) < 0 \<Longrightarrow> uint (- w) = - sint w"
  using uint_of_int_u64 [of "- sint w"] sint_bounds_u64 [of w] by simp

lemma uint_nonneg_u64: "\<not> sint (w :: u64) < 0 \<Longrightarrow> uint w = sint w"
  using uint_of_int_u64 [of "sint w"] sint_bounds_u64 [of w] by simp

lemma sint_of_int_u32: "- (2 ^ 31) \<le> k \<Longrightarrow> k < 2 ^ 31 \<Longrightarrow> sint (word_of_int k :: u32) = k"
  by (simp add: signed_of_int signed_take_bit_int_eq_self)

lemma sint_scast_u32: "sint (scast (i :: u32) :: u64) = sint i"
proof -
  have "- (2 ^ 31) \<le> sint i" "sint i < 2 ^ 31" using sint_ge [of i] sint_lt [of i] by simp_all
  then show ?thesis using sint_scast_of_int [of "sint i"] by simp
qed

lemma sint_minus_u32: "i \<noteq> 0x80000000 \<Longrightarrow> sint (- (i :: u32)) = - sint i"
proof -
  assume i: "i \<noteq> 0x80000000"
  have b: "- (2 ^ 31) \<le> sint i" "sint i < 2 ^ 31" using sint_ge [of i] sint_lt [of i] by simp_all
  have "sint i \<noteq> - (2 ^ 31)" using i sint_special_u32(1) [of i] by simp
  then have "- (2 ^ 31) \<le> - sint i" "- sint i < 2 ^ 31" using b by auto
  then show ?thesis using sint_of_int_u32 [of "- sint i"] by simp
qed

text \<open>
  C36 (functional). Converting an integer register to floating point first splits it into a sign and a
  magnitude. For each of the four integer types the split is exact: the signed magnitude is the value
  of the register at that type. The one exception is the smallest 32-bit integer, whose negation
  overflows in C.
\<close>

theorem fcvt_fi_operand_exact:
  "(if ucast x = (0x80000000 :: u32) then fcvt_fi_operand 0 x = Some None
    else (\<exists>n m. fcvt_fi_operand 0 x = Some (Some (n, m)) \<and>
      (if n then - uint m else uint m) = sint (ucast x :: u32))) \<and>
   (\<exists>m. fcvt_fi_operand 1 x = Some (Some (False, m)) \<and> uint m = uint (ucast x :: u32)) \<and>
   (\<exists>n m. fcvt_fi_operand 2 x = Some (Some (n, m)) \<and> (if n then - uint m else uint m) = sint x) \<and>
   (\<exists>m. fcvt_fi_operand 3 x = Some (Some (False, m)) \<and> uint m = uint x) \<and>
   (if sel < 4 then True else fcvt_fi_operand sel x = None)"
proof -
  let ?i = "ucast x :: u32"
  have s0: "(if sint ?i < 0 then - uint (scast (- ?i) :: u64) else uint (scast ?i :: u64)) = sint ?i"
    if "?i \<noteq> 0x80000000"
  proof (cases "sint ?i < 0")
    case True
    then have "uint (scast (- ?i) :: u64) = sint (- ?i)"
      using uint_nonneg_u64 [of "scast (- ?i)"] sint_minus_u32 [OF that] by (simp add: sint_scast_u32)
    then show ?thesis using True sint_minus_u32 [OF that] by simp
  next
    case False
    then show ?thesis using uint_nonneg_u64 [of "scast ?i"] by (simp add: sint_scast_u32)
  qed
  have s2: "(if sint x < 0 then - uint (- x) else uint x) = sint x"
    using uint_neg_u64 uint_nonneg_u64 by auto
  have "uint (ucast ?i :: u64) = uint ?i"
    by (rule bit_eqI) (auto simp: bit_unsigned_iff bit_take_bit_iff)
  with s0 s2 show ?thesis by (auto simp: fcvt_fi_operand_def Let_def)
qed

text \<open>
  An emulated \<^verbatim>\<open>flw\<close> whose address is not aligned is handed to
  \<^verbatim>\<open>misaligned_load_trap\<close>, which takes the address from \<^verbatim>\<open>mbadaddr\<close>. On an
  illegal-instruction trap that CSR does not hold the operand's address: the register is loaded from
  wherever it points, whatever \<^verbatim>\<open>rs1\<close> and the immediate are.
\<close>

theorem float_load_uses_mbadaddr:
  assumes "uread h mepc 4 = Some ib" "unat mepc mod 4 = 0" "insn = ucast (le_word ib)"
    "insn AND 0x707f = 0x2007" "(GET_RS1 insn h + scast (IMM_I insn)) mod 4 \<noteq> 0"
    "uread h (csr_mbadaddr h) 4 = Some bs" "length (f_regs h) = 32"
  shows "\<exists>h'. emulate_float_load mcause mepc mstatus insn h = Inr ((), h') \<and>
    GET_F32_REG insn 7 h' = ucast (le_word bs)"
proof -
  have f3: "insn AND 0x7000 = 0x2000"
  proof -
    have "insn AND 0x7000 = (insn AND 0x707f) AND 0x7000" by (simp add: and.assoc)
    then show ?thesis using assms(4) by simp
  qed
  have d: "misaligned_load_decode insn = Some (4, 0, True)"
    using assms(4) by (simp add: misaligned_load_decode_def)
  have "load_loop 4 (csr_mbadaddr h) mepc (replicate 8 0) h = Inr (bs @ drop 4 (replicate 8 0), h)"
    using assms(6) by (intro load_loop_all) (auto simp: uread_Some_iff)
  moreover have "le_word (bs @ drop 4 (replicate 8 0)) = le_word bs" by (simp add: le_word_append_zeros)
  ultimately obtain h' where h': "misaligned_load_trap mcause mepc h = Inr ((), h')"
    "f_regs h' = (f_regs h)[reg_index insn 7 :=
      (GET_F64_REG insn 7 h AND 0xFFFFFFFF00000000) OR ucast (ucast (le_word bs) :: u32)]"
    using assms(1-3) d
    by (auto simp: misaligned_load_trap_def get_insn_Some exec_simps write_mepc_def Let_def
        SET_F32_RD_def SET_F32_REG_def SET_FS_DIRTY_def)
  have z: "(ucast (x AND 0xFFFFFFFF00000000 :: u64) :: u32) = 0" for x
  proof -
    have "ucast (x AND 0xFFFFFFFF00000000) = (ucast x :: u32) AND ucast (0xFFFFFFFF00000000 :: u64)"
      by (rule unsigned_and_eq)
    also have "ucast (0xFFFFFFFF00000000 :: u64) = (0 :: u32)" by simp
    finally show ?thesis by simp
  qed
  have uu: "(ucast (ucast y :: u64) :: u32) = y" for y :: u32
    by (rule bit_eqI) (simp add: bit_unsigned_iff)
  have "GET_F32_REG insn 7 h' = ucast (le_word bs)"
    using h'(2) reg_index_less [of insn 7] assms(7)
    by (simp add: GET_F32_REG_def GET_F64_REG_def unsigned_or_eq z uu)
  then show ?thesis
    using h'(1) f3 assms(5) by (auto simp: emulate_float_load_def exec_simps)
qed

text \<open>\<^verbatim>\<open>flw f0, 2(x0)\<close> at address 0, while \<^verbatim>\<open>mbadaddr\<close> is 0x101.\<close>

definition flw_mem :: "u64 \<Rightarrow> u8 option" where
  "flw_mem = [0 \<mapsto> 0x07, 1 \<mapsto> 0x20, 2 \<mapsto> 0x20, 3 \<mapsto> 0,
     0x101 \<mapsto> 1, 0x102 \<mapsto> 2, 0x103 \<mapsto> 3, 0x104 \<mapsto> 4]"

theorem float_load_uses_mbadaddr_witness:
  "\<exists>h'. emulate_float_load 2 0 0 0x202007 (sample_hart flw_mem) = Inr ((), h') \<and>
     GET_F32_REG 0x202007 7 h' = 0x4030201"
proof -
  let ?h = "sample_hart flw_mem"
  have a: "uread ?h 0 4 = Some [0x07, 0x20, 0x20, 0]" "uread ?h (csr_mbadaddr ?h) 4 = Some [1, 2, 3, 4]"
    by (simp_all add: uread_def sample_hart_def flw_mem_def upt_small)
  have b: "(GET_RS1 0x202007 ?h + scast (IMM_I 0x202007)) mod 4 \<noteq> 0"
    by (simp add: GET_RS1_def GET_REG_def sample_hart_def reg_index_def IMM_I_def)
  have "length (f_regs ?h) = 32" by (simp add: sample_hart_def)
  from float_load_uses_mbadaddr [OF a(1) _ _ _ b a(2) this, of 2 0] show ?thesis by simp
qed

end
