(* ===== verification/Snprintf.thy ===== *)
theory Snprintf
  imports Prelude
begin

text \<open>
  The formatted output of \<^verbatim>\<open>fs/snprintf.c\<close>. The format string is the list of its characters
  without the terminator, the variable arguments are a list, and the buffer is a list of bytes of
  which the first \<open>n\<close> belong to the caller. \<open>None\<close> stands for undefined behaviour: a missing argument
  or one of the wrong type, or the negation of the smallest \<^verbatim>\<open>long\<close>.
\<close>

subsection \<open>The implementation\<close>

datatype va_arg = VaInt u32 | VaLong u64 | VaStr "u8 list"

text \<open>\<^verbatim>\<open>longarg ? va_arg(vl, long) : va_arg(vl, int)\<close>\<close>

fun va_num :: "bool \<Rightarrow> va_arg list \<Rightarrow> (int \<times> va_arg list) option" where
  "va_num True (VaLong x # vl) = Some (sint x, vl)"
| "va_num False (VaInt x # vl) = Some (sint x, vl)"
| "va_num _ _ = None"

text \<open>\<^verbatim>\<open>if (++pos < n) out[pos-1] = c;\<close>\<close>

definition put :: "nat \<Rightarrow> u8 \<Rightarrow> u8 list \<times> nat \<Rightarrow> u8 list \<times> nat" where
  "put n c = (\<lambda>(out, pos). (if Suc pos < n then out[pos := c] else out, Suc pos))"

definition hex_digit :: "int \<Rightarrow> u8" where
  "hex_digit d = (if d < 10 then 0x30 + of_int d else 0x61 + of_int d - 10)"

text \<open>\<^verbatim>\<open>for (i = k-1; i >= 0; i--)\<close> over the nibbles of \<open>num\<close>\<close>

fun put_hex :: "nat \<Rightarrow> nat \<Rightarrow> int \<Rightarrow> u8 list \<times> nat \<Rightarrow> u8 list \<times> nat" where
  "put_hex n 0 num b = b"
| "put_hex n (Suc i) num b = put_hex n i num (put n (hex_digit (drop_bit (4 * i) num AND 0xF)) b)"

text \<open>\<^verbatim>\<open>for (nn = num; nn /= 10; digits++);\<close>\<close>

fun count_digits :: "nat \<Rightarrow> nat" where
  "count_digits num = (if num div 10 = 0 then 1 else Suc (count_digits (num div 10)))"

declare count_digits.simps [simp del]

text \<open>\<^verbatim>\<open>for (i = digits-1; i >= 0; i--)\<close>, writing the lowest digit first\<close>

fun put_dec :: "nat \<Rightarrow> nat \<Rightarrow> nat \<Rightarrow> nat \<Rightarrow> u8 list \<Rightarrow> u8 list" where
  "put_dec n pos 0 num out = out"
| "put_dec n pos (Suc i) num out =
     put_dec n pos i (num div 10)
       (if pos + i + 1 < n then out[pos + i := 0x30 + of_nat (num mod 10)] else out)"

definition fmt_x ::
    "nat \<Rightarrow> bool \<Rightarrow> va_arg list \<Rightarrow> u8 list \<times> nat \<Rightarrow> ((u8 list \<times> nat) \<times> va_arg list) option" where
  "fmt_x n longarg vl b =
     (case va_num longarg vl of
        None \<Rightarrow> None
      | Some (num, vl') \<Rightarrow> Some (put_hex n (2 * (if longarg then 8 else 4)) num b, vl'))"

definition fmt_d ::
    "nat \<Rightarrow> bool \<Rightarrow> va_arg list \<Rightarrow> u8 list \<times> nat \<Rightarrow> ((u8 list \<times> nat) \<times> va_arg list) option" where
  "fmt_d n longarg vl b =
     (case va_num longarg vl of
        None \<Rightarrow> None
      | Some (num, vl') \<Rightarrow>
          if num = - (2 ^ 63) then None
          else
            (let (out, pos) = (if num < 0 then put n 0x2d b else b);
                 v = nat (if num < 0 then - num else num); digits = count_digits v
             in Some ((put_dec n pos digits v out, pos + digits), vl')))"

text \<open>The loop over the format string; \<open>format\<close> and \<open>longarg\<close> are the two flags.\<close>

fun vsnprintf_loop ::
    "nat \<Rightarrow> u8 list \<Rightarrow> bool \<Rightarrow> bool \<Rightarrow> va_arg list \<Rightarrow> u8 list \<times> nat \<Rightarrow> (u8 list \<times> nat) option" where
  "vsnprintf_loop n [] format longarg vl b = Some b"
| "vsnprintf_loop n (c # s) format longarg vl b =
     (if format then
        if c = 0x6c then vsnprintf_loop n s True True vl b
        else if c = 0x70 then
          (case fmt_x n True vl (put n 0x78 (put n 0x30 b)) of
             None \<Rightarrow> None
           | Some (b', vl') \<Rightarrow> vsnprintf_loop n s False False vl' b')
        else if c = 0x78 then
          (case fmt_x n longarg vl b of
             None \<Rightarrow> None
           | Some (b', vl') \<Rightarrow> vsnprintf_loop n s False False vl' b')
        else if c = 0x64 then
          (case fmt_d n longarg vl b of
             None \<Rightarrow> None
           | Some (b', vl') \<Rightarrow> vsnprintf_loop n s False False vl' b')
        else if c = 0x73 then
          (case vl of
             VaStr s2 # vl' \<Rightarrow> vsnprintf_loop n s False False vl' (fold (put n) s2 b)
           | _ \<Rightarrow> None)
        else if c = 0x63 then
          (case vl of
             VaInt x # vl' \<Rightarrow> vsnprintf_loop n s False False vl' (put n (ucast x) b)
           | _ \<Rightarrow> None)
        else vsnprintf_loop n s True longarg vl b
      else if c = 0x25 then vsnprintf_loop n s True longarg vl b
      else vsnprintf_loop n s False longarg vl (put n c b))"

definition vsnprintf :: "u8 list \<Rightarrow> nat \<Rightarrow> u8 list \<Rightarrow> va_arg list \<Rightarrow> (nat \<times> u8 list) option" where
  "vsnprintf out n s vl =
     (case vsnprintf_loop n s False False vl (out, 0) of
        None \<Rightarrow> None
      | Some (out', pos) \<Rightarrow>
          Some (pos, if pos < n then out'[pos := 0] else if n \<noteq> 0 then out'[n - 1 := 0] else out'))"

definition snprintf :: "u8 list \<Rightarrow> nat \<Rightarrow> u8 list \<Rightarrow> va_arg list \<Rightarrow> (nat \<times> u8 list) option" where
  "snprintf out n s vl = vsnprintf out n s vl"

subsection \<open>Reference rendering\<close>

text \<open>The text that a format denotes, with no buffer in sight.\<close>

definition hex_text :: "nat \<Rightarrow> int \<Rightarrow> u8 list" where
  "hex_text k num = map (\<lambda>i. hex_digit ((num div 16 ^ i) mod 16)) (rev [0..<k])"

fun dec_text :: "nat \<Rightarrow> u8 list" where
  "dec_text v = (if v < 10 then [] else dec_text (v div 10)) @ [0x30 + of_nat (v mod 10)]"

declare dec_text.simps [simp del]

fun render :: "u8 list \<Rightarrow> bool \<Rightarrow> bool \<Rightarrow> va_arg list \<Rightarrow> u8 list option" where
  "render [] format longarg vl = Some []"
| "render (c # s) format longarg vl =
     (if \<not> format then
        if c = 0x25 then render s True longarg vl
        else map_option ((#) c) (render s False longarg vl)
      else if c = 0x6c then render s True True vl
      else if c = 0x70 then
        (case vl of
           VaLong x # vl' \<Rightarrow> map_option ((@) ([0x30, 0x78] @ hex_text 16 (sint x))) (render s False False vl')
         | _ \<Rightarrow> None)
      else if c = 0x78 then
        (case va_num longarg vl of
           None \<Rightarrow> None
         | Some (num, vl') \<Rightarrow>
             map_option ((@) (hex_text (if longarg then 16 else 8) num)) (render s False False vl'))
      else if c = 0x64 then
        (case va_num longarg vl of
           None \<Rightarrow> None
         | Some (num, vl') \<Rightarrow>
             if num = - (2 ^ 63) then None
             else
               map_option ((@) ((if num < 0 then [0x2d] else []) @ dec_text (nat \<bar>num\<bar>)))
                 (render s False False vl'))
      else if c = 0x73 then
        (case vl of VaStr t # vl' \<Rightarrow> map_option ((@) t) (render s False False vl') | _ \<Rightarrow> None)
      else if c = 0x63 then
        (case vl of VaInt x # vl' \<Rightarrow> map_option ((#) (ucast x)) (render s False False vl') | _ \<Rightarrow> None)
      else render s True longarg vl)"

subsection \<open>The buffer holds a prefix of the rendering\<close>

definition holds :: "nat \<Rightarrow> u8 list \<Rightarrow> u8 list \<Rightarrow> u8 list \<times> nat" where
  "holds n out0 r = (take (n - 1) r @ drop (min (length r) (n - 1)) out0, length r)"

lemma holds_Nil: "holds n out0 [] = (out0, 0)"
  by (simp add: holds_def)

lemma put_holds:
  assumes "n \<le> length out0"
  shows "put n c (holds n out0 r) = holds n out0 (r @ [c])"
proof (cases "Suc (length r) < n")
  case True
  then have "drop (length r) out0 = out0 ! length r # drop (Suc (length r)) out0"
    using assms by (simp add: Cons_nth_drop_Suc)
  with True show ?thesis by (simp add: put_def holds_def min_def list_update_append)
next
  case False
  then have "take (n - 1) (r @ [c]) = take (n - 1) r" "min (Suc (length r)) (n - 1) = min (length r) (n - 1)"
    by auto
  with False show ?thesis by (simp add: put_def holds_def)
qed

lemma fold_put_holds: "n \<le> length out0 \<Longrightarrow> fold (put n) cs (holds n out0 r) = holds n out0 (r @ cs)"
  by (induction cs arbitrary: r) (simp_all add: put_holds)

lemma nibble_eq: "drop_bit (4 * i) num AND 0xF = (num div 16 ^ i) mod (16 :: int)"
proof -
  have "drop_bit (4 * i) num AND mask 4 = take_bit 4 (drop_bit (4 * i) num)"
    by (simp only: take_bit_eq_mask)
  moreover have "mask 4 = (0xF :: int)" by (simp add: mask_eq_exp_minus_1)
  moreover have "(16 :: int) ^ i = 2 ^ (4 * i)" by (simp add: power_mult)
  ultimately show ?thesis by (simp add: take_bit_eq_mod drop_bit_eq_div)
qed

lemma put_hex_holds: "n \<le> length out0 \<Longrightarrow> put_hex n k num (holds n out0 r) = holds n out0 (r @ hex_text k num)"
  by (induction k arbitrary: r) (simp_all add: put_holds hex_text_def nibble_eq)

subsection \<open>Decimal digits\<close>

lemma length_put_dec [simp]: "length (put_dec n pos k v out) = length out"
  by (induction k arbitrary: v out) simp_all

lemma nth_put_dec:
  "j < length out \<Longrightarrow> put_dec n pos k v out ! j =
     (if pos \<le> j \<and> j < pos + k \<and> Suc j < n then 0x30 + of_nat ((v div 10 ^ (k - 1 - (j - pos))) mod 10)
      else out ! j)"
proof (induction k arbitrary: v out)
  case (Suc k)
  let ?out = "if pos + k + 1 < n then out[pos + k := 0x30 + of_nat (v mod 10)] else out"
  have "put_dec n pos (Suc k) v out ! j =
      (if pos \<le> j \<and> j < pos + k \<and> Suc j < n
       then 0x30 + of_nat ((v div 10 div 10 ^ (k - 1 - (j - pos))) mod 10) else ?out ! j)"
    using Suc.IH [of ?out "v div 10"] Suc.prems by simp
  moreover have "v div 10 div 10 ^ (k - 1 - (j - pos)) = v div 10 ^ (Suc k - 1 - (j - pos))"
    if "pos \<le> j" "j < pos + k"
  proof -
    have "Suc k - 1 - (j - pos) = Suc (k - 1 - (j - pos))" using that by simp
    then show ?thesis by (simp add: div_mult2_eq)
  qed
  ultimately show ?case using Suc.prems by (auto simp: nth_list_update)
qed auto

lemma length_dec_text: "length (dec_text v) = count_digits v"
  by (induction v rule: dec_text.induct)
    (subst dec_text.simps, subst count_digits.simps, auto)

lemma nth_dec_text:
  "i < count_digits v \<Longrightarrow>
   dec_text v ! i = 0x30 + of_nat ((v div 10 ^ (count_digits v - 1 - i)) mod 10)"
proof (induction v arbitrary: i rule: dec_text.induct)
  case (1 v)
  show ?case
  proof (cases "v < 10")
    case True
    then show ?thesis using 1 by (simp add: dec_text.simps count_digits.simps)
  next
    case False
    let ?k = "count_digits (v div 10)"
    have k: "count_digits v = Suc ?k" using False by (subst count_digits.simps) auto
    have d: "dec_text v = dec_text (v div 10) @ [0x30 + of_nat (v mod 10)]"
      using False by (subst dec_text.simps) simp
    show ?thesis
    proof (cases "i < ?k")
      case True
      have "count_digits v - 1 - i = Suc (?k - 1 - i)" using True k by simp
      then show ?thesis using True "1.IH" [OF False True] False
        by (simp add: d nth_append length_dec_text div_mult2_eq)
    next
      case False
      then have "i = ?k" using 1 k by simp
      then show ?thesis by (simp add: d nth_append length_dec_text k)
    qed
  qed
qed

lemma nth_prefix:
  assumes "n \<le> length out0" "j < length out0"
  shows "(take (n - 1) r @ drop (min (length r) (n - 1)) out0) ! j =
    (if j < length r \<and> Suc j < n then r ! j else out0 ! j)"
proof -
  have "j < length (take (n - 1) r) \<longleftrightarrow> j < length r \<and> Suc j < n" by auto
  moreover have "length (take (n - 1) r) = min (length r) (n - 1)" by simp
  ultimately show ?thesis using assms by (simp only: nth_append) (auto simp: min_def)
qed

lemma put_dec_holds:
  assumes "n \<le> length out0" "holds n out0 r = (out, pos)"
  shows "(put_dec n pos (count_digits v) v out, pos + count_digits v) = holds n out0 (r @ dec_text v)"
proof -
  have o': "out = take (n - 1) r @ drop (min (length r) (n - 1)) out0" "pos = length r"
    using assms(2) by (auto simp: holds_def)
  have len: "length out = length out0" using assms(1) by (simp add: o')
  let ?o2 = "take (n - 1) (r @ dec_text v) @ drop (min (length (r @ dec_text v)) (n - 1)) out0"
  have "put_dec n pos (count_digits v) v out = ?o2"
  proof (rule nth_equalityI)
    show "length (put_dec n pos (count_digits v) v out) = length ?o2"
      using assms(1) len by simp
  next
    fix j
    assume "j < length (put_dec n pos (count_digits v) v out)"
    then have j: "j < length out0" using len by simp
    have "?o2 ! j = (if j < length r + count_digits v \<and> Suc j < n then (r @ dec_text v) ! j else out0 ! j)"
      using nth_prefix [OF assms(1) j, of "r @ dec_text v"] by (simp add: length_dec_text)
    moreover have "out ! j = (if j < length r \<and> Suc j < n then r ! j else out0 ! j)"
      unfolding o' by (rule nth_prefix [OF assms(1) j])
    ultimately show "put_dec n pos (count_digits v) v out ! j = ?o2 ! j"
      using j len nth_dec_text [of "j - length r" v]
      by (auto simp: nth_put_dec o'(2) nth_append)
  qed
  then show ?thesis by (simp add: holds_def o'(2) length_dec_text)
qed

lemma fmt_d_holds:
  assumes "n \<le> length out0" "va_num longarg vl = Some (num, vl')" "num \<noteq> - (2 ^ 63)"
  shows "fmt_d n longarg vl (holds n out0 r) =
    Some (holds n out0 (r @ (if num < 0 then [0x2d] else []) @ dec_text (nat \<bar>num\<bar>)), vl')"
proof -
  obtain out pos where b: "holds n out0 (r @ (if num < 0 then [0x2d] else [])) = (out, pos)"
    by (cases "holds n out0 (r @ (if num < 0 then [0x2d] else []))")
  have "(if num < 0 then put n 0x2d (holds n out0 r) else holds n out0 r) = (out, pos)"
    using b assms(1) by (simp add: put_holds split: if_splits)
  moreover have "nat (if num < 0 then - num else num) = nat \<bar>num\<bar>" by simp
  ultimately show ?thesis
    using put_dec_holds [OF assms(1) b, of "nat \<bar>num\<bar>"] assms(2,3)
    by (simp add: fmt_d_def Let_def)
qed

lemma fmt_x_holds:
  assumes "n \<le> length out0" "va_num longarg vl = Some (num, vl')"
  shows "fmt_x n longarg vl (holds n out0 r) =
    Some (holds n out0 (r @ hex_text (if longarg then 16 else 8) num), vl')"
  using assms by (simp add: fmt_x_def put_hex_holds)

lemma va_num_True: "va_num True vl = Some (num, vl') \<longleftrightarrow> (\<exists>x. vl = VaLong x # vl' \<and> num = sint x)"
  by (cases "(True, vl)" rule: va_num.cases) auto

lemma vsnprintf_loop_holds:
  assumes "n \<le> length out0"
  shows "vsnprintf_loop n s format longarg vl (holds n out0 r) =
    map_option (\<lambda>t. holds n out0 (r @ t)) (render s format longarg vl)"
proof (induction s arbitrary: format longarg vl r)
  case (Cons c s)
  note h = put_holds [OF assms] put_hex_holds [OF assms] fold_put_holds [OF assms]
  have mo: "map_option (\<lambda>t. holds n out0 (r @ t)) (map_option f x) =
      map_option (\<lambda>t. holds n out0 (r @ f t)) x" for f x r
    by (simp add: option.map_comp o_def)
  show ?case
  proof (cases "format \<and> c \<in> {0x64, 0x78, 0x70}")
    case True
    then consider "format" "c = 0x64" | "format" "c = 0x78" | "format" "c = 0x70" by auto
    then show ?thesis
    proof cases
      case 1
      then show ?thesis
        using fmt_d_holds [OF assms, of longarg vl _ _ r]
        by (cases "va_num longarg vl") (auto simp: fmt_d_def Cons.IH mo)
    next
      case 2
      then show ?thesis
        using fmt_x_holds [OF assms, of longarg vl _ _ r]
        by (cases "va_num longarg vl") (auto simp: fmt_x_def Cons.IH mo)
    next
      case 3
      show ?thesis
      proof (cases "va_num True vl")
        case None
        then have "\<nexists>x vl'. vl = VaLong x # vl'" by auto
        then show ?thesis using 3 None
          by (auto simp: fmt_x_def split: list.split va_arg.split)
      next
        case (Some a)
        then obtain x vl' where vl: "vl = VaLong x # vl'" by (cases a) (auto simp: va_num_True)
        then show ?thesis
          using 3 fmt_x_holds [OF assms, of True vl "sint x" vl' "r @ [0x30, 0x78]"]
          by (simp add: h Cons.IH mo)
      qed
    qed
  next
    case False
    then show ?thesis
      by (auto simp: h Cons.IH mo split: list.split va_arg.split)
  qed
qed (simp add: holds_def)

subsection \<open>Properties\<close>



end
