(* ===== verification/Config_String.thy ===== *)
theory Config_String
  imports Snprintf
begin

text \<open>
  The configuration string of the platform: the query functions of \<^verbatim>\<open>machine/configstring.h\<close> and
  their use at boot in \<^verbatim>\<open>fs/configstring.c\<close>. A pointer into the string is the suffix it points
  to, and the terminator is the end of the list; the null pointer is \<open>None\<close>. The query is a partial
  function, because the source loops forever on some malformed strings.
\<close>

subsection \<open>Scanning\<close>

definition skip_whitespace :: "u8 list \<Rightarrow> u8 list" where
  "skip_whitespace str = dropWhile (\<lambda>c. c \<le> 0x20) str"

text \<open>\<^verbatim>\<open>while (*str && *str++ != '"');\<close>\<close>

definition skip_string :: "u8 list \<Rightarrow> u8 list" where
  "skip_string str = drop 1 (dropWhile (\<lambda>c. c \<noteq> 0x22) str)"

definition is_key_char :: "u8 \<Rightarrow> bool" where
  "is_key_char c \<longleftrightarrow> 35 \<le> c \<and> c \<le> 122 \<and> c \<noteq> 0x3b"

definition skip_key :: "u8 list \<Rightarrow> u8 list" where
  "skip_key str = dropWhile is_key_char str"

definition is_hex :: "u8 \<Rightarrow> bool" where
  "is_hex ch \<longleftrightarrow> 0x30 \<le> ch \<and> ch \<le> 0x39 \<or> 0x61 \<le> ch \<and> ch \<le> 0x66 \<or> 0x41 \<le> ch \<and> ch \<le> 0x46"

definition parse_hex :: "u8 \<Rightarrow> u8" where
  "parse_hex ch =
     (if 0x30 \<le> ch \<and> ch \<le> 0x39 then ch - 0x30
      else if 0x61 \<le> ch \<and> ch \<le> 0x66 then ch - 0x61 + 10
      else ch - 0x41 + 10)"

subsection \<open>Queries\<close>

text \<open>A result is the pair of the pointers \<^verbatim>\<open>start\<close> and \<^verbatim>\<open>end\<close>.\<close>

type_synonym query_result = "u8 list option \<times> u8 list option"

text \<open>
  The control points of \<^verbatim>\<open>query_config_string\<close>: the head of \<^verbatim>\<open>while (1)\<close>, and the head of the
  inner loop with \<^verbatim>\<open>str\<close>, \<^verbatim>\<open>value_start\<close> and \<^verbatim>\<open>match\<close>.
\<close>

datatype query_point = Outer "u8 list" | Inner "u8 list" "u8 list" bool

definition key_part :: "u8 list \<Rightarrow> u8 list" where
  "key_part k = takeWhile (\<lambda>c. c \<noteq> 0x7b) k"

definition key_last :: "u8 list \<Rightarrow> bool" where
  "key_last k \<longleftrightarrow> 0x7b \<notin> set k"

partial_function (option) query_loop ::
    "u8 list \<Rightarrow> query_point \<Rightarrow> u8 list option \<Rightarrow> query_result option" where
  "query_loop k pt res_end =
     (case pt of
        Outer str \<Rightarrow>
          (let key_start = skip_whitespace str; key_end = skip_key key_start;
               ksize = length (key_part k);
               mtch = (length key_start - length key_end = ksize \<and> take ksize key_start = key_part k);
               value_start = skip_whitespace key_end
           in query_loop k (Inner value_start value_start mtch) res_end)
      | Inner str value_start mtch \<Rightarrow>
          (case str of
             [] \<Rightarrow> Some (None, res_end)
           | c # rest \<Rightarrow>
               if c = 0x3b then
                 if mtch \<and> key_last k then Some (Some value_start, Some str)
                 else
                   (let str' = skip_whitespace rest in
                    if str' \<noteq> [] \<and> hd str' = 0x7d then Some (None, Some str')
                    else query_loop k (Outer str') (Some str))
               else if c = 0x22 then
                 query_loop k (Inner (skip_whitespace (skip_string rest)) value_start mtch) res_end
               else if c = 0x7b then
                 Option.bind
                   (query_loop
                      (if mtch \<and> \<not> key_last k then drop (length (key_part k) + 1) k else [])
                      (Outer rest) None)
                   (\<lambda>(inner_start, inner_end).
                      if inner_start \<noteq> None then Some (inner_start, inner_end)
                      else
                        (case inner_end of
                           None \<Rightarrow> None
                         | Some e \<Rightarrow>
                             query_loop k (Inner (skip_whitespace (drop 1 e)) value_start mtch) res_end))
               else query_loop k (Inner (skip_whitespace (skip_key str)) value_start mtch) res_end))"

definition query_config_string :: "u8 list \<Rightarrow> u8 list \<Rightarrow> query_result option" where
  "query_config_string str k = query_loop k (Outer str) None"

subsection \<open>Values\<close>

text \<open>The two loops of \<^verbatim>\<open>parse_string\<close>; \<open>n\<close> is the distance from \<^verbatim>\<open>p\<close> to \<^verbatim>\<open>r.end\<close>.\<close>

fun parse_quoted :: "nat \<Rightarrow> u8 list \<Rightarrow> u8 list" where
  "parse_quoted n [] = []"
| "parse_quoted n (ch # p) =
     (if n = 0 \<or> ch = 0x22 then []
      else
        (case p of
           x # h1 # rest \<Rightarrow>
             if ch = 0x5c \<and> x = 0x78 \<and> is_hex h1 then
               (case rest of
                  h2 # rest' \<Rightarrow>
                    if is_hex h2 then (push_bit 4 (parse_hex h1) + parse_hex h2) # parse_quoted (n - 4) rest'
                    else parse_hex h1 # parse_quoted (n - 3) rest
                | [] \<Rightarrow> parse_hex h1 # parse_quoted (n - 3) rest)
             else ch # parse_quoted (n - 1) p
         | _ \<Rightarrow> ch # parse_quoted (n - 1) p))"

definition parse_string :: "u8 list \<Rightarrow> u8 list \<Rightarrow> u8 list" where
  "parse_string start end' =
     (let n = length start - length end' in
      if n > 0 then
        if hd start = 0x22 then parse_quoted (n - 1) (tl start)
        else takeWhile (\<lambda>c. c > 0x20) (take n start)
      else [])"

fun get_uint_hex :: "u64 \<Rightarrow> u8 list \<Rightarrow> u64" where
  "get_uint_hex res [] = res"
| "get_uint_hex res (c # s) =
     (if is_hex c then get_uint_hex (push_bit 4 res + ucast (parse_hex c)) s
      else if c \<noteq> 0x5f then res
      else get_uint_hex res s)"

fun get_uint_dec :: "u64 \<Rightarrow> u8 list \<Rightarrow> u64" where
  "get_uint_dec res [] = res"
| "get_uint_dec res (c # s) =
     (if 0x30 \<le> c \<and> c \<le> 0x39 then get_uint_dec (res * 10 + ucast (c - 0x30)) s else res)"

definition get_uint_str :: "u8 list \<Rightarrow> u64" where
  "get_uint_str s =
     (if take 2 s = [0x30, 0x78] then get_uint_hex 0 (drop 2 s) else get_uint_dec 0 s)"

definition get_uint :: "u8 list \<Rightarrow> u8 list \<Rightarrow> u64" where
  "get_uint start end' = get_uint_str (parse_string start end')"

definition get_sint :: "u8 list \<Rightarrow> u8 list \<Rightarrow> u64" where
  "get_sint start end' =
     (let s = parse_string start end' in
      if s \<noteq> [] \<and> hd s = 0x2d then - get_uint_str (tl s) else get_uint_str s)"

subsection \<open>Use at boot\<close>

text \<open>
  The globals that \<^verbatim>\<open>parse_config_string\<close> sets: \<^verbatim>\<open>mem_size\<close>, the pointer \<^verbatim>\<open>mtime\<close>, and for
  each hart its \<^verbatim>\<open>ipi\<close> and \<^verbatim>\<open>timecmp\<close> pointers; their number is \<^verbatim>\<open>num_harts\<close>. A failed
  assertion is \<open>Some (Inl ())\<close>, a query that does not return is \<open>None\<close>.
\<close>

record platform =
  mem_size :: u64
  mtime_ptr :: u64
  hart_ptrs :: "(u64 \<times> u64) list"

type_synonym 'a boot = "(unit + 'a) option"

text \<open>\<^verbatim>\<open>get_uint\<close> of a query result, asserting \<^verbatim>\<open>res.start\<close>.\<close>

definition query_uint :: "u8 list \<Rightarrow> u8 list \<Rightarrow> u64 boot" where
  "query_uint s k =
     (case query_config_string s k of
        Some (Some st, Some en) \<Rightarrow> Some (Inr (get_uint st en))
      | Some _ \<Rightarrow> Some (Inl ())
      | None \<Rightarrow> None)"

text \<open>\<^verbatim>\<open>"ram{0{addr"\<close>, \<^verbatim>\<open>"ram{0{size"\<close> and \<^verbatim>\<open>"rtc{addr"\<close>\<close>

definition key_ram_addr :: "u8 list" where
  "key_ram_addr = [0x72, 0x61, 0x6d, 0x7b, 0x30, 0x7b, 0x61, 0x64, 0x64, 0x72]"

definition key_ram_size :: "u8 list" where
  "key_ram_size = [0x72, 0x61, 0x6d, 0x7b, 0x30, 0x7b, 0x73, 0x69, 0x7a, 0x65]"

definition key_rtc_addr :: "u8 list" where
  "key_rtc_addr = [0x72, 0x74, 0x63, 0x7b, 0x61, 0x64, 0x64, 0x72]"

text \<open>
  \<^verbatim>\<open>query_mem\<close>. The second query is not asserted: an absent size has a null \<^verbatim>\<open>start\<close> and an
  \<^verbatim>\<open>end\<close> behind it, which makes \<^verbatim>\<open>parse_string\<close> read from the null pointer; this is \<open>None\<close>.
\<close>

definition query_mem :: "u64 \<Rightarrow> u8 list \<Rightarrow> platform \<Rightarrow> platform boot" where
  "query_mem dram_base s p =
     (case query_uint s key_ram_addr of
        None \<Rightarrow> None
      | Some (Inl _) \<Rightarrow> Some (Inl ())
      | Some (Inr base) \<Rightarrow>
          if base \<noteq> dram_base then Some (Inl ())
          else
            (case query_config_string s key_ram_size of
               Some (Some st, Some en) \<Rightarrow> Some (Inr (p\<lparr>mem_size := get_uint st en\<rparr>))
             | _ \<Rightarrow> None))"

definition query_rtc :: "u8 list \<Rightarrow> platform \<Rightarrow> platform boot" where
  "query_rtc s p =
     (case query_uint s key_rtc_addr of
        None \<Rightarrow> None
      | Some (Inl _) \<Rightarrow> Some (Inl ())
      | Some (Inr a) \<Rightarrow> Some (Inr (p\<lparr>mtime_ptr := a\<rparr>)))"

text \<open>
  \<^verbatim>\<open>snprintf(buf, sizeof buf, "core{%d{%d{ipi", core, hart)\<close> with the 32-byte buffer, and the
  string that is in the buffer afterwards.
\<close>

definition fmt_core :: "u8 list" where
  "fmt_core = [0x63, 0x6f, 0x72, 0x65, 0x7b, 0x25, 0x64, 0x7b, 0x25, 0x64, 0x7b]"

definition hart_key :: "u8 list \<Rightarrow> u32 \<Rightarrow> u32 \<Rightarrow> u8 list" where
  "hart_key field core hart =
     (case snprintf (replicate 32 0) 32 (fmt_core @ field) [VaInt core, VaInt hart] of
        None \<Rightarrow> []
      | Some (_, buf) \<Rightarrow> takeWhile (\<lambda>c. c \<noteq> 0) buf)"

definition field_ipi :: "u8 list" where "field_ipi = [0x69, 0x70, 0x69]"

definition field_timecmp :: "u8 list" where
  "field_timecmp = [0x74, 0x69, 0x6d, 0x65, 0x63, 0x6d, 0x70]"

text \<open>
  \<^verbatim>\<open>query_harts\<close>: the two nested loops run over \<open>core\<close> and \<open>hart\<close> until a core has no hart.
\<close>

partial_function (option) query_harts_loop ::
    "u8 list \<Rightarrow> u32 \<Rightarrow> u32 \<Rightarrow> (u64 \<times> u64) list \<Rightarrow> (unit + (u64 \<times> u64) list) option" where
  "query_harts_loop s core hart hs =
     (case query_config_string s (hart_key field_ipi core hart) of
        None \<Rightarrow> None
      | Some (Some st, Some en) \<Rightarrow>
          (case query_uint s (hart_key field_timecmp core hart) of
             None \<Rightarrow> None
           | Some (Inl _) \<Rightarrow> Some (Inl ())
           | Some (Inr tc) \<Rightarrow>
               query_harts_loop s core (hart + 1) (hs @ [(get_uint st en, tc)]))
      | Some _ \<Rightarrow>
          if hart = 0 then Some (Inr hs) else query_harts_loop s (core + 1) 0 hs)"

definition query_harts :: "nat \<Rightarrow> u8 list \<Rightarrow> platform \<Rightarrow> platform boot" where
  "query_harts max_harts s p =
     (case query_harts_loop s 0 0 [] of
        None \<Rightarrow> None
      | Some (Inl _) \<Rightarrow> Some (Inl ())
      | Some (Inr hs) \<Rightarrow>
          if hs = [] then Some (Inl ())
          else if length hs > max_harts then Some (Inl ())
          else Some (Inr (p\<lparr>hart_ptrs := hs\<rparr>)))"

definition parse_config_string :: "u64 \<Rightarrow> nat \<Rightarrow> u8 list \<Rightarrow> platform \<Rightarrow> platform boot" where
  "parse_config_string dram_base max_harts s p =
     (case query_mem dram_base s p of
        Some (Inr p1) \<Rightarrow>
          (case query_rtc s p1 of
             Some (Inr p2) \<Rightarrow> query_harts max_harts s p2
           | r \<Rightarrow> r)
      | r \<Rightarrow> r)"

subsection \<open>Well-formed configuration strings\<close>

text \<open>
  Configurations as trees, their text, and the lookup of a path: the first entry, in textual order,
  whose keys are the path.
\<close>

datatype cfg = End | Entry "u8 list" cfg_item cfg
  and cfg_item = Leaf "u8 list" | Node cfg

primrec print_cfg :: "cfg \<Rightarrow> u8 list" and print_item :: "cfg_item \<Rightarrow> u8 list" where
  "print_cfg End = []"
| "print_cfg (Entry k i c) = k @ 0x20 # print_item i @ 0x3b # print_cfg c"
| "print_item (Leaf v) = v"
| "print_item (Node c) = 0x7b # print_cfg c @ [0x7d]"

primrec wf_cfg :: "cfg \<Rightarrow> bool" and wf_item :: "cfg_item \<Rightarrow> bool" where
  "wf_cfg End \<longleftrightarrow> True"
| "wf_cfg (Entry k i c) \<longleftrightarrow> k \<noteq> [] \<and> list_all is_key_char k \<and> wf_item i \<and> wf_cfg c"
| "wf_item (Leaf v) \<longleftrightarrow> list_all is_key_char v"
| "wf_item (Node c) \<longleftrightarrow> c \<noteq> End \<and> wf_cfg c"

primrec lookup :: "cfg \<Rightarrow> u8 list list \<Rightarrow> u8 list option"
  and lookup_item :: "cfg_item \<Rightarrow> u8 list list \<Rightarrow> u8 list option" where
  "lookup End ks = None"
| "lookup (Entry k i c) ks =
     (if ks = [k] then Some (print_item i)
      else
        (case lookup_item i (if ks \<noteq> [] \<and> hd ks = k then tl ks else []) of
           Some t \<Rightarrow> Some t
         | None \<Rightarrow> lookup c ks))"
| "lookup_item (Leaf v) ks = None"
| "lookup_item (Node c) ks = lookup c ks"

text \<open>A path as the key argument of the query.\<close>

fun enc_path :: "u8 list list \<Rightarrow> u8 list" where
  "enc_path [] = []"
| "enc_path [x] = x"
| "enc_path (x # y # xs) = x @ 0x7b # enc_path (y # xs)"

definition path_ok :: "u8 list list \<Rightarrow> bool" where
  "path_ok ks \<longleftrightarrow> list_all (\<lambda>x. x \<noteq> [] \<and> list_all is_key_char x) ks"

lemma key_char_facts:
  assumes "is_key_char c"
  shows "\<not> c \<le> 0x20" "c \<noteq> 0x3b" "c \<noteq> 0x22" "c \<noteq> 0x7b" "c \<noteq> 0x7d"
proof -
  have "35 \<le> c" "c \<le> 122" using assms by (auto simp: is_key_char_def)
  then have "35 \<le> unat c" "unat c \<le> 122" by (auto simp: word_le_nat_alt)
  then show "\<not> c \<le> 0x20" "c \<noteq> 0x22" "c \<noteq> 0x7b" "c \<noteq> 0x7d" by (auto simp: word_le_nat_alt)
  show "c \<noteq> 0x3b" using assms by (simp add: is_key_char_def)
qed

lemma not_key_chars: "\<not> is_key_char 0x20" "\<not> is_key_char 0x3b" "\<not> is_key_char 0x7d"
  by (simp_all add: is_key_char_def)

lemma skip_whitespace_key: "k \<noteq> [] \<Longrightarrow> list_all is_key_char k \<Longrightarrow> skip_whitespace (k @ xs) = k @ xs"
  by (cases k) (auto simp: skip_whitespace_def key_char_facts)

lemma skip_key_append: "list_all is_key_char k \<Longrightarrow> skip_key (k @ xs) = skip_key xs"
  by (induction k) (simp_all add: skip_key_def)

lemma skip_whitespace_stops [simp]:
  "skip_whitespace (0x3b # xs) = 0x3b # xs" "skip_whitespace (0x7d # xs) = 0x7d # xs"
  "skip_whitespace (0x7b # xs) = 0x7b # xs" "skip_whitespace [] = []"
  by (simp_all add: skip_whitespace_def)

lemma skip_whitespace_item:
  "wf_item i \<Longrightarrow> skip_whitespace (0x20 # print_item i @ 0x3b # xs) = print_item i @ 0x3b # xs"
proof (cases i)
  case (Leaf v)
  assume "wf_item i"
  then show ?thesis using Leaf skip_whitespace_key [of v] skip_whitespace_stops(1)
    by (cases v) (auto simp: skip_whitespace_def)
qed (simp add: skip_whitespace_def)

lemma key_part_enc: "path_ok ks \<Longrightarrow> key_part (enc_path ks) = (if ks = [] then [] else hd ks)"
proof (induction ks rule: enc_path.induct)
  case (2 x)
  then have "\<forall>c \<in> set x. c \<noteq> 0x7b" by (auto simp: path_ok_def list_all_iff key_char_facts)
  then show ?case by (simp add: key_part_def takeWhile_eq_all_conv)
next
  case (3 x y xs)
  then have "\<forall>c \<in> set x. c \<noteq> 0x7b" by (auto simp: path_ok_def list_all_iff key_char_facts)
  then show ?case by (simp add: key_part_def takeWhile_append2)
qed (simp add: key_part_def)

lemma key_last_enc: "path_ok ks \<Longrightarrow> key_last (enc_path ks) \<longleftrightarrow> length ks \<le> 1"
proof (induction ks rule: enc_path.induct)
  case (2 x)
  then show ?case by (auto simp: path_ok_def key_last_def list_all_iff dest: key_char_facts(4))
qed (simp_all add: key_last_def)

lemma drop_enc: "drop (length x + 1) (enc_path (x # y # xs)) = enc_path (y # xs)"
  by simp

subsection \<open>Queries on well-formed strings\<close>

lemma lookup_Nil: "lookup c [] = None" and lookup_item_Nil: "lookup_item i [] = None"
  by (induction c and i) simp_all

text \<open>What a query that starts at an entry list has to return.\<close>

definition query_answers :: "u8 list option \<Rightarrow> u8 list \<Rightarrow> query_result option \<Rightarrow> bool" where
  "query_answers found T r =
     (case found of
        Some t \<Rightarrow> \<exists>en. r = Some (Some (t @ en), Some en)
      | None \<Rightarrow> \<exists>e. r = Some (None, e) \<and> (T \<noteq> [] \<longrightarrow> e = Some T))"

text \<open>The separator after an item.\<close>

lemma query_at_semicolon:
  "query_loop k (Inner (0x3b # rest) vs m) re =
     (if m \<and> key_last k then Some (Some vs, Some (0x3b # rest))
      else if skip_whitespace rest \<noteq> [] \<and> hd (skip_whitespace rest) = 0x7d
      then Some (None, Some (skip_whitespace rest))
      else query_loop k (Outer (skip_whitespace rest)) (Some (0x3b # rest)))"
  by (subst query_loop.simps) (simp add: Let_def)

lemma query_outer_end: "query_loop k (Outer []) re = Some (None, re)"
  by (subst query_loop.simps, subst query_loop.simps) (simp add: skip_key_def)

lemma query_leaf:
  assumes "list_all is_key_char v"
  shows "query_loop k (Inner (v @ 0x3b # rest) vs m) re = query_loop k (Inner (0x3b # rest) vs m) re"
proof (cases v)
  case (Cons c v')
  then have "is_key_char c" using assms by simp
  moreover have "skip_key (c # v' @ 0x3b # rest) = 0x3b # rest"
    using skip_key_append [OF assms, of "0x3b # rest"] Cons not_key_chars by (simp add: skip_key_def)
  ultimately show ?thesis using Cons
    by (subst query_loop.simps) (simp add: key_char_facts)
qed simp

lemma query_entry:
  assumes "k \<noteq> []" "list_all is_key_char k" "wf_item i" "path_ok ks"
  shows "query_loop (enc_path ks) (Outer (k @ 0x20 # print_item i @ 0x3b # rest)) re =
    query_loop (enc_path ks)
      (Inner (print_item i @ 0x3b # rest) (print_item i @ 0x3b # rest) (ks \<noteq> [] \<and> hd ks = k)) re"
proof -
  have ke: "skip_key (k @ 0x20 # print_item i @ 0x3b # rest) = 0x20 # print_item i @ 0x3b # rest"
    using assms(2) not_key_chars by (simp add: skip_key_append) (simp add: skip_key_def)
  have hd: "hd ks \<noteq> []" if "ks \<noteq> []" using assms(4) that by (cases ks) (auto simp: path_ok_def)
  show ?thesis
    using assms skip_whitespace_item [OF assms(3)] hd
    by (subst query_loop.simps)
      (auto simp: Let_def skip_whitespace_key ke key_part_enc intro!: arg_cong [where f = "\<lambda>x. query_loop _ (Inner _ _ x) _"])
qed

text \<open>After an item that did not answer the query, the rest of the entry list is searched.\<close>

lemma query_after_item:
  assumes "wf_cfg c" "path_ok ks" "T = [] \<or> hd T = 0x7d"
    and IH: "c \<noteq> End \<Longrightarrow> query_answers (lookup c ks) T
      (query_loop (enc_path ks) (Outer (print_cfg c @ T)) (Some (0x3b # print_cfg c @ T)))"
    and nm: "\<not> (m \<and> key_last (enc_path ks))"
  shows "query_answers (lookup c ks) T
    (query_loop (enc_path ks) (Inner (0x3b # print_cfg c @ T) vs m) re)"
proof (cases c)
  case End
  then show ?thesis
    using assms(3) nm by (cases T) (auto simp: query_at_semicolon query_outer_end query_answers_def)
next
  case (Entry k i c')
  then have k: "k \<noteq> []" "list_all is_key_char k" using assms(1) by auto
  have ws: "skip_whitespace (print_cfg c @ T) = print_cfg c @ T"
    using skip_whitespace_key [OF k] Entry by simp
  have hd: "hd (print_cfg c @ T) \<noteq> 0x7d" using k Entry key_char_facts(5) by (cases k) auto
  have "c \<noteq> End" using Entry by simp
  from IH [OF this] hd nm show ?thesis unfolding query_at_semicolon ws by auto
qed

lemma query_at_brace:
  "query_loop k (Inner (0x7b # rest) vs m) re =
     (case query_loop (if m \<and> \<not> key_last k then drop (length (key_part k) + 1) k else [])
             (Outer rest) None of
        None \<Rightarrow> None
      | Some (Some st, en) \<Rightarrow> Some (Some st, en)
      | Some (None, None) \<Rightarrow> None
      | Some (None, Some e) \<Rightarrow> query_loop k (Inner (skip_whitespace (drop 1 e)) vs m) re)"
  by (subst query_loop.simps) (auto split: option.splits bind_splits)

lemma query_loop_answers:
  shows "wf_cfg c \<Longrightarrow> c \<noteq> End \<Longrightarrow> path_ok ks \<Longrightarrow> T = [] \<or> hd T = 0x7d \<Longrightarrow>
      query_answers (lookup c ks) T (query_loop (enc_path ks) (Outer (print_cfg c @ T)) re)"
    and "wf_item i \<Longrightarrow> path_ok ks \<Longrightarrow>
      (case lookup_item i (if m \<and> ks \<noteq> [] then tl ks else []) of
         Some t \<Rightarrow> \<exists>en. query_loop (enc_path ks) (Inner (print_item i @ 0x3b # rest) vs m) re =
                      Some (Some (t @ en), Some en)
       | None \<Rightarrow> query_loop (enc_path ks) (Inner (print_item i @ 0x3b # rest) vs m) re =
                  query_loop (enc_path ks) (Inner (0x3b # rest) vs m) re)"
proof (induction c and i arbitrary: ks T re and ks m rest vs re)
  case (Entry k i c)
  let ?m = "ks \<noteq> [] \<and> hd ks = k" and ?rest = "print_cfg c @ T"
  let ?vs = "print_item i @ 0x3b # ?rest"
  have wf: "k \<noteq> []" "list_all is_key_char k" "wf_item i" "wf_cfg c" using Entry.prems by auto
  have q: "query_loop (enc_path ks) (Outer (print_cfg (Entry k i c) @ T)) re =
      query_loop (enc_path ks) (Inner ?vs ?vs ?m) re"
    using query_entry [OF wf(1-3) Entry.prems(3), of ?rest re] by simp
  note it = Entry.IH(1) [OF wf(3) Entry.prems(3), of ?rest ?vs ?m re]
  show ?case
  proof (cases "ks = [k]")
    case True
    then have "lookup_item i (if ?m \<and> ks \<noteq> [] then tl ks else []) = None"
      by (simp add: lookup_item_Nil)
    with it have "query_loop (enc_path ks) (Inner ?vs ?vs ?m) re =
        query_loop (enc_path ks) (Inner (0x3b # ?rest) ?vs ?m) re" by (simp only: option.case)
    then show ?thesis
      using True q key_last_enc [OF Entry.prems(3)]
      by (simp add: query_at_semicolon query_answers_def)
  next
    case False
    let ?sub = "if ks \<noteq> [] \<and> hd ks = k then tl ks else []"
    have sub: "(if ?m \<and> ks \<noteq> [] then tl ks else []) = ?sub" by auto
    show ?thesis
    proof (cases "lookup_item i ?sub")
      case (Some t)
      then show ?thesis using it q False unfolding sub by (auto simp: query_answers_def)
    next
      case None
      have nm: "\<not> (?m \<and> key_last (enc_path ks))"
        using False key_last_enc [OF Entry.prems(3)] by (cases ks) auto
      have "query_answers (lookup c ks) T (query_loop (enc_path ks) (Inner (0x3b # ?rest) ?vs ?m) re)"
        using Entry.IH(2) [OF wf(4) _ Entry.prems(3,4)]
        by (intro query_after_item [OF wf(4) Entry.prems(3,4) _ nm]) auto
      then show ?thesis using None it q False unfolding sub by simp
    qed
  qed
next
  case (Leaf v)
  then show ?case by (simp add: query_leaf)
next
  case (Node c)
  let ?sub = "if m \<and> ks \<noteq> [] then tl ks else []"
  have key: "(if m \<and> \<not> key_last (enc_path ks) then drop (length (key_part (enc_path ks)) + 1) (enc_path ks) else []) =
      enc_path ?sub"
    unfolding key_last_enc [OF Node.prems(2)] key_part_enc [OF Node.prems(2)]
    by (cases ks rule: enc_path.cases) simp_all
  have ok: "path_ok ?sub" using Node.prems(2) by (cases ks) (auto simp: path_ok_def)
  have "query_answers (lookup c ?sub) (0x7d # 0x3b # rest)
      (query_loop (enc_path ?sub) (Outer (print_cfg c @ 0x7d # 0x3b # rest)) None)"
    using Node.prems(1) ok by (intro Node.IH) auto
  moreover have "print_item (Node c) @ 0x3b # rest = 0x7b # print_cfg c @ 0x7d # 0x3b # rest" by simp
  ultimately show ?case
    unfolding query_at_brace [of "enc_path ks" "print_cfg c @ 0x7d # 0x3b # rest"] key lookup_item.simps
    by (cases "lookup c ?sub") (auto simp: query_answers_def query_at_brace key simp del: print_item.simps)
qed simp

subsection \<open>Numbers in the configuration\<close>

lemma dec_digit_range: "d < 10 \<Longrightarrow> 0x30 \<le> (0x30 + of_nat d :: u8) \<and> (0x30 + of_nat d :: u8) \<le> 0x39 \<and>
  (ucast (0x30 + of_nat d - 0x30 :: u8) :: u64) = of_nat d"
proof -
  assume d: "d < 10"
  then have "d \<in> {0, 1, 2, 3, 4, 5, 6, 7, 8, 9}" by auto
  then show ?thesis by auto
qed

lemma get_uint_dec_append:
  "list_all (\<lambda>c. 0x30 \<le> c \<and> c \<le> 0x39) xs \<Longrightarrow> get_uint_dec r (xs @ ys) = get_uint_dec (get_uint_dec r xs) ys"
  by (induction xs arbitrary: r) auto

lemma dec_text_digits: "list_all (\<lambda>c. 0x30 \<le> c \<and> c \<le> 0x39) (dec_text v)"
  by (induction v rule: dec_text.induct) (subst dec_text.simps, auto simp: dec_digit_range)

lemma get_uint_dec_text: "get_uint_dec 0 (dec_text v) = of_nat v"
proof (induction v rule: dec_text.induct)
  case (1 v)
  have "get_uint_dec 0 (if v < 10 then [] else dec_text (v div 10)) = of_nat (v div 10)"
    using 1 by auto
  then have "get_uint_dec 0 (dec_text v) = of_nat (v div 10) * 10 + of_nat (v mod 10)"
    using dec_text_digits [of "v div 10"] dec_digit_range [of "v mod 10"]
    by (subst dec_text.simps) (simp add: get_uint_dec_append)
  also have "\<dots> = of_nat (v div 10 * 10 + v mod 10)" by (simp only: of_nat_add of_nat_mult of_nat_numeral)
  finally show ?case by (simp only: div_mult_mod_eq)
qed

lemma dec_text_not_hex: "take 2 (dec_text v) \<noteq> [0x30, 0x78]"
proof
  assume a: "take 2 (dec_text v) = [0x30, 0x78]"
  then have "0x78 \<in> set (dec_text v)" by (metis in_set_takeD list.set_intros)
  then show False using dec_text_digits [of v] by (auto simp: list_all_iff)
qed

lemma hex_digit_cases:
  assumes "0 \<le> d" "d < 16"
  shows "is_hex (hex_digit d) \<and> (ucast (parse_hex (hex_digit d)) :: u64) = of_int d \<and> hex_digit d > 0x20 \<and>
    is_key_char (hex_digit d)"
proof -
  have "d = 0 \<or> d = 1 \<or> d = 2 \<or> d = 3 \<or> d = 4 \<or> d = 5 \<or> d = 6 \<or> d = 7 \<or> d = 8 \<or> d = 9 \<or> d = 10 \<or>
      d = 11 \<or> d = 12 \<or> d = 13 \<or> d = 14 \<or> d = 15"
    using assms by presburger
  then show ?thesis
    by (elim disjE) (simp_all add: hex_digit_def is_hex_def parse_hex_def is_key_char_def)
qed

lemma get_uint_hex_text: "get_uint_hex r (hex_text k v) = r * 16 ^ k + of_int (v mod 16 ^ k)"
proof (induction k arbitrary: r)
  case (Suc k)
  let ?d = "(v div 16 ^ k) mod 16"
  have d: "is_hex (hex_digit ?d)" "(ucast (parse_hex (hex_digit ?d)) :: u64) = of_int ?d"
    using hex_digit_cases [of ?d] by auto
  have "get_uint_hex r (hex_text (Suc k) v) = get_uint_hex (r * 16 + of_int ?d) (hex_text k v)"
    using d by (simp add: hex_text_def push_bit_eq_mult mult.commute)
  also have "\<dots> = (r * 16 + of_int ?d) * 16 ^ k + of_int (v mod 16 ^ k)" by (rule Suc.IH)
  also have "\<dots> = r * 16 ^ Suc k + of_int (?d * 16 ^ k + v mod 16 ^ k)"
    by (simp add: algebra_simps)
  also have "?d * 16 ^ k + v mod 16 ^ k = v mod 16 ^ Suc k"
    using mod_mult2_eq' [of v "16 ^ k" 16] by (simp add: mult.commute)
  finally show ?case .
qed (simp add: hex_text_def)


lemma parse_string_text:
  assumes "list_all is_key_char t"
  shows "parse_string (t @ en) en = t"
proof (cases t)
  case (Cons c t')
  have "\<forall>x \<in> set t. x > 0x20" using assms key_char_facts(1) by (auto simp: list_all_iff not_le)
  then have "takeWhile (\<lambda>c. c > 0x20) t = t" by (simp add: takeWhile_eq_all_conv)
  moreover have "hd (t @ en) \<noteq> 0x22" using Cons assms key_char_facts(3) by auto
  ultimately show ?thesis using Cons by (simp add: parse_string_def)
qed (simp add: parse_string_def)

subsection \<open>Properties\<close>

text \<open>
  C16 (refinement). On the text of a well-formed configuration, \<^verbatim>\<open>query_config_string\<close> returns and
  implements the lookup in the configuration tree: \<^verbatim>\<open>start\<close> and \<^verbatim>\<open>end\<close> delimit the text of the
  first entry with the given path, and \<^verbatim>\<open>start\<close> is null exactly when there is none.
\<close>

theorem query_config_string_correct:
  assumes "wf_cfg c" "path_ok ks"
  shows "case lookup c ks of
      Some t \<Rightarrow> \<exists>en. query_config_string (print_cfg c) (enc_path ks) = Some (Some (t @ en), Some en)
    | None \<Rightarrow> \<exists>e. query_config_string (print_cfg c) (enc_path ks) = Some (None, e)"
proof (cases "c = End")
  case True
  then show ?thesis by (simp add: query_config_string_def query_outer_end)
next
  case False
  from query_loop_answers(1) [OF assms(1) False assms(2), of "[]" None]
  show ?thesis by (auto simp: query_config_string_def query_answers_def split: option.splits)
qed

text \<open>\<^verbatim>\<open>a {b 1;};c 2;\<close> queried for \<^verbatim>\<open>a{b\<close>.\<close>

definition sample_cfg :: cfg where
  "sample_cfg = Entry [0x61] (Node (Entry [0x62] (Leaf [0x31]) End)) (Entry [0x63] (Leaf [0x32]) End)"

theorem query_config_string_correct_witness:
  "\<exists>en. query_config_string (print_cfg sample_cfg) [0x61, 0x7b, 0x62] = Some (Some (0x31 # en), Some en)"
proof -
  have "wf_cfg sample_cfg" "path_ok [[0x61], [0x62]]"
    by (simp_all add: sample_cfg_def path_ok_def is_key_char_def)
  from query_config_string_correct [OF this] show ?thesis by (simp add: sample_cfg_def)
qed

text \<open>
  C30 (roundtrip). A number that is written into the configuration in decimal, or in hexadecimal with
  the prefix \<^verbatim>\<open>0x\<close>, is the number that \<^verbatim>\<open>get_uint\<close> reads back at boot, modulo \<open>2\<^sup>6\<^sup>4\<close>.
\<close>

theorem query_uint_roundtrip:
  assumes "wf_cfg c" "path_ok ks"
    "lookup c ks = Some t" "t = dec_text v \<or> t = [0x30, 0x78] @ hex_text k (int v) \<and> v < 16 ^ k"
  shows "query_uint (print_cfg c) (enc_path ks) = Some (Inr (of_nat v))"
proof -
  obtain en where en: "query_config_string (print_cfg c) (enc_path ks) = Some (Some (t @ en), Some en)"
  proof (cases "c = End")
    case False
    from query_loop_answers(1) [OF assms(1) False assms(2), of "[]" None] that assms(3) show ?thesis
      by (auto simp: query_config_string_def query_answers_def)
  qed (use assms(3) in simp)
  have kd: "is_key_char c" if "0x30 \<le> c \<and> c \<le> 0x39" for c
    using that by (auto simp: is_key_char_def word_le_nat_alt)
  have kt: "list_all is_key_char t"
    using assms(4) dec_text_digits [of v] kd hex_digit_cases
    by (auto simp: list_all_iff hex_text_def is_key_char_def)
  have "get_uint_str t = of_nat v"
  proof (cases "t = dec_text v")
    case True
    then show ?thesis by (simp add: get_uint_str_def dec_text_not_hex get_uint_dec_text)
  next
    case False
    then have t: "t = [0x30, 0x78] @ hex_text k (int v)" "v < 16 ^ k" using assms(4) by auto
    then have "int v mod 16 ^ k = int v" by simp
    then show ?thesis using t(1) by (simp add: get_uint_str_def get_uint_hex_text)
  qed
  then show ?thesis using en kt by (simp add: query_uint_def get_uint_def parse_string_text)
qed

theorem query_uint_roundtrip_witness:
  "query_uint (print_cfg (Entry [0x61] (Leaf (dec_text 42)) End)) [0x61] = Some (Inr 42)"
proof -
  let ?c = "Entry [0x61] (Leaf (dec_text 42)) End"
  have d: "dec_text 42 = [0x34, 0x32]" by (simp add: dec_text.simps)
  have "wf_cfg ?c" "path_ok [[0x61]]" "lookup ?c [[0x61]] = Some (dec_text 42)"
    by (simp_all add: d path_ok_def is_key_char_def)
  from query_uint_roundtrip [OF this, of 42] show ?thesis by simp
qed

text \<open>
  C38 (termination). The parser does not return on a closing brace where an item is expected: an empty
  group \<^verbatim>\<open>{}\<close>, or a group whose last item lacks its semicolon, makes \<^verbatim>\<open>query_config_string\<close> spin,
  because \<^verbatim>\<open>skip_key\<close> does not advance over the brace.
\<close>

theorem query_spins_on_brace:
  "query_loop k (Inner (0x7d # rest) vs m) res_end = None"
proof (rule ccontr)
  assume "query_loop k (Inner (0x7d # rest) vs m) res_end \<noteq> None"
  then obtain r where "query_loop k (Inner (0x7d # rest) vs m) res_end = Some r" by auto
  then have "case Inner (0x7d # rest) vs m of Inner (c # _) _ _ \<Rightarrow> c \<noteq> 0x7d | _ \<Rightarrow> True"
    by (rule query_loop.raw_induct
        [where P = "\<lambda>k pt re y. case pt of Inner (c # _) _ _ \<Rightarrow> c \<noteq> 0x7d | _ \<Rightarrow> True", rotated])
      (auto simp: skip_key_def not_key_chars split: query_point.splits list.splits, fastforce)
  then show False by simp
qed

end
