(* ===== verification/C_String.thy ===== *)
theory C_String
  imports Machine
begin

text \<open>
  The string routines of \<^verbatim>\<open>fs/string.c\<close> over a flat byte memory. A loop that may run forever, on
  a string without a terminator, is a partial function whose value is then \<open>None\<close>. Pointer
  comparisons are the unsigned comparisons the compiler emits.
\<close>

type_synonym mem = "u64 \<Rightarrow> u8"

subsection \<open>Words in memory\<close>

definition load64 :: "mem \<Rightarrow> u64 \<Rightarrow> u64" where
  "load64 m a = le_word (map (\<lambda>i. m (a + of_nat i)) [0..<8])"

definition store64 :: "mem \<Rightarrow> u64 \<Rightarrow> u64 \<Rightarrow> mem" where
  "store64 m a w = (\<lambda>x. if x - a < 8 then le_bytes 8 w ! unat (x - a) else m x)"

subsection \<open>Blocks\<close>

partial_function (option) copy_words :: "mem \<Rightarrow> u64 \<Rightarrow> u64 \<Rightarrow> u64 \<Rightarrow> mem option" where
  "copy_words m d s e =
     (if d < e then copy_words (store64 m d (load64 m s)) (d + 8) (s + 8) e else Some m)"

partial_function (option) copy_bytes :: "mem \<Rightarrow> u64 \<Rightarrow> u64 \<Rightarrow> u64 \<Rightarrow> mem option" where
  "copy_bytes m d s e =
     (if d < e then copy_bytes (m(d := m s)) (d + 1) (s + 1) e else Some m)"

definition memcpy :: "mem \<Rightarrow> u64 \<Rightarrow> u64 \<Rightarrow> u64 \<Rightarrow> mem option" where
  "memcpy m dest src len =
     (if (dest OR src OR len) AND 7 = 0 then copy_words m dest src (dest + len)
      else copy_bytes m dest src (dest + len))"

partial_function (option) set_words :: "mem \<Rightarrow> u64 \<Rightarrow> u64 \<Rightarrow> u64 \<Rightarrow> mem option" where
  "set_words m d w e = (if d < e then set_words (store64 m d w) (d + 8) w e else Some m)"

partial_function (option) set_bytes :: "mem \<Rightarrow> u64 \<Rightarrow> u8 \<Rightarrow> u64 \<Rightarrow> mem option" where
  "set_bytes m d b e = (if d < e then set_bytes (m(d := b)) (d + 1) b e else Some m)"

definition memset_word :: "u32 \<Rightarrow> u64" where
  "memset_word byte =
     (let w0 = ucast (byte AND 0xFF); w1 = w0 OR push_bit 8 w0; w2 = w1 OR push_bit 16 w1
      in w2 OR push_bit 16 (push_bit 16 w2))"

definition memset :: "mem \<Rightarrow> u64 \<Rightarrow> u32 \<Rightarrow> u64 \<Rightarrow> mem option" where
  "memset m dest byte len =
     (if (dest OR len) AND 7 = 0 then set_words m dest (memset_word byte) (dest + len)
      else set_bytes m dest (ucast byte) (dest + len))"

subsection \<open>Strings\<close>

partial_function (option) strlen_loop :: "mem \<Rightarrow> u64 \<Rightarrow> u64 option" where
  "strlen_loop m p = (if m p \<noteq> 0 then strlen_loop m (p + 1) else Some p)"

definition strlen :: "mem \<Rightarrow> u64 \<Rightarrow> u64 option" where
  "strlen m s = map_option (\<lambda>p. p - s) (strlen_loop m s)"

text \<open>The difference of two \<^verbatim>\<open>unsigned char\<close>s, as an \<^verbatim>\<open>int\<close>.\<close>

definition uchar_diff :: "u8 \<Rightarrow> u8 \<Rightarrow> int" where
  "uchar_diff c1 c2 = uint c1 - uint c2"

partial_function (option) memcmp :: "mem \<Rightarrow> u64 \<Rightarrow> u64 \<Rightarrow> u64 \<Rightarrow> int option" where
  "memcmp m p1 p2 num =
     (let c1 = m p1; c2 = m p2; num' = num - 1 in
      if c1 = c2 \<and> num' > 0 then memcmp m (p1 + 1) (p2 + 1) num' else Some (uchar_diff c1 c2))"

partial_function (option) strcmp :: "mem \<Rightarrow> u64 \<Rightarrow> u64 \<Rightarrow> int option" where
  "strcmp m s1 s2 =
     (let c1 = m s1; c2 = m s2 in
      if c1 \<noteq> 0 \<and> c1 = c2 then strcmp m (s1 + 1) (s2 + 1) else Some (uchar_diff c1 c2))"

partial_function (option) strncmp :: "mem \<Rightarrow> u64 \<Rightarrow> u64 \<Rightarrow> u64 \<Rightarrow> int option" where
  "strncmp m s1 s2 n =
     (let c1 = m s1; c2 = m s2; n' = n - 1 in
      if c1 \<noteq> 0 \<and> c1 = c2 \<and> n' > 0 then strncmp m (s1 + 1) (s2 + 1) n'
      else Some (uchar_diff c1 c2))"

partial_function (option) strcpy :: "mem \<Rightarrow> u64 \<Rightarrow> u64 \<Rightarrow> mem option" where
  "strcpy m d src =
     (let c = m src; m' = m(d := c) in if c \<noteq> 0 then strcpy m' (d + 1) (src + 1) else Some m')"

partial_function (option) strncpy_loop :: "mem \<Rightarrow> u64 \<Rightarrow> u64 \<Rightarrow> u64 \<Rightarrow> mem option" where
  "strncpy_loop m d s e =
     (if s < e then
        let c = m s; m' = m(d := c) in
        if c \<noteq> 0 then strncpy_loop m' (d + 1) (s + 1) e else Some m'
      else Some m)"

definition strncpy :: "mem \<Rightarrow> u64 \<Rightarrow> u64 \<Rightarrow> u64 \<Rightarrow> mem option" where
  "strncpy m dest src n = strncpy_loop m dest src (src + n)"

partial_function (option) strchr_loop :: "mem \<Rightarrow> u64 \<Rightarrow> u8 \<Rightarrow> u64 option" where
  "strchr_loop m s c = (if m s \<noteq> 0 \<and> m s \<noteq> c then strchr_loop m (s + 1) c else Some s)"

text \<open>The inner \<open>None\<close> is the null pointer.\<close>

definition strchr :: "mem \<Rightarrow> u64 \<Rightarrow> u32 \<Rightarrow> u64 option option" where
  "strchr m s c =
     map_option (\<lambda>p. if c \<noteq> 0 \<and> m p = 0 then None else Some p) (strchr_loop m s (ucast c))"

partial_function (option) strrchr_loop :: "mem \<Rightarrow> u64 \<Rightarrow> u64 \<Rightarrow> u8 \<Rightarrow> u64 option" where
  "strrchr_loop m s p c = (if p \<ge> s \<and> m p \<noteq> c then strrchr_loop m s (p - 1) c else Some p)"

definition strrchr :: "mem \<Rightarrow> u64 \<Rightarrow> u32 \<Rightarrow> u64 option option" where
  "strrchr m s c =
     (case strlen m s of
        None \<Rightarrow> None
      | Some n \<Rightarrow>
          map_option (\<lambda>p. if p < s then None else Some p) (strrchr_loop m s (s + n) (ucast c)))"

subsection \<open>Tokens\<close>

text \<open>The two static pointers of \<^verbatim>\<open>strtok\<close>; zero is the null pointer.\<close>

record strtok_state =
  s_end :: u64
  cur_ptr :: u64

text \<open>\<^verbatim>\<open>for (i = 0; i < delim_len; i++) if (ch == delim[i]) break;\<close> and \<^verbatim>\<open>i < delim_len\<close>\<close>

definition is_delim :: "mem \<Rightarrow> u64 \<Rightarrow> nat \<Rightarrow> u8 \<Rightarrow> bool" where
  "is_delim m delim delim_len ch = list_ex (\<lambda>i. ch = m (delim + of_nat i)) [0..<delim_len]"

text \<open>The scan returns the memory, \<^verbatim>\<open>end_ptr\<close>, \<^verbatim>\<open>cur_ptr\<close> and \<^verbatim>\<open>in_token\<close>.\<close>

partial_function (option) strtok_scan ::
    "mem \<Rightarrow> u64 \<Rightarrow> u64 \<Rightarrow> nat \<Rightarrow> u64 \<Rightarrow> u64 \<Rightarrow> bool \<Rightarrow> (mem \<times> u64 \<times> u64 \<times> bool) option" where
  "strtok_scan m send delim delim_len end_ptr cur in_token =
     (if end_ptr < send then
        let ch = m end_ptr in
        if is_delim m delim delim_len ch then
          if in_token then Some (m(end_ptr := 0), end_ptr, cur, in_token)
          else strtok_scan m send delim delim_len (end_ptr + 1) cur in_token
        else if in_token then strtok_scan m send delim delim_len (end_ptr + 1) cur in_token
        else strtok_scan m send delim delim_len (end_ptr + 1) end_ptr True
      else Some (m, end_ptr, cur, in_token))"

definition strtok ::
    "mem \<Rightarrow> strtok_state \<Rightarrow> u64 \<Rightarrow> u64 \<Rightarrow> (u64 \<times> mem \<times> strtok_state) option" where
  "strtok m st s delim =
     (case (if s \<noteq> 0 then map_option (\<lambda>n. \<lparr>s_end = s + n, cur_ptr = s\<rparr>) (strlen m s) else Some st) of
        None \<Rightarrow> None
      | Some st1 \<Rightarrow>
          if s_end st1 = 0 then Some (0, m, st1)
          else if cur_ptr st1 \<ge> s_end st1 then Some (0, m, st1)
          else
            (case strlen m delim of
               None \<Rightarrow> None
             | Some delim_len \<Rightarrow>
                 (case strtok_scan m (s_end st1) delim (unat (ucast delim_len :: u32))
                         (cur_ptr st1) (cur_ptr st1) False of
                    None \<Rightarrow> None
                  | Some (m', end_ptr, cur, in_token) \<Rightarrow>
                      Some (if in_token then cur else 0, m', st1\<lparr>cur_ptr := end_ptr + 1\<rparr>))))"

subsection \<open>Numbers\<close>

partial_function (option) skip_spaces :: "mem \<Rightarrow> u64 \<Rightarrow> u64 option" where
  "skip_spaces m p = (if m p = 0x20 then skip_spaces m (p + 1) else Some p)"

text \<open>\<^verbatim>\<open>res\<close> is kept modulo \<open>2\<^sup>6\<^sup>4\<close>; \<^verbatim>\<open>*str - '0'\<close> is signed and not checked to be a digit.\<close>

partial_function (option) atol_loop :: "mem \<Rightarrow> u64 \<Rightarrow> u64 \<Rightarrow> u64 option" where
  "atol_loop m p res =
     (if m p \<noteq> 0 then atol_loop m (p + 1) (res * 10 + (ucast (m p) - 0x30)) else Some res)"

definition atol :: "mem \<Rightarrow> u64 \<Rightarrow> int option" where
  "atol m str =
     (case skip_spaces m str of
        None \<Rightarrow> None
      | Some p \<Rightarrow>
          (let signed = m p = 0x2d \<or> m p = 0x2b; sign = m p = 0x2d;
               q = if signed then p + 1 else p
           in map_option (\<lambda>res. sint (if sign then - res else res)) (atol_loop m q 0)))"

subsection \<open>Block lemmas\<close>

text \<open>The memory after copying, or after filling, \<open>n\<close> bytes at \<open>d\<close>.\<close>

definition blk :: "mem \<Rightarrow> u64 \<Rightarrow> u64 \<Rightarrow> nat \<Rightarrow> mem" where
  "blk m d s n = (\<lambda>x. if unat (x - d) < n then m (s + (x - d)) else m x)"

definition fillblk :: "mem \<Rightarrow> u64 \<Rightarrow> u8 \<Rightarrow> nat \<Rightarrow> mem" where
  "fillblk m d b n = (\<lambda>x. if unat (x - d) < n then b else m x)"

definition disjoint_blocks :: "u64 \<Rightarrow> u64 \<Rightarrow> nat \<Rightarrow> bool" where
  "disjoint_blocks d s n \<longleftrightarrow> (\<forall>i<n. \<forall>j<n. s + of_nat i \<noteq> d + of_nat j)"

lemma blk_0 [simp]: "blk m d s 0 = m"
  by (simp add: blk_def)

lemma fillblk_0 [simp]: "fillblk m d b 0 = m"
  by (simp add: fillblk_def)

lemma unat_sub_offset:
  assumes "a < 2 ^ 64"
  shows "unat (x - (d + of_nat a) :: u64) =
    (if unat (x - d) < a then unat (x - d) + 2 ^ 64 - a else unat (x - d) - a)"
proof -
  have e: "x - (d + of_nat a) = (x - d) - of_nat a" by simp
  show ?thesis
    using unat_of_nat_u64 [OF assms] unat_diff_u64 [of "of_nat a" "x - d"]
      unat_diff_wrap_u64 [of "x - d" "of_nat a"] unfolding e by simp
qed

lemma blk_compose:
  assumes "a + b \<le> 2 ^ 63" "disjoint_blocks d s (a + b)"
  shows "blk (blk m d s a) (d + of_nat a) (s + of_nat a) b = blk m d s (a + b)"
proof
  fix x
  let ?t = "unat (x - d)"
  have off: "unat (x - (d + of_nat a)) = (if ?t < a then ?t + 2 ^ 64 - a else ?t - a)"
    using assms(1) by (intro unat_sub_offset) simp
  have src: "s + of_nat a + (x - (d + of_nat a)) = s + (x - d)" by simp
  have clean: "blk m d s a (s + (x - d)) = m (s + (x - d))" if "?t < a + b"
  proof -
    have "\<not> unat (s + (x - d) - d) < a"
    proof
      assume j: "unat (s + (x - d) - d) < a"
      have "s + of_nat ?t = d + of_nat (unat (s + (x - d) - d))" by simp
      then show False using assms(2) that j unfolding disjoint_blocks_def
        by (meson trans_less_add1)
    qed
    then show ?thesis by (simp add: blk_def)
  qed
  consider "?t < a" | "a \<le> ?t" "?t < a + b" | "a + b \<le> ?t" by linarith
  then show "blk (blk m d s a) (d + of_nat a) (s + of_nat a) b x = blk m d s (a + b) x"
  proof cases
    case 1
    then have "\<not> unat (x - (d + of_nat a)) < b" using off assms(1) by simp
    then show ?thesis using 1 by (simp add: blk_def [of "blk m d s a"]) (simp add: blk_def)
  next
    case 2
    then have "unat (x - (d + of_nat a)) < b" using off by simp
    then show ?thesis using 2 clean
      by (simp add: blk_def [of "blk m d s a"] src) (simp add: blk_def)
  next
    case 3
    then have "\<not> unat (x - (d + of_nat a)) < b" using off by simp
    then show ?thesis using 3 by (simp add: blk_def [of "blk m d s a"]) (simp add: blk_def)
  qed
qed

lemma fillblk_compose:
  assumes "a + n \<le> 2 ^ 63"
  shows "fillblk (fillblk m d b a) (d + of_nat a) b n = fillblk m d b (a + n)"
proof
  fix x
  let ?t = "unat (x - d)"
  have "unat (x - (d + of_nat a)) = (if ?t < a then ?t + 2 ^ 64 - a else ?t - a)"
    using assms by (intro unat_sub_offset) simp
  then show "fillblk (fillblk m d b a) (d + of_nat a) b n x = fillblk m d b (a + n) x"
    using assms by (auto simp: fillblk_def)
qed

lemma upd_is_blk: "m(d := m s) = blk m d s 1"
proof
  fix x
  have "unat (x - d) = 0 \<longleftrightarrow> x = d" by (simp add: unsigned_eq_0_iff)
  then show "(m(d := m s)) x = blk m d s 1 x" by (auto simp: blk_def)
qed

lemma upd_is_fillblk: "m(d := b) = fillblk m d b 1"
proof
  fix x
  have "unat (x - d) = 0 \<longleftrightarrow> x = d" by (simp add: unsigned_eq_0_iff)
  then show "(m(d := b)) x = fillblk m d b 1 x" by (auto simp: fillblk_def)
qed

lemma le_bytes_le_word: "length bs = n \<Longrightarrow> n \<le> 8 \<Longrightarrow> le_bytes n (le_word bs) = bs"
proof (rule nth_equalityI)
  fix i
  assume a: "length bs = n" "n \<le> 8" "i < length (le_bytes n (le_word bs))"
  show "le_bytes n (le_word bs) ! i = bs ! i"
  proof (rule bit_eqI)
    fix k
    assume "possible_bit TYPE(u8) k"
    then have k: "k < 8" by simp
    then have "(8 * i + k) div 8 = i" "(8 * i + k) mod 8 = k" by auto
    then show "bit (le_bytes n (le_word bs) ! i) k \<longleftrightarrow> bit (bs ! i) k"
      using a k by (auto simp: nth_le_bytes bit_unsigned_iff bit_drop_bit_eq bit_le_word)
  qed
qed simp

lemma store64_load64: "store64 m d (load64 m s) = blk m d s 8"
proof
  fix x
  have "le_bytes 8 (load64 m s) = map (\<lambda>i. m (s + of_nat i)) [0..<8]"
    unfolding load64_def by (rule le_bytes_le_word) auto
  then show "store64 m d (load64 m s) x = blk m d s 8 x"
    by (auto simp: store64_def blk_def word_less_nat_alt)
qed

subsection \<open>Block loops\<close>

lemma unat_add_of_nat: "unat (d :: u64) + n < 2 ^ 64 \<Longrightarrow> unat (d + of_nat n) = unat d + n"
  by (simp add: unat_add_u64 unat_of_nat_u64)

lemma disjoint_blocks_step:
  assumes "disjoint_blocks d s (a + n)"
  shows "disjoint_blocks (d + of_nat a) (s + of_nat a) n"
proof -
  have "s + of_nat (a + i) \<noteq> d + of_nat (a + j)" if "i < n" "j < n" for i j
    using assms that unfolding disjoint_blocks_def by (meson add_strict_left_mono)
  then show ?thesis by (simp add: disjoint_blocks_def add.assoc)
qed

lemma copy_bytes_run:
  assumes "unat d + n < 2 ^ 64" "n \<le> 2 ^ 63" "disjoint_blocks d s n"
  shows "copy_bytes m d s (d + of_nat n) = Some (blk m d s n)"
  using assms
proof (induction n arbitrary: m d s)
  case 0
  then show ?case by (simp add: copy_bytes.simps)
next
  case (Suc n)
  have lt: "d < d + of_nat (Suc n)"
    using Suc.prems by (simp only: word_less_nat_alt unat_add_of_nat)
  have e: "d + of_nat (Suc n) = (d + 1) + of_nat n" by simp
  have d1: "unat (d + 1) = unat d + 1" using unat_add_of_nat [of d 1] Suc.prems by simp
  have dis: "disjoint_blocks (d + 1) (s + 1) n"
    using disjoint_blocks_step [of d s 1 n] Suc.prems by simp
  have "copy_bytes m d s (d + of_nat (Suc n)) = copy_bytes (blk m d s 1) (d + 1) (s + 1) ((d + 1) + of_nat n)"
    using lt by (subst copy_bytes.simps) (simp only: e upd_is_blk if_True)
  also have "\<dots> = Some (blk (blk m d s 1) (d + 1) (s + 1) n)"
    using Suc.prems d1 dis by (intro Suc.IH) simp_all
  also have "\<dots> = Some (blk m d s (Suc n))"
    using blk_compose [of 1 n d s m] Suc.prems by simp
  finally show ?case .
qed

lemma copy_words_run:
  assumes "unat d + 8 * k < 2 ^ 64" "8 * k \<le> 2 ^ 63" "disjoint_blocks d s (8 * k)"
  shows "copy_words m d s (d + of_nat (8 * k)) = Some (blk m d s (8 * k))"
  using assms
proof (induction k arbitrary: m d s)
  case 0
  then show ?case by (simp add: copy_words.simps)
next
  case (Suc k)
  have lt: "d < d + of_nat (8 * Suc k)"
    using Suc.prems by (simp only: word_less_nat_alt unat_add_of_nat) simp
  have e: "d + of_nat (8 * Suc k) = (d + 8) + of_nat (8 * k)" by simp
  have d8: "unat (d + 8) = unat d + 8" using unat_add_of_nat [of d 8] Suc.prems by simp
  have dis: "disjoint_blocks (d + 8) (s + 8) (8 * k)"
    using disjoint_blocks_step [of d s 8 "8 * k"] Suc.prems by simp
  have "copy_words m d s (d + of_nat (8 * Suc k)) =
      copy_words (blk m d s 8) (d + 8) (s + 8) ((d + 8) + of_nat (8 * k))"
    using lt by (subst copy_words.simps) (simp only: e store64_load64 if_True)
  also have "\<dots> = Some (blk (blk m d s 8) (d + 8) (s + 8) (8 * k))"
    using Suc.prems d8 dis by (intro Suc.IH) simp_all
  also have "\<dots> = Some (blk m d s (8 * Suc k))"
    using blk_compose [of 8 "8 * k" d s m] Suc.prems by simp
  finally show ?case .
qed

lemma set_bytes_run:
  assumes "unat d + n < 2 ^ 64" "n \<le> 2 ^ 63"
  shows "set_bytes m d b (d + of_nat n) = Some (fillblk m d b n)"
  using assms
proof (induction n arbitrary: m d)
  case 0
  then show ?case by (simp add: set_bytes.simps)
next
  case (Suc n)
  have lt: "d < d + of_nat (Suc n)"
    using Suc.prems by (simp only: word_less_nat_alt unat_add_of_nat)
  have e: "d + of_nat (Suc n) = (d + 1) + of_nat n" by simp
  have d1: "unat (d + 1) = unat d + 1" using unat_add_of_nat [of d 1] Suc.prems by simp
  have "set_bytes m d b (d + of_nat (Suc n)) = set_bytes (fillblk m d b 1) (d + 1) b ((d + 1) + of_nat n)"
    using lt by (subst set_bytes.simps) (simp only: e upd_is_fillblk if_True)
  also have "\<dots> = Some (fillblk (fillblk m d b 1) (d + 1) b n)"
    using Suc.prems d1 by (intro Suc.IH) simp_all
  also have "\<dots> = Some (fillblk m d b (Suc n))"
    using fillblk_compose [of 1 n m d b] Suc.prems by simp
  finally show ?case .
qed

text \<open>Doubling a repeated byte pattern of \<open>n\<close> bits.\<close>

lemma repeat_pattern:
  assumes "\<And>k. bit (w :: u64) k \<longleftrightarrow> k < n \<and> bit (b :: u32) (k mod 8)" "8 dvd n" "2 * n \<le> 64"
  shows "bit (w OR push_bit n w) k \<longleftrightarrow> k < 2 * n \<and> bit b (k mod 8)"
proof -
  have w: "bit (w OR push_bit n w) k \<longleftrightarrow> bit w k \<or> n \<le> k \<and> k < 64 \<and> bit w (k - n)"
    by (auto simp: bit_or_iff bit_push_bit_iff)
  show ?thesis
  proof (cases "n \<le> k")
    case True
    obtain j where j: "n = 8 * j" using assms(2) by (elim dvdE)
    obtain r where r: "k = r + 8 * j" using True j by (metis le_add_diff_inverse2)
    have "(k - n) mod 8 = k mod 8" by (simp add: r j)
    then show ?thesis using True assms(3) unfolding w assms(1) by auto
  next
    case False
    then show ?thesis unfolding w assms(1) by auto
  qed
qed

lemma bit_memset_word: "bit (memset_word byte) k \<longleftrightarrow> k < 64 \<and> bit byte (k mod 8)"
proof -
  let ?w0 = "ucast (byte AND 0xFF) :: u64"
  have 0: "bit ?w0 k \<longleftrightarrow> k < 8 \<and> bit byte (k mod 8)" for k
    by (auto simp: bit_unsigned_iff and_numeral_masks bit_take_bit_iff)
  have 1: "bit (?w0 OR push_bit 8 ?w0) k \<longleftrightarrow> k < 16 \<and> bit byte (k mod 8)" for k
    using repeat_pattern [OF 0] by simp
  have 2: "bit ((?w0 OR push_bit 8 ?w0) OR push_bit 16 (?w0 OR push_bit 8 ?w0)) k \<longleftrightarrow>
      k < 32 \<and> bit byte (k mod 8)" for k
    using repeat_pattern [OF 1] by simp
  show ?thesis
    using repeat_pattern [OF 2, of k] unfolding memset_word_def Let_def push_bit_push_bit by simp
qed

lemma store64_memset_word: "store64 m d (memset_word byte) = fillblk m d (ucast byte) 8"
proof
  fix x
  have "le_bytes 8 (memset_word byte) ! i = ucast byte" if "i < 8" for i
  proof (rule bit_eqI)
    fix k
    assume "possible_bit TYPE(u8) k"
    then have "k < 8" by simp
    then show "bit (le_bytes 8 (memset_word byte) ! i) k \<longleftrightarrow> bit (ucast byte :: u8) k"
      using that by (simp add: nth_le_bytes bit_unsigned_iff bit_drop_bit_eq bit_memset_word)
  qed
  then show "store64 m d (memset_word byte) x = fillblk m d (ucast byte) 8 x"
    by (simp add: store64_def fillblk_def word_less_nat_alt)
qed

lemma set_words_run:
  assumes "unat d + 8 * k < 2 ^ 64" "8 * k \<le> 2 ^ 63"
  shows "set_words m d (memset_word byte) (d + of_nat (8 * k)) = Some (fillblk m d (ucast byte) (8 * k))"
  using assms
proof (induction k arbitrary: m d)
  case 0
  then show ?case by (simp add: set_words.simps)
next
  case (Suc k)
  have lt: "d < d + of_nat (8 * Suc k)"
    using Suc.prems by (simp only: word_less_nat_alt unat_add_of_nat) simp
  have e: "d + of_nat (8 * Suc k) = (d + 8) + of_nat (8 * k)" by simp
  have d8: "unat (d + 8) = unat d + 8" using unat_add_of_nat [of d 8] Suc.prems by simp
  have "set_words m d (memset_word byte) (d + of_nat (8 * Suc k)) =
      set_words (fillblk m d (ucast byte) 8) (d + 8) (memset_word byte) ((d + 8) + of_nat (8 * k))"
    using lt by (subst set_words.simps) (simp only: e store64_memset_word if_True)
  also have "\<dots> = Some (fillblk (fillblk m d (ucast byte) 8) (d + 8) (ucast byte) (8 * k))"
    using Suc.prems d8 by (intro Suc.IH) simp_all
  also have "\<dots> = Some (fillblk m d (ucast byte) (8 * Suc k))"
    using fillblk_compose [of 8 "8 * k" m d "ucast byte"] Suc.prems by simp
  finally show ?case .
qed

text \<open>A length whose three lowest bits are clear is a number of words.\<close>

lemma aligned_or: "(a OR b) AND 7 = 0 \<Longrightarrow> (b :: u64) AND 7 = 0"
  by (simp add: word_ao_dist or_eq_0_iff)

lemma and_7_unat: "(x :: u64) AND 7 = 0 \<Longrightarrow> \<exists>k. unat x = 8 * k"
proof -
  assume "x AND 7 = 0"
  then have "unat x mod 8 = 0" using unat_and_mask_u64 [of x 3] by simp
  then show ?thesis by (metis dvd_def mod_0_imp_dvd)
qed

subsection \<open>Properties of the block routines\<close>

text \<open>
  C32 (equivalence). \<^verbatim>\<open>memcpy\<close> terminates and is the block copy: its word-wise loop for aligned
  operands and its byte-wise loop have the same effect, which touches exactly the \<open>len\<close> bytes of the
  destination.
\<close>

theorem memcpy_correct:
  assumes "unat dest + unat len < 2 ^ 64" "unat len \<le> 2 ^ 63" "disjoint_blocks dest src (unat len)"
  shows "memcpy m dest src len = Some (blk m dest src (unat len))"
proof (cases "(dest OR src OR len) AND 7 = 0")
  case True
  then obtain k where k: "unat len = 8 * k"
    using aligned_or [of "dest OR src" len] and_7_unat by (auto simp: or.assoc)
  have "copy_words m dest src (dest + of_nat (unat len)) = Some (blk m dest src (unat len))"
    unfolding k using assms k by (intro copy_words_run) auto
  then show ?thesis using True by (simp add: memcpy_def)
next
  case False
  have "copy_bytes m dest src (dest + of_nat (unat len)) = Some (blk m dest src (unat len))"
    using assms by (rule copy_bytes_run)
  then show ?thesis using False by (simp add: memcpy_def)
qed

theorem memcpy_correct_witness:
  "memcpy ucast 0x100 0x200 16 = Some (blk ucast 0x100 0x200 16) \<and>
   memcpy ucast 0x101 0x200 3 = Some (blk ucast 0x101 0x200 3)"
proof -
  have "disjoint_blocks 0x100 0x200 16" "disjoint_blocks 0x101 0x200 3"
  proof -
    have "(0x200 :: u64) + of_nat i \<noteq> 0x100 + of_nat j" "(0x200 :: u64) + of_nat i \<noteq> 0x101 + of_nat j"
      if "i < 16" "j < 16" for i j
      using that of_nat_eq_iff_u64 [of "0x200 + i" "0x100 + j"] of_nat_eq_iff_u64 [of "0x200 + i" "0x101 + j"]
      by auto
    then show "disjoint_blocks 0x100 0x200 16" "disjoint_blocks 0x101 0x200 3"
      unfolding disjoint_blocks_def by auto
  qed
  then show ?thesis
    using memcpy_correct [of "0x100" 16 "0x200" ucast] memcpy_correct [of "0x101" 3 "0x200" ucast] by simp
qed

text \<open>
  \<^verbatim>\<open>memset\<close> terminates and fills exactly the \<open>len\<close> bytes with the lowest byte
  of its argument, on the path that stores eight copies at once as on the byte path.
\<close>

theorem memset_correct:
  assumes "unat dest + unat len < 2 ^ 64" "unat len \<le> 2 ^ 63"
  shows "memset m dest byte len = Some (fillblk m dest (ucast byte) (unat len))"
proof (cases "(dest OR len) AND 7 = 0")
  case True
  then obtain k where k: "unat len = 8 * k" using aligned_or [of dest len] and_7_unat by auto
  have "set_words m dest (memset_word byte) (dest + of_nat (unat len)) =
      Some (fillblk m dest (ucast byte) (unat len))"
    unfolding k using assms k by (intro set_words_run) auto
  then show ?thesis using True by (simp add: memset_def)
next
  case False
  have "set_bytes m dest (ucast byte) (dest + of_nat (unat len)) =
      Some (fillblk m dest (ucast byte) (unat len))"
    using assms by (rule set_bytes_run)
  then show ?thesis using False by (simp add: memset_def)
qed

theorem memset_correct_witness:
  "memset ucast 0x1000 0xAB 24 = Some (fillblk ucast 0x1000 0xAB 24)"
  using memset_correct [of "0x1000" 24 ucast "0xAB"] by simp

subsection \<open>Strings in memory\<close>

fun cstr :: "mem \<Rightarrow> u64 \<Rightarrow> u8 list \<Rightarrow> bool" where
  "cstr m s [] \<longleftrightarrow> m s = 0"
| "cstr m s (x # xs) \<longleftrightarrow> m s = x \<and> x \<noteq> 0 \<and> cstr m (s + 1) xs"

lemma strlen_loop_cstr: "cstr m s xs \<Longrightarrow> strlen_loop m s = Some (s + of_nat (length xs))"
  by (induction m s xs rule: cstr.induct) (simp_all add: strlen_loop.simps ac_simps)

lemma strlen_cstr: "cstr m s xs \<Longrightarrow> strlen m s = Some (of_nat (length xs))"
  by (simp add: strlen_def strlen_loop_cstr)

lemma cstr_nth: "cstr m s xs \<Longrightarrow> i < length xs \<Longrightarrow> m (s + of_nat i) = xs ! i"
proof (induction m s xs arbitrary: i rule: cstr.induct)
  case (2 m s x xs)
  then show ?case
    by (cases i) (auto simp: ac_simps)
qed simp

lemma cstr_append: "cstr m s (xs @ ys) \<Longrightarrow> cstr m (s + of_nat (length xs)) ys"
  by (induction xs arbitrary: s) (auto simp: add.assoc [symmetric])

lemma uchar_diff_sign: "uchar_diff a b = 0 \<longleftrightarrow> a = b" "uchar_diff a b < 0 \<longleftrightarrow> a < b"
  by (simp_all add: uchar_diff_def word_less_def word_eq_iff_unsigned [where ?'a = int])

text \<open>A store outside the string leaves it alone; one inside cuts it short.\<close>

lemma cstr_cut:
  assumes "cstr m s (xs @ ys)" "unat s + length xs < 2 ^ 64"
  shows "cstr (m(s + of_nat (length xs) := 0)) s xs"
  using assms
proof (induction xs arbitrary: s)
  case (Cons x xs)
  have ne: "s \<noteq> s + of_nat (length (x # xs))"
  proof
    assume "s = s + of_nat (length (x # xs))"
    then have "unat s = unat (s + of_nat (length (x # xs)))" by simp
    then show False using Cons.prems(2) by (simp only: unat_add_of_nat) simp
  qed
  have "unat (s + 1) = unat s + 1" using unat_add_of_nat [of s 1] Cons.prems by simp
  then have "cstr (m(s + 1 + of_nat (length xs) := 0)) (s + 1) xs"
    using Cons.prems by (intro Cons.IH) auto
  moreover have "s + 1 + of_nat (length xs) = s + of_nat (length (x # xs))" by simp
  ultimately show ?case using Cons.prems ne by (simp only: cstr.simps append.simps) simp
qed simp

text \<open>
  C33 (functional). \<^verbatim>\<open>strcmp\<close> terminates on two strings and its result has the sign of their
  lexicographic comparison by unsigned bytes, zero exactly for equal strings.
\<close>

theorem strcmp_lexicographic:
  assumes "cstr m a xs" "cstr m b ys"
  shows "\<exists>d. strcmp m a b = Some d \<and> (d = 0 \<longleftrightarrow> xs = ys) \<and> (d < 0 \<longleftrightarrow> (xs, ys) \<in> lexord {(u, v). u < v})"
  using assms
proof (induction xs arbitrary: a b ys)
  case Nil
  then show ?case
    by (cases ys) (auto simp: strcmp.simps [of m a b] uchar_diff_sign word_gt_0)
next
  case (Cons x xs)
  show ?case
  proof (cases ys)
    case Nil
    then show ?thesis using Cons.prems
      by (auto simp: strcmp.simps [of m a b] uchar_diff_sign)
  next
    case (Cons y ys')
    show ?thesis
    proof (cases "x = y")
      case True
      then show ?thesis using Cons.IH [of "a + 1" "b + 1" ys'] Cons.prems Cons
        by (auto simp: strcmp.simps [of m a b])
    next
      case False
      then show ?thesis using Cons.prems Cons
        by (auto simp: strcmp.simps [of m a b] uchar_diff_sign)
    qed
  qed
qed

definition str_mem :: "u64 \<Rightarrow> u8 list \<Rightarrow> mem \<Rightarrow> mem" where
  "str_mem a bs m = (\<lambda>x. if unat (x - a) < length bs then bs ! unat (x - a) else m x)"

theorem strcmp_lexicographic_witness:
  "\<exists>d. strcmp (str_mem 0x10 [0x61, 0x62, 0] (str_mem 0x20 [0x61, 0xE9, 0] (\<lambda>_. 0))) 0x10 0x20 = Some d \<and> d < 0"
proof -
  let ?m = "str_mem 0x10 [0x61, 0x62, 0] (str_mem 0x20 [0x61, 0xE9, 0] (\<lambda>_. 0))"
  have "cstr ?m 0x10 [0x61, 0x62]" "cstr ?m 0x20 [0x61, 0xE9]" by (simp_all add: str_mem_def)
  from strcmp_lexicographic [OF this] show ?thesis by auto
qed

subsection \<open>Properties of \<^verbatim>\<open>strtok\<close> and \<^verbatim>\<open>atol\<close>\<close>

lemma is_delim_cstr: "cstr m delim ds \<Longrightarrow> is_delim m delim (length ds) ch \<longleftrightarrow> ch \<in> set ds"
  by (auto simp: is_delim_def list_ex_iff cstr_nth in_set_conv_nth)

lemma less_end:
  assumes "unat (e :: u64) + Suc n < 2 ^ 64"
  shows "e < e + of_nat (Suc n)" "unat (e + 1) = unat e + 1"
proof -
  show "e < e + of_nat (Suc n)" using assms by (simp only: word_less_nat_alt unat_add_of_nat)
  show "unat (e + 1) = unat e + 1" using assms unat_add_of_nat [of e 1] by simp
qed

lemma strtok_scan_in:
  assumes "cstr m e xs" "unat e + length xs < 2 ^ 64"
    and P: "\<And>c. P c \<longleftrightarrow> \<not> is_delim m delim dl c"
  shows "strtok_scan m (e + of_nat (length xs)) delim dl e cur True =
    (let n = length (takeWhile P xs) in
     Some (if n < length xs then m(e + of_nat n := 0) else m, e + of_nat n, cur, True))"
  using assms(1,2)
proof (induction xs arbitrary: e)
  case Nil
  then show ?case by (simp add: strtok_scan.simps)
next
  case (Cons x xs)
  note le = less_end [of e "length xs"]
  have e: "e + of_nat (length (x # xs)) = (e + 1) + of_nat (length xs)" by simp
  have x: "m e = x" using Cons.prems by simp
  have lt: "e < e + of_nat (length (x # xs))" using le Cons.prems by simp
  have IH: "P x \<Longrightarrow> strtok_scan m ((e + 1) + of_nat (length xs)) delim dl (e + 1) cur True =
      (let n = length (takeWhile P xs) in
       Some (if n < length xs then m(e + 1 + of_nat n := 0) else m, e + 1 + of_nat n, cur, True))"
    using Cons.prems le by (intro Cons.IH) auto
  show ?case
  proof (cases "P x")
    case True
    then have "strtok_scan m (e + of_nat (length (x # xs))) delim dl e cur True =
        strtok_scan m ((e + 1) + of_nat (length xs)) delim dl (e + 1) cur True"
      using lt x by (subst strtok_scan.simps) (simp add: P add.assoc)
    then show ?thesis using IH True by (simp add: Let_def ac_simps)
  next
    case False
    then show ?thesis using lt x by (subst strtok_scan.simps) (simp add: P)
  qed
qed

lemma strtok_scan_out:
  assumes "cstr m e xs" "unat e + length xs < 2 ^ 64"
    and P: "\<And>c. P c \<longleftrightarrow> \<not> is_delim m delim dl c"
  shows "strtok_scan m (e + of_nat (length xs)) delim dl e cur False =
    (let k = length (takeWhile (\<lambda>c. \<not> P c) xs); ys = drop k xs; n = length (takeWhile P ys) in
     if ys = [] then Some (m, e + of_nat (length xs), cur, False)
     else Some (if n < length ys then m(e + of_nat (k + n) := 0) else m, e + of_nat (k + n),
                e + of_nat k, True))"
  using assms(1,2)
proof (induction xs arbitrary: e)
  case Nil
  then show ?case by (simp add: strtok_scan.simps)
next
  case (Cons x xs)
  note le = less_end [of e "length xs"]
  have e: "e + of_nat (length (x # xs)) = (e + 1) + of_nat (length xs)" by simp
  have x: "m e = x" using Cons.prems by simp
  have lt: "e < e + of_nat (length (x # xs))" using le Cons.prems by simp
  have pre: "cstr m (e + 1) xs" "unat (e + 1) + length xs < 2 ^ 64" using Cons.prems le by auto
  show ?case
  proof (cases "P x")
    case True
    then have "strtok_scan m (e + of_nat (length (x # xs))) delim dl e cur False =
        strtok_scan m ((e + 1) + of_nat (length xs)) delim dl (e + 1) e True"
      using lt x by (subst strtok_scan.simps) (simp add: P add.assoc)
    then show ?thesis using True strtok_scan_in [OF pre P, of e]
      by (simp add: Let_def ac_simps)
  next
    case False
    then have "strtok_scan m (e + of_nat (length (x # xs))) delim dl e cur False =
        strtok_scan m ((e + 1) + of_nat (length xs)) delim dl (e + 1) cur False"
      using lt x by (subst strtok_scan.simps) (simp add: P add.assoc)
    then show ?thesis using False Cons.IH [OF pre]
      by (simp add: Let_def ac_simps)
  qed
qed

text \<open>
  C35 (functional). The first call of \<^verbatim>\<open>strtok\<close> on a string finds its first token: it skips the
  leading delimiters, returns the start of the longest run of other characters, terminated in place,
  and remembers where to continue; it returns the null pointer, with the memory unchanged, exactly
  when the string has no token.
\<close>

theorem strtok_first_token:
  assumes "cstr m s xs" "s \<noteq> 0" "unat s + length xs < 2 ^ 64" "cstr m delim ds" "length ds < 2 ^ 32"
  defines "k \<equiv> length (takeWhile (\<lambda>c. c \<in> set ds) xs)"
  defines "tok \<equiv> takeWhile (\<lambda>c. c \<notin> set ds) (drop k xs)"
  shows "\<exists>r m' st'. strtok m st s delim = Some (r, m', st') \<and>
    (if tok = [] then r = 0 \<and> m' = m
     else r = s + of_nat k \<and> cstr m' r tok \<and> cur_ptr st' = r + of_nat (length tok) + 1 \<and>
       s_end st' = s + of_nat (length xs) \<and> (\<forall>x. x \<noteq> r + of_nat (length tok) \<longrightarrow> m' x = m x))"
proof -
  let ?dl = "unat (ucast (of_nat (length ds) :: u64) :: u32)"
  have dl: "?dl = length ds" using assms(5) 
    by (simp add: unsigned_ucast_eq unat_of_nat_u64 take_bit_nat_eq_self)
  have P: "is_delim m delim ?dl = (\<lambda>c. c \<in> set ds)" using is_delim_cstr [OF assms(4)] dl by auto
  have len: "strlen m s = Some (of_nat (length xs))" "strlen m delim = Some (of_nat (length ds))"
    using assms by (simp_all add: strlen_cstr)
  have nz: "s + of_nat (length xs) \<noteq> 0"
  proof
    assume "s + of_nat (length xs) = 0"
    then have "unat s + length xs = 0" using unat_add_of_nat [OF assms(3)] by simp
    then show False using assms(2) by (simp add: unsigned_eq_0_iff)
  qed
  show ?thesis
  proof (cases "xs = []")
    case True
    then show ?thesis using assms(2) len nz by (simp add: strtok_def tok_def)
  next
    case False
    then have ge: "\<not> s \<ge> s + of_nat (length xs)"
      using assms(3) by (simp add: not_le word_less_nat_alt unat_add_of_nat)
    have "strtok_scan m (s + of_nat (length xs)) delim ?dl s s False =
        (if drop k xs = [] then Some (m, s + of_nat (length xs), s, False)
         else Some (if length tok < length (drop k xs) then m(s + of_nat (k + length tok) := 0) else m,
                    s + of_nat (k + length tok), s + of_nat k, True))"
      using strtok_scan_out [OF assms(1,3), of "\<lambda>c. c \<notin> set ds" delim ?dl s]
      by (simp add: P k_def tok_def Let_def)
    note scan = this
    show ?thesis
    proof (cases "drop k xs = []")
      case True
      then show ?thesis using scan assms(2) len nz ge
        by (simp add: strtok_def tok_def)
    next
      case ys: False
      have hd: "tok \<noteq> []"
        using ys hd_dropWhile [of "\<lambda>c. c \<in> set ds" xs]
        by (cases "drop k xs") (auto simp: tok_def k_def dropWhile_eq_drop [symmetric])
      have tl: "length tok \<le> length (drop k xs)" unfolding tok_def by (rule length_takeWhile_le)
      obtain zs where zs: "drop k xs = tok @ zs" by (metis tok_def takeWhile_dropWhile_id)
      have at: "cstr m (s + of_nat k) (tok @ zs)"
      proof -
        have "k \<le> length xs" unfolding k_def by (rule length_takeWhile_le)
        moreover have "cstr m s (take k xs @ drop k xs)" using assms(1) by simp
        ultimately show ?thesis using cstr_append [of m s "take k xs" "drop k xs"] zs by simp
      qed
      have k: "k < length xs" using ys by simp
      then have bnd: "unat (s + of_nat k) + length tok < 2 ^ 64"
        using unat_add_of_nat [of s k] assms(3) tl by simp
      let ?e = "s + of_nat k + of_nat (length tok)"
      let ?m' = "if length tok < length (drop k xs) then m(?e := 0) else m"
      have "cstr ?m' (s + of_nat k) tok"
      proof (cases "length tok < length (drop k xs)")
        case True
        then show ?thesis using cstr_cut [OF at bnd] by simp
      next
        case False
        then have "zs = []" using zs tl by (metis length_append add_diff_cancel_left' le_antisym not_less
              length_0_conv diff_self_eq_0)
        then show ?thesis using False at by simp
      qed
      moreover have "s + of_nat (k + length tok) = ?e" by simp
      ultimately show ?thesis using scan assms(2) len nz ge ys hd
        by (auto simp: strtok_def add.assoc)
    qed
  qed
qed


text \<open>\<^verbatim>\<open>strtok(" ab c", " ")\<close>\<close>

theorem strtok_first_token_witness:
  "\<exists>m' st'. strtok (str_mem 0x10 [0x20, 0x61, 0x62, 0x20, 0x63, 0] (str_mem 0x40 [0x20, 0] (\<lambda>_. 0)))
      \<lparr>s_end = 0, cur_ptr = 0\<rparr> 0x10 0x40 = Some (0x11, m', st') \<and>
    cstr m' 0x11 [0x61, 0x62] \<and> cur_ptr st' = 0x14"
proof -
  let ?m = "str_mem 0x10 [0x20, 0x61, 0x62, 0x20, 0x63, 0] (str_mem 0x40 [0x20, 0] (\<lambda>_. 0))"
  have c: "cstr ?m 0x10 [0x20, 0x61, 0x62, 0x20, 0x63]" "cstr ?m 0x40 [0x20]"
    by (simp_all add: str_mem_def)
  show ?thesis
    using strtok_first_token [OF c(1) _ _ c(2), of "\<lparr>s_end = 0, cur_ptr = 0\<rparr>"] by auto
qed

lemma skip_spaces_cstr:
  "cstr m s (replicate k 0x20 @ xs) \<Longrightarrow> (xs = [] \<or> hd xs \<noteq> 0x20) \<Longrightarrow>
   skip_spaces m s = Some (s + of_nat k) \<and> cstr m (s + of_nat k) xs"
proof (induction k arbitrary: s)
  case 0
  then show ?case by (cases xs) (auto simp: skip_spaces.simps)
next
  case (Suc k)
  then show ?case using Suc.IH [of "s + 1"] by (simp add: skip_spaces.simps [of m s] ac_simps)
qed

lemma atol_loop_digits:
  assumes "cstr m s (map (\<lambda>d. 0x30 + of_nat d) ds)" "list_all (\<lambda>d. d < 10) ds"
  shows "atol_loop m s (of_nat acc) = Some (of_nat (foldl (\<lambda>a d. 10 * a + d) acc ds))"
  using assms
proof (induction ds arbitrary: s acc)
  case Nil
  then show ?case by (simp add: atol_loop.simps)
next
  case (Cons d ds)
  have d: "d < 10" using Cons.prems by simp
  have "unat (0x30 + of_nat d :: u8) = 0x30 + d"
    using d by (subst unat_add_lem [THEN iffD1]) (simp_all add: unat_of_nat)
  then have "(ucast (0x30 + of_nat d :: u8) :: u64) = of_nat (0x30 + d)"
    using of_nat_unat [of "0x30 + of_nat d :: u8", where ?'a = u64] by simp
  then have v: "(ucast (0x30 + of_nat d :: u8) :: u64) - 0x30 = of_nat d" by simp
  have "atol_loop m s (of_nat acc) = atol_loop m (s + 1) (of_nat (10 * acc + d))"
    using Cons.prems v by (subst atol_loop.simps) (simp add: mult.commute)
  then show ?case using Cons.IH [of "s + 1" "10 * acc + d"] Cons.prems by simp
qed

text \<open>
  \<^verbatim>\<open>atol\<close> reads back a decimal numeral: leading spaces are skipped, an optional
  sign is honoured, and the value is that of the digits, for every number that fits a
  \<^verbatim>\<open>long\<close>.
\<close>

theorem atol_decimal:
  assumes "cstr m s (replicate k 0x20 @ sg @ map (\<lambda>d. 0x30 + of_nat d) ds)"
    "list_all (\<lambda>d. d < 10) ds" "sg \<in> {[], [0x2d], [0x2b]}" "ds \<noteq> []"
    "foldl (\<lambda>a d. 10 * a + d) 0 ds < 2 ^ 63"
  shows "atol m s = Some ((if sg = [0x2d] then - 1 else 1) * int (foldl (\<lambda>a d. 10 * a + d) 0 ds))"
proof -
  let ?v = "foldl (\<lambda>a d. 10 * a + d) 0 ds" and ?ds = "map (\<lambda>d. 0x30 + of_nat d) ds :: u8 list"
  obtain d ds' where d: "ds = d # ds'" "d < 10" using assms(2,4) by (cases ds) auto
  have unat_d: "unat (0x30 + of_nat d :: u8) = 0x30 + d"
    using d(2) by (subst unat_add_lem [THEN iffD1]) (simp_all add: unat_of_nat)
  have nd: "(0x30 + of_nat d :: u8) \<noteq> 0x20" "(0x30 + of_nat d :: u8) \<noteq> 0x2d" "(0x30 + of_nat d :: u8) \<noteq> 0x2b"
    using unat_d d(2) by (auto simp: word_unat_eq_iff)
  have "hd (sg @ ?ds) \<noteq> 0x20" using assms(3) d nd by auto
  then have sk: "skip_spaces m s = Some (s + of_nat k)" "cstr m (s + of_nat k) (sg @ ?ds)"
    using skip_spaces_cstr [of m s k "sg @ ?ds"] assms(1) by auto
  have lp: "cstr m q ?ds \<Longrightarrow> atol_loop m q 0 = Some (of_nat ?v)" for q
    using atol_loop_digits [OF _ assms(2), of m q 0] by simp
  have sv: "sint (of_nat ?v :: u64) = int ?v" "sint (- of_nat ?v :: u64) = - int ?v"
    using assms(5) sint_of_int_u64 [of "int ?v"] sint_of_int_u64 [of "- int ?v"] by auto
  show ?thesis
    using assms(3) sk lp sv d nd
    by (auto simp: atol_def Let_def)
qed

text \<open>\<^verbatim>\<open>atol(" -42")\<close>\<close>

theorem atol_decimal_witness:
  "atol (str_mem 0x10 [0x20, 0x2d, 0x34, 0x32, 0] (\<lambda>_. 0)) 0x10 = Some (- 42)"
proof -
  let ?m = "str_mem 0x10 [0x20, 0x2d, 0x34, 0x32, 0] (\<lambda>_. 0)"
  have "cstr ?m 0x10 (replicate 1 0x20 @ [0x2d] @ map (\<lambda>d. 0x30 + of_nat d) [4, 2])"
    by (simp add: str_mem_def)
  from atol_decimal [OF this] show ?thesis by simp
qed

text \<open>
  A comparison of no bytes is not empty: the loops of \<^verbatim>\<open>memcmp\<close> and \<^verbatim>\<open>strncmp\<close> test
  the count only after the first pair of bytes, so that with a count of zero different first bytes give
  a nonzero result.
\<close>

theorem zero_length_compare:
  assumes "m p \<noteq> m q"
  shows "\<exists>d. memcmp m p q 0 = Some d \<and> strncmp m p q 0 = Some d \<and> d \<noteq> 0"
  using assms by (simp add: memcmp.simps [of m p q 0] strncmp.simps [of m p q 0] Let_def uchar_diff_sign)

theorem zero_length_compare_witness:
  "\<exists>d. memcmp ucast 1 2 0 = Some d \<and> strncmp ucast 1 2 0 = Some d \<and> d \<noteq> 0"
  using zero_length_compare [of ucast 1 2] by simp

end
