(* ===== verification/Devices.thy ===== *)
theory Devices
  imports Machine
begin

text \<open>
  The device drivers \<^verbatim>\<open>driver/uart.c\<close>, \<^verbatim>\<open>driver/rtc.c\<close> and \<^verbatim>\<open>driver/spi.c\<close>. A device is seen
  through its registers: \<open>wlog\<close> is what the driver has written, in order, and \<open>answers r\<close> are the
  values that the coming reads of register \<open>r\<close> return. A theorem that holds for all answers holds for
  every behaviour of the device. A driver that polls for longer than there are answers has not
  returned; its result is \<open>Inl ()\<close>.
\<close>

subsection \<open>Memory-mapped registers\<close>

record mmio =
  answers :: "u32 \<Rightarrow> u32 list"
  wlog :: "(u32 \<times> u32) list"

type_synonym 'a dev = "(mmio, unit, 'a) comp"

definition dev_wr :: "u32 \<Rightarrow> u32 \<Rightarrow> unit dev" where
  "dev_wr r v = modify (\<lambda>d. d\<lparr>wlog := wlog d @ [(r, v)]\<rparr>)"

definition dev_rd :: "u32 \<Rightarrow> u32 dev" where
  "dev_rd r d =
     (case answers d r of
        [] \<Rightarrow> Inl ()
      | v # vs \<Rightarrow> Inr (v, d\<lparr>answers := (answers d)(r := vs)\<rparr>))"

text \<open>\<^verbatim>\<open>while (!(*reg & mask));\<close>\<close>

definition dev_poll :: "u32 \<Rightarrow> u32 \<Rightarrow> unit dev" where
  "dev_poll r m d =
     (case dropWhile (\<lambda>v. v AND m = 0) (answers d r) of
        [] \<Rightarrow> Inl ()
      | _ # vs \<Rightarrow> Inr ((), d\<lparr>answers := (answers d)(r := vs)\<rparr>))"

text \<open>A loop that does \<open>f\<close> for each element of a list.\<close>

fun for_each :: "('a \<Rightarrow> ('s, 'e, unit) comp) \<Rightarrow> 'a list \<Rightarrow> ('s, 'e, unit) comp" where
  "for_each f [] = ret ()"
| "for_each f (x # xs) = ebind (f x) (\<lambda>_. for_each f xs)"

text \<open>A loop that collects \<open>n\<close> results of \<open>f\<close>.\<close>

fun collect :: "nat \<Rightarrow> ('s, 'e, 'a) comp \<Rightarrow> ('s, 'e, 'a list) comp" where
  "collect 0 f = ret []"
| "collect (Suc n) f = ebind f (\<lambda>x. ebind (collect n f) (\<lambda>xs. ret (x # xs)))"

subsection \<open>UART\<close>

definition UART_RBR :: u32 where "UART_RBR = 0"
definition UART_THR :: u32 where "UART_THR = 0"
definition UART_IER :: u32 where "UART_IER = 1"
definition UART_LCR :: u32 where "UART_LCR = 3"
definition UART_LSR :: u32 where "UART_LSR = 5"
definition UART_DLL :: u32 where "UART_DLL = 0"
definition UART_DLM :: u32 where "UART_DLM = 1"

lemmas uart_regs = UART_RBR_def UART_THR_def UART_IER_def UART_LCR_def UART_LSR_def UART_DLL_def
  UART_DLM_def

definition uart_init :: "unit dev" where
  "uart_init =
     ebind (dev_wr UART_LCR 0x80) (\<lambda>_.
     ebind (dev_wr UART_DLL (50 * 1000 * 1000 div (16 * 115200) mod 0x100)) (\<lambda>_.
     ebind (dev_wr UART_DLM (drop_bit 8 (50 * 1000 * 1000 div (16 * 115200)))) (\<lambda>_.
     ebind (dev_wr UART_LCR 0x0B) (\<lambda>_.
     dev_wr UART_IER 1))))"

definition uart_send :: "u8 \<Rightarrow> unit dev" where
  "uart_send data = ebind (dev_poll UART_LSR 0x40) (\<lambda>_. dev_wr UART_THR (ucast data))"

text \<open>The string up to its terminating zero.\<close>

definition uart_send_string :: "u8 list \<Rightarrow> unit dev" where
  "uart_send_string str =
     for_each (\<lambda>c. ebind (dev_poll UART_LSR 0x40) (\<lambda>_. dev_wr UART_THR (ucast c))) str"

definition uart_send_buf :: "u8 list \<Rightarrow> u32 \<Rightarrow> unit dev" where
  "uart_send_buf buf len =
     for_each (\<lambda>c. ebind (dev_poll UART_LSR 0x40) (\<lambda>_. dev_wr UART_THR (ucast c)))
       (take (nat (sint len)) buf)"

definition uart_recv :: "u8 dev" where
  "uart_recv =
     ebind (dev_poll UART_LSR 1) (\<lambda>_. ebind (dev_rd UART_RBR) (\<lambda>v. ret (ucast v)))"

definition uart_read_irq :: "u8 dev" where
  "uart_read_irq = ebind (dev_rd UART_RBR) (\<lambda>v. ret (ucast v))"

definition uart_check_read_irq :: "u8 dev" where
  "uart_check_read_irq = ebind (dev_rd UART_LSR) (\<lambda>v. ret (ucast (v AND 1)))"

definition uart_enable_read_irq :: "unit dev" where
  "uart_enable_read_irq = dev_wr UART_IER 1"

definition uart_disable_read_irq :: "unit dev" where
  "uart_disable_read_irq = dev_wr UART_IER 0"

subsection \<open>Real-time clock\<close>

text \<open>The two registers of a clock.\<close>

record rtc =
  rtc_time :: u64
  rtc_cmp :: u64

definition rtc_check_irq :: "rtc \<Rightarrow> bool" where
  "rtc_check_irq c \<longleftrightarrow> rtc_time c > rtc_cmp c"

definition rtc_write_cmp :: "u64 \<Rightarrow> rtc \<Rightarrow> rtc" where
  "rtc_write_cmp cmptime c = c\<lparr>rtc_cmp := cmptime\<rparr>"

definition rtc_update_cmp :: "u64 \<Rightarrow> rtc \<Rightarrow> rtc" where
  "rtc_update_cmp delta c = c\<lparr>rtc_cmp := rtc_time c + delta\<rparr>"

subsection \<open>SPI\<close>

definition SPI_PWR :: u32 where "SPI_PWR = 0"
definition SPI_GIER :: u32 where "SPI_GIER = 0x07"
definition SPI_SRR :: u32 where "SPI_SRR = 0x10"
definition SPI_CR :: u32 where "SPI_CR = 0x18"
definition SPI_SR :: u32 where "SPI_SR = 0x19"
definition SPI_DTR :: u32 where "SPI_DTR = 0x1A"
definition SPI_DRR :: u32 where "SPI_DRR = 0x1B"
definition SPI_SSR :: u32 where "SPI_SSR = 0x1C"

lemmas spi_regs = SPI_PWR_def SPI_GIER_def SPI_SRR_def SPI_CR_def SPI_SR_def SPI_DTR_def SPI_DRR_def
  SPI_SSR_def

definition spi_init :: "unit dev" where
  "spi_init =
     ebind (dev_wr SPI_PWR 1) (\<lambda>_.
     ebind (dev_wr SPI_SRR 0xa) (\<lambda>_.
     ebind (dev_wr SPI_CR 0xE4) (\<lambda>_.
     ebind (dev_wr SPI_GIER 0) (\<lambda>_.
     ebind (dev_wr SPI_CR 0x86) (\<lambda>_.
     dev_wr SPI_PWR 0)))))"

definition spi_disable :: "unit dev" where
  "spi_disable = ebind (dev_wr SPI_PWR 1) (\<lambda>_. dev_wr SPI_CR 0xE4)"

text \<open>\<^verbatim>\<open>GetBit(*(spi_base_ptr + SPI_SR), 2)\<close> is the transmit-empty flag.\<close>

definition spi_send :: "u8 \<Rightarrow> u8 dev" where
  "spi_send dat =
     ebind (dev_wr SPI_DTR (ucast dat)) (\<lambda>_.
     ebind (dev_poll SPI_SR 4) (\<lambda>_.
     ebind (dev_rd SPI_DRR) (\<lambda>v. ret (ucast v))))"

definition spi_send_multi :: "u8 list \<Rightarrow> u8 \<Rightarrow> unit dev" where
  "spi_send_multi dat n =
     ebind (for_each (\<lambda>b. dev_wr SPI_DTR (ucast b)) (take (unat n) dat)) (\<lambda>_.
     ebind (dev_poll SPI_SR 4) (\<lambda>_.
     dev_wr SPI_CR 0xC6))"

definition spi_recv_multi :: "u8 \<Rightarrow> u8 list dev" where
  "spi_recv_multi n =
     ebind (for_each (\<lambda>b. dev_wr SPI_DTR b) (replicate (unat n) 0xff)) (\<lambda>_.
     ebind (dev_poll SPI_SR 4) (\<lambda>_.
     collect (unat n) (ebind (dev_rd SPI_DRR) (\<lambda>v. ret (ucast v)))))"

definition spi_select_slave :: "unit dev" where
  "spi_select_slave = dev_wr SPI_SSR 0xFFFFFFFE"

definition spi_deselect_slave :: "unit dev" where
  "spi_deselect_slave = dev_wr SPI_SSR 0xFFFFFFFF"

subsection \<open>Lemmas\<close>

lemmas dev_simps = dev_wr_def dev_rd_def dev_poll_def exec_simps

text \<open>The bytes that a driver has put on the SPI bus.\<close>

definition dtr_bytes :: "mmio \<Rightarrow> u8 list" where
  "dtr_bytes d = map (ucast \<circ> snd) (filter (\<lambda>(r, v). r = SPI_DTR) (wlog d))"

lemma ucast_ucast_u8 [simp]: "(ucast (ucast (x :: u8) :: u32) :: u8) = x"
  by (rule bit_eqI) (auto simp: bit_unsigned_iff dest: bit_imp_le_length)

lemma dev_wr_apply: "dev_wr r v d = Inr ((), d\<lparr>wlog := wlog d @ [(r, v)]\<rparr>)"
  by (simp add: dev_wr_def modify_apply)

lemma for_each_wr:
  "for_each (\<lambda>b. dev_wr r (f b)) bs d = Inr ((), d\<lparr>wlog := wlog d @ map (\<lambda>b. (r, f b)) bs\<rparr>)"
  by (induction bs arbitrary: d) (simp_all add: dev_simps)

text \<open>
  A status register that always reports ready: \<open>spi_bus d k xs\<close> holds when at least \<open>k\<close> polls will be
  answered, all with the flag set, and the bus returns the bytes \<open>xs\<close>.
\<close>

definition spi_bus :: "mmio \<Rightarrow> nat \<Rightarrow> u8 list \<Rightarrow> bool" where
  "spi_bus d k xs \<longleftrightarrow> k \<le> length (answers d SPI_SR) \<and>
     list_all (\<lambda>v. v AND 4 \<noteq> 0) (answers d SPI_SR) \<and> answers d SPI_DRR = map ucast xs"

text \<open>After the bytes \<open>out\<close> have been sent and the registers \<open>ws\<close> written.\<close>

definition sent :: "u8 list \<Rightarrow> mmio \<Rightarrow> mmio \<Rightarrow> bool" where
  "sent out d d' \<longleftrightarrow> dtr_bytes d' = dtr_bytes d @ out"

lemma sent_Nil [simp]: "sent [] d d"
  by (simp add: sent_def)

lemma sent_trans: "sent a d d' \<Longrightarrow> sent b d' d'' \<Longrightarrow> sent (a @ b) d d''"
  by (simp add: sent_def)

lemma poll_ready:
  assumes "spi_bus d (Suc k) xs"
  obtains d' where "dev_poll SPI_SR 4 d = Inr ((), d')" "spi_bus d' k xs" "wlog d' = wlog d"
proof -
  obtain v vs where v: "answers d SPI_SR = v # vs" "v AND 4 \<noteq> 0"
    using assms by (cases "answers d SPI_SR") (auto simp: spi_bus_def)
  let ?d = "d\<lparr>answers := (answers d)(SPI_SR := vs)\<rparr>"
  have "dev_poll SPI_SR 4 d = Inr ((), ?d)" using v by (simp add: dev_poll_def)
  moreover have "spi_bus ?d k xs" using assms v by (auto simp: spi_bus_def spi_regs)
  ultimately show ?thesis using that by simp
qed

lemma spi_send_bus:
  assumes "spi_bus d (Suc k) (x # xs)"
  obtains d' where "spi_send b d = Inr (x, d')" "spi_bus d' k xs" "sent [b] d d'"
proof -
  let ?d1 = "d\<lparr>wlog := wlog d @ [(SPI_DTR, ucast b)]\<rparr>"
  have "spi_bus ?d1 (Suc k) (x # xs)" using assms by (simp add: spi_bus_def)
  then obtain d2 where d2: "dev_poll SPI_SR 4 ?d1 = Inr ((), d2)" "spi_bus d2 k (x # xs)" "wlog d2 = wlog ?d1"
    by (rule poll_ready)
  let ?d3 = "d2\<lparr>answers := (answers d2)(SPI_DRR := map ucast xs)\<rparr>"
  have "answers d2 SPI_DRR = ucast x # map ucast xs" using d2(2) by (simp add: spi_bus_def)
  then have "spi_send b d = Inr (x, ?d3)"
    using d2(1) by (simp add: spi_send_def dev_wr_def dev_rd_def exec_simps)
  moreover have "spi_bus ?d3 k xs" using d2(2) by (auto simp: spi_bus_def spi_regs)
  moreover have "sent [b] d ?d3" using d2(3) by (simp add: sent_def dtr_bytes_def)
  ultimately show ?thesis using that by blast
qed

lemma collect_drr:
  assumes "spi_bus d k (ys @ xs)"
  obtains d' where "collect (length ys) (ebind (dev_rd SPI_DRR) (\<lambda>v. ret (ucast v))) d = Inr (ys, d')"
    "spi_bus d' k xs" "wlog d' = wlog d"
  using assms
proof (induction ys arbitrary: d thesis)
  case (Cons y ys)
  let ?d = "d\<lparr>answers := (answers d)(SPI_DRR := map ucast (ys @ xs))\<rparr>"
  have a: "answers d SPI_DRR = ucast y # map ucast (ys @ xs)" using Cons.prems(2) by (simp add: spi_bus_def)
  have "spi_bus ?d k (ys @ xs)" using Cons.prems(2) by (auto simp: spi_bus_def spi_regs)
  then obtain d' where d': "collect (length ys) (ebind (dev_rd SPI_DRR) (\<lambda>v. ret (ucast v))) ?d = Inr (ys, d')"
      "spi_bus d' k xs" "wlog d' = wlog ?d"
    using Cons.IH by blast
  have "collect (length (y # ys)) (ebind (dev_rd SPI_DRR) (\<lambda>v. ret (ucast v))) d = Inr (y # ys, d')"
    using a d'(1) by (simp add: dev_rd_def exec_simps)
  then show ?case using Cons.prems(1) d' by simp
qed (simp add: exec_simps)

lemma spi_recv_multi_bus:
  assumes "spi_bus d (Suc k) (ys @ xs)" "length ys = unat n"
  obtains d' where "spi_recv_multi n d = Inr (ys, d')" "spi_bus d' k xs" "sent (replicate (unat n) 0xff) d d'"
proof -
  let ?d1 = "d\<lparr>wlog := wlog d @ map (\<lambda>b. (SPI_DTR, b)) (replicate (unat n) 0xff)\<rparr>"
  have "spi_bus ?d1 (Suc k) (ys @ xs)" using assms by (simp add: spi_bus_def)
  then obtain d2 where d2: "dev_poll SPI_SR 4 ?d1 = Inr ((), d2)" "spi_bus d2 k (ys @ xs)" "wlog d2 = wlog ?d1"
    by (rule poll_ready)
  obtain d3 where d3: "collect (length ys) (ebind (dev_rd SPI_DRR) (\<lambda>v. ret (ucast v))) d2 = Inr (ys, d3)"
      "spi_bus d3 k xs" "wlog d3 = wlog d2"
    using d2(2) by (rule collect_drr)
  have "spi_recv_multi n d = Inr (ys, d3)"
    using d2(1) d3(1) assms(2) by (simp add: spi_recv_multi_def exec_simps for_each_wr)
  moreover have "sent (replicate (unat n) 0xff) d d3"
    using d2(3) d3(3) by (simp add: sent_def dtr_bytes_def)
  ultimately show ?thesis using that d3(2) by blast
qed

lemma spi_send_multi_bus:
  assumes "spi_bus d (Suc k) xs" "unat n \<le> length bs"
  obtains d' where "spi_send_multi bs n d = Inr ((), d')" "spi_bus d' k xs" "sent (take (unat n) bs) d d'"
proof -
  let ?d1 = "d\<lparr>wlog := wlog d @ map (\<lambda>b. (SPI_DTR, ucast b)) (take (unat n) bs)\<rparr>"
  have "spi_bus ?d1 (Suc k) xs" using assms by (simp add: spi_bus_def)
  then obtain d2 where d2: "dev_poll SPI_SR 4 ?d1 = Inr ((), d2)" "spi_bus d2 k xs" "wlog d2 = wlog ?d1"
    by (rule poll_ready)
  let ?d3 = "d2\<lparr>wlog := wlog d2 @ [(SPI_CR, 0xC6)]\<rparr>"
  have "spi_send_multi bs n d = Inr ((), ?d3)"
    using d2(1) by (simp add: spi_send_multi_def exec_simps for_each_wr dev_wr_apply)
  moreover have "spi_bus ?d3 k xs" using d2(2) by (simp add: spi_bus_def)
  moreover have "sent (take (unat n) bs) d ?d3"
    using d2(3) by (simp add: sent_def dtr_bytes_def spi_regs filter_map o_def)
  ultimately show ?thesis using that by blast
qed

end
