(* ===== verification/Sdcard.thy ===== *)
theory Sdcard
  imports Devices
begin

text \<open>
  The SD-card driver \<^verbatim>\<open>driver/diskio.c\<close> on top of the SPI driver: the exchange of bytes, command and
  data packets, initialisation of the card, and the sector operations that FatFs calls. The card
  itself is given by its answers on the bus (\<^verbatim>\<open>Devices\<close>).
\<close>

subsection \<open>State\<close>

record disk =
  spi_dev :: mmio
  dstat :: u8
  card_type :: u8

text \<open>A run can wait for the bus for ever, or shift by a negative amount, which C leaves undefined.\<close>

datatype disk_exit = Bus_Stuck | Undef_Shift

datatype dresult = RES_OK | RES_ERROR | RES_WRPRT | RES_NOTRDY | RES_PARERR

type_synonym 'a dk = "(disk, disk_exit, 'a) comp"

definition on_spi :: "'a dev \<Rightarrow> 'a dk" where
  "on_spi m d =
     (case m (spi_dev d) of
        Inl _ \<Rightarrow> Inl Bus_Stuck
      | Inr (a, s) \<Rightarrow> Inr (a, d\<lparr>spi_dev := s\<rparr>))"

definition STA_NOINIT :: u8 where "STA_NOINIT = 1"
definition STA_NODISK :: u8 where "STA_NODISK = 2"
definition STA_PROTECT :: u8 where "STA_PROTECT = 4"

definition CT_MMC :: u8 where "CT_MMC = 1"
definition CT_SD1 :: u8 where "CT_SD1 = 2"
definition CT_SD2 :: u8 where "CT_SD2 = 4"
definition CT_SDC :: u8 where "CT_SDC = CT_SD1 OR CT_SD2"
definition CT_BLOCK :: u8 where "CT_BLOCK = 8"

lemmas disk_flags = STA_NOINIT_def STA_NODISK_def STA_PROTECT_def CT_MMC_def CT_SD1_def CT_SD2_def
  CT_SDC_def CT_BLOCK_def

subsection \<open>Bytes and packets\<close>

text \<open>The busy-wait of \<^verbatim>\<open>power_on\<close> after \<^verbatim>\<open>spi_init\<close> has no effect on the state.\<close>

definition power_on :: "unit dk" where
  "power_on = on_spi spi_init"

definition power_off :: "unit dk" where
  "power_off = on_spi spi_disable"

definition xchg_spi :: "u8 \<Rightarrow> u8 dk" where
  "xchg_spi dat = on_spi (spi_send dat)"

text \<open>The two block loops advance by the 16 bytes of the FIFO.\<close>

function xmit_spi_loop :: "nat \<Rightarrow> u8 list \<Rightarrow> nat \<Rightarrow> unit dk" where
  "xmit_spi_loop i p cnt =
     (if i < cnt then
        ebind (on_spi (spi_send_multi (drop i p) (if i + 16 \<le> cnt then 16 else of_nat (cnt - i)))) (\<lambda>_.
          xmit_spi_loop (i + 16) p cnt)
      else ret ())"
  by auto
termination by (relation "measure (\<lambda>(i, p, cnt). cnt - i)") auto

definition xmit_spi_multi :: "u8 list \<Rightarrow> nat \<Rightarrow> unit dk" where
  "xmit_spi_multi p cnt = xmit_spi_loop 0 p cnt"

function rcvr_spi_loop :: "nat \<Rightarrow> nat \<Rightarrow> u8 list dk" where
  "rcvr_spi_loop i cnt =
     (if i < cnt then
        ebind (on_spi (spi_recv_multi (if i + 16 \<le> cnt then 16 else of_nat (cnt - i)))) (\<lambda>bs.
        ebind (rcvr_spi_loop (i + 16) cnt) (\<lambda>rest. ret (bs @ rest)))
      else ret [])"
  by auto
termination by (relation "measure (\<lambda>(i, cnt). cnt - i)") auto

definition rcvr_spi_multi :: "nat \<Rightarrow> u8 list dk" where
  "rcvr_spi_multi cnt = rcvr_spi_loop 0 cnt"

declare xmit_spi_loop.simps [simp del] rcvr_spi_loop.simps [simp del]

text \<open>
  \<^verbatim>\<open>do { d = xchg_spi(0xFF); timeout--; } while (again(d) && timeout);\<close> with \<open>n + 1\<close> the value of
  \<^verbatim>\<open>timeout\<close> before the loop.
\<close>

primrec retry :: "(u8 \<Rightarrow> bool) \<Rightarrow> nat \<Rightarrow> u8 dk" where
  "retry again 0 = xchg_spi 0xFF"
| "retry again (Suc n) = ebind (xchg_spi 0xFF) (\<lambda>d. if again d then retry again n else ret d)"

definition wait_ready :: "u32 \<Rightarrow> bool dk" where
  "wait_ready wt = ebind (retry (\<lambda>d. d \<noteq> 0xFF) (unat (wt * 5000 - 1))) (\<lambda>d. ret (d = 0xFF))"

definition deselect :: "unit dk" where
  "deselect = on_spi spi_deselect_slave"

definition select :: "bool dk" where
  "select =
     ebind (on_spi spi_select_slave) (\<lambda>_.
     ebind (wait_ready 500) (\<lambda>ok. if ok then ret True else ebind deselect (\<lambda>_. ret False)))"

text \<open>The received block, or \<open>None\<close> for the return value 0.\<close>

definition rcvr_datablock :: "nat \<Rightarrow> u8 list option dk" where
  "rcvr_datablock btr =
     ebind (retry (\<lambda>t. t = 0xFF) (unat (200 * 5000 - 1 :: u32))) (\<lambda>token.
       if token \<noteq> 0xFE then ret None
       else
         ebind (rcvr_spi_multi btr) (\<lambda>bs.
         ebind (xchg_spi 0xFF) (\<lambda>_.
         ebind (xchg_spi 0xFF) (\<lambda>_. ret (Some bs)))))"

text \<open>\<^verbatim>\<open>while (xchg_spi(0xFF) == 0x00);\<close>\<close>

lemma on_spi_Inr:
  "on_spi m d = Inr (a, d') \<longleftrightarrow> (\<exists>s. m (spi_dev d) = Inr (a, s) \<and> d' = d\<lparr>spi_dev := s\<rparr>)"
  by (auto simp: on_spi_def split: sum.splits)

lemma xchg_spi_consumes:
  assumes "xchg_spi b d = Inr (r, d')"
  shows "length (answers (spi_dev d') SPI_DRR) < length (answers (spi_dev d) SPI_DRR)"
proof -
  obtain s where s: "spi_send b (spi_dev d) = Inr (r, s)" "spi_dev d' = s"
    using assms by (auto simp: xchg_spi_def on_spi_Inr)
  have "SPI_SR \<noteq> SPI_DRR" by (simp add: spi_regs)
  then show ?thesis using s(1) unfolding s(2)
    by (auto simp: spi_send_def dev_simps split: list.splits sum.splits)
qed

function crc_wait :: "disk \<Rightarrow> disk_exit + unit \<times> disk" where
  "crc_wait d =
     (case xchg_spi 0xFF d of
        Inl e \<Rightarrow> Inl e
      | Inr (r, d') \<Rightarrow> if r = 0 then crc_wait d' else Inr ((), d'))"
  by auto
termination
  by (relation "measure (\<lambda>d. length (answers (spi_dev d) SPI_DRR))") (auto dest!: xchg_spi_consumes)

declare crc_wait.simps [simp del]

definition xmit_datablock :: "u8 list \<Rightarrow> u8 \<Rightarrow> bool dk" where
  "xmit_datablock buff token =
     ebind (wait_ready 500) (\<lambda>ok.
       if \<not> ok then ret False
       else
         ebind (xchg_spi token) (\<lambda>_.
         ebind
           (if token \<noteq> 0xFD then
              ebind (xmit_spi_multi buff 512) (\<lambda>_.
              ebind crc_wait (\<lambda>_.
              ebind crc_wait (\<lambda>_.
              ebind (xchg_spi 0xFF) (\<lambda>resp. ret (resp AND 0x1F = 0x05)))))
            else ret True)
           (\<lambda>accepted.
              if \<not> accepted then ret False else ebind (wait_ready 500) (\<lambda>_. ret True))))"

text \<open>A command without the \<^verbatim>\<open>ACMD\<close> prefix, and \<^verbatim>\<open>send_cmd\<close> itself.\<close>

definition cmd_crc :: "u8 \<Rightarrow> u8" where
  "cmd_crc cmd = (if cmd = 8 then 0x87 else if cmd = 0 then 0x95 else 0x01)"

definition send_packet :: "u8 \<Rightarrow> u32 \<Rightarrow> u8 dk" where
  "send_packet cmd arg =
     ebind (if cmd \<noteq> 12 then ebind deselect (\<lambda>_. select) else ret True) (\<lambda>ok.
       if \<not> ok then ret 0xFF
       else
         ebind (xchg_spi (0x40 OR cmd)) (\<lambda>_.
         ebind (xchg_spi (ucast (drop_bit 24 arg))) (\<lambda>_.
         ebind (xchg_spi (ucast (drop_bit 16 arg))) (\<lambda>_.
         ebind (xchg_spi (ucast (drop_bit 8 arg))) (\<lambda>_.
         ebind (xchg_spi (ucast arg)) (\<lambda>_.
         ebind (xchg_spi (cmd_crc cmd)) (\<lambda>_.
         ebind (if cmd = 12 then xchg_spi 0xFF else ret 0) (\<lambda>_.
           retry (\<lambda>res. res AND 0x80 \<noteq> 0) 9))))))))"

definition send_cmd :: "u8 \<Rightarrow> u32 \<Rightarrow> u8 dk" where
  "send_cmd cmd arg =
     (if cmd AND 0x80 \<noteq> 0 then
        ebind (send_packet 55 0) (\<lambda>res. if res > 1 then ret res else send_packet (cmd AND 0x7F) arg)
      else send_packet cmd arg)"

subsection \<open>Initialisation\<close>

text \<open>
  \<^verbatim>\<open>while (timeout-- && send_cmd(cmd, arg)) ...;\<close> and the value of \<^verbatim>\<open>timeout\<close> afterwards. A loop
  that runs out leaves the counter at \<open>2\<^sup>3\<^sup>2 - 1\<close>. The delay in the body does not touch the card.
\<close>

primrec cmd_wait :: "u8 \<Rightarrow> u32 \<Rightarrow> nat \<Rightarrow> u32 dk" where
  "cmd_wait cmd arg 0 = ret (- 1)"
| "cmd_wait cmd arg (Suc n) =
     ebind (send_cmd cmd arg) (\<lambda>r. if r \<noteq> 0 then cmd_wait cmd arg n else ret (of_nat n))"

text \<open>The branch for a card that has answered \<^verbatim>\<open>CMD8\<close>; the result is \<^verbatim>\<open>ty\<close>.\<close>

definition init_sd2 :: "u32 \<Rightarrow> u8 dk" where
  "init_sd2 timeout =
     ebind (collect 4 (xchg_spi 0xFF)) (\<lambda>ocr.
       if ocr ! 2 = 0x01 \<and> ocr ! 3 = 0xAA then
         ebind (cmd_wait (0x80 + 41) (push_bit 30 1) (unat timeout)) (\<lambda>timeout.
           if timeout \<noteq> 0 then
             ebind (send_cmd 58 0) (\<lambda>r.
               if r = 0 then
                 ebind (collect 4 (xchg_spi 0xFF)) (\<lambda>ocr.
                   ret (if ocr ! 0 AND 0x40 \<noteq> 0 then CT_SD2 OR CT_BLOCK else CT_SD2))
               else ret 0)
           else ret 0)
       else ret 0)"

text \<open>The branch for the older cards.\<close>

definition init_legacy :: "u32 \<Rightarrow> u8 dk" where
  "init_legacy timeout =
     ebind
       (if timeout \<noteq> 0 then
          ebind (send_cmd (0x80 + 41) 0) (\<lambda>r.
            ret (if r \<le> 1 then (CT_SD1, 0x80 + 41) else (CT_MMC, 1)))
        else ret (CT_MMC, 1))
       (\<lambda>(ty, cmd).
         ebind (cmd_wait cmd 0 (unat (timeout - 1))) (\<lambda>timeout.
           if timeout \<noteq> 0 then ret 0
           else ebind (send_cmd 16 512) (\<lambda>r. ret (if r \<noteq> 0 then 0 else ty))))"

definition disk_initialize :: "u8 \<Rightarrow> u8 dk" where
  "disk_initialize pdrv =
     (if pdrv \<noteq> 0 then ret STA_NOINIT
      else
        ebind power_off (\<lambda>_.
        ebind (gets dstat) (\<lambda>st.
          if st AND STA_NODISK \<noteq> 0 then ret st
          else
            ebind power_on (\<lambda>_.
            ebind (collect 10 (xchg_spi 0xFF)) (\<lambda>_.
            ebind (send_cmd 0 0) (\<lambda>r0.
            ebind
              (if r0 = 1 then
                 ebind (send_cmd 8 0x1AA) (\<lambda>r8.
                   if r8 = 1 then init_sd2 (1000 * 1000 - 1) else init_legacy (1000 * 1000 - 1))
               else ret 0)
              (\<lambda>ty.
                ebind (modify (\<lambda>d. d\<lparr>card_type := ty\<rparr>)) (\<lambda>_.
                ebind deselect (\<lambda>_.
                ebind (if ty \<noteq> 0 then modify (\<lambda>d. d\<lparr>dstat := dstat d AND NOT STA_NOINIT\<rparr>) else power_off) (\<lambda>_.
                  gets dstat))))))))))"

definition disk_status :: "u8 \<Rightarrow> u8 dk" where
  "disk_status pdrv = (if pdrv \<noteq> 0 then ret STA_NOINIT else gets dstat)"

subsection \<open>Sectors\<close>

text \<open>
  The loop of \<^verbatim>\<open>disk_read\<close>: the bytes stored into \<^verbatim>\<open>buff\<close>, and what is left of \<^verbatim>\<open>count\<close>.
\<close>

primrec read_blocks :: "nat \<Rightarrow> (u8 list \<times> nat) dk" where
  "read_blocks 0 = ret ([], 0)"
| "read_blocks (Suc n) =
     ebind (rcvr_datablock 512) (\<lambda>b.
       case b of
         None \<Rightarrow> ret ([], Suc n)
       | Some bs \<Rightarrow> ebind (read_blocks n) (\<lambda>(rest, k). ret (bs @ rest, k)))"

definition sector_addr :: "u32 \<Rightarrow> disk \<Rightarrow> u32" where
  "sector_addr sector d = (if card_type d AND CT_BLOCK = 0 then sector * 512 else sector)"

definition disk_read :: "u8 \<Rightarrow> u32 \<Rightarrow> u32 \<Rightarrow> (dresult \<times> u8 list) dk" where
  "disk_read pdrv sector count =
     (if pdrv \<noteq> 0 \<or> count = 0 then ret (RES_PARERR, [])
      else
        ebind (gets dstat) (\<lambda>st.
          if st AND STA_NOINIT \<noteq> 0 then ret (RES_NOTRDY, [])
          else
            ebind (gets (sector_addr sector)) (\<lambda>addr.
              let cmd = (if count > 1 then 18 else 17) in
              ebind (send_cmd cmd addr) (\<lambda>r.
              ebind
                (if r = 0 then
                   ebind (read_blocks (unat count)) (\<lambda>res.
                   ebind (if cmd = 18 then send_cmd 12 0 else ret 0) (\<lambda>_. ret res))
                 else ret ([], unat count))
                (\<lambda>(bs, left).
                  ebind deselect (\<lambda>_. ret (if left \<noteq> 0 then RES_ERROR else RES_OK, bs)))))))"

primrec write_blocks :: "nat \<Rightarrow> u8 list \<Rightarrow> nat dk" where
  "write_blocks 0 buff = ret 0"
| "write_blocks (Suc n) buff =
     ebind (xmit_datablock buff 0xFC) (\<lambda>ok. if ok then write_blocks n (drop 512 buff) else ret (Suc n))"

definition disk_write :: "u8 \<Rightarrow> u8 list \<Rightarrow> u32 \<Rightarrow> u32 \<Rightarrow> dresult dk" where
  "disk_write pdrv buff sector count =
     (if pdrv \<noteq> 0 \<or> count = 0 then ret RES_PARERR
      else
        ebind (gets dstat) (\<lambda>st.
          if st AND STA_NOINIT \<noteq> 0 then ret RES_NOTRDY
          else if st AND STA_PROTECT \<noteq> 0 then ret RES_WRPRT
          else
            ebind (gets (\<lambda>d. (sector_addr sector d, card_type d))) (\<lambda>(addr, ct).
            ebind
              (if count = 1 then
                 ebind (send_cmd 24 addr) (\<lambda>r.
                   if r = 0 then ebind (xmit_datablock buff 0xFE) (\<lambda>ok. ret (if ok then 0 else 1))
                   else ret 1)
               else
                 ebind (if ct AND CT_SDC \<noteq> 0 then send_cmd (0x80 + 23) count else ret 0) (\<lambda>_.
                 ebind (send_cmd 25 addr) (\<lambda>r.
                   if r = 0 then
                     ebind (write_blocks (unat count) buff) (\<lambda>left.
                     ebind (xmit_datablock [] 0xFD) (\<lambda>ok. ret (if ok then left else 1)))
                   else ret (unat count))))
              (\<lambda>left.
                ebind deselect (\<lambda>_. ret (if left \<noteq> 0 then RES_ERROR else RES_OK))))))"

subsection \<open>Control operations\<close>

text \<open>
  The number of sectors and the erase block size from the 16 bytes of the CSD register; \<open>None\<close> is a
  shift by a negative amount.
\<close>

definition csd_sector_count :: "u8 list \<Rightarrow> u32 option" where
  "csd_sector_count csd =
     (if drop_bit 6 (csd ! 0) = 1 then
        Some (push_bit 10 (ucast (csd ! 9) + push_bit 8 (ucast (csd ! 8))
          + push_bit 16 (ucast (csd ! 7 AND 63)) + 1))
      else
        (let n = (csd ! 5 AND 15) + drop_bit 7 (csd ! 10 AND 128) + push_bit 1 (csd ! 9 AND 3) + 2;
             csize = ucast (drop_bit 6 (csd ! 8)) + push_bit 2 (ucast (csd ! 7))
               + push_bit 10 (ucast (csd ! 6 AND 3)) + 1
         in if n < 9 then None else Some (push_bit (unat n - 9) csize)))"

definition csd_block_size :: "u8 \<Rightarrow> u8 list \<Rightarrow> u32 option" where
  "csd_block_size ct csd =
     (if ct AND CT_SD1 \<noteq> 0 then
        (let s = unat (drop_bit 6 (csd ! 13)) in
         if s = 0 then None
         else Some (push_bit (s - 1)
           (push_bit 1 (ucast (csd ! 10 AND 63)) + ucast (drop_bit 7 (csd ! 11 AND 128)) + 1)))
      else
        Some ((ucast (drop_bit 2 (csd ! 10 AND 124)) + 1) *
          (push_bit 3 (ucast (csd ! 11 AND 3)) + ucast (drop_bit 5 (csd ! 11 AND 224)) + 1)))"

definition undef_shift :: "'a dk" where
  "undef_shift d = Inl Undef_Shift"

text \<open>A 32-bit value as it is stored into \<^verbatim>\<open>*buff\<close>.\<close>

definition u32_bytes :: "u32 \<Rightarrow> u8 list" where
  "u32_bytes w = le_bytes 4 (ucast w)"

definition read_register :: "u8 \<Rightarrow> nat \<Rightarrow> u8 list option dk" where
  "read_register cmd n =
     ebind (send_cmd cmd 0) (\<lambda>r. if r = 0 then rcvr_datablock n else ret None)"

definition read_sd_status :: "nat \<Rightarrow> u8 list option dk" where
  "read_sd_status n =
     ebind (send_cmd (0x80 + 13) 0) (\<lambda>r.
       if r = 0 then ebind (xchg_spi 0xFF) (\<lambda>_. rcvr_datablock n) else ret None)"

definition ioctl_reply :: "u8 list option \<Rightarrow> dresult \<times> u8 list" where
  "ioctl_reply b = (case b of None \<Rightarrow> (RES_ERROR, []) | Some bs \<Rightarrow> (RES_OK, bs))"

text \<open>The value that a register yields is stored, if it is defined.\<close>

definition store_u32 :: "u32 option \<Rightarrow> (dresult \<times> u8 list) dk" where
  "store_u32 v = (case v of None \<Rightarrow> undef_shift | Some w \<Rightarrow> ret (RES_OK, u32_bytes w))"

definition ioctl_command :: "u8 \<Rightarrow> (dresult \<times> u8 list) dk" where
  "ioctl_command cmd =
     (if cmd = 0 then ebind select (\<lambda>ok. ret (if ok then RES_OK else RES_ERROR, []))
      else if cmd = 1 then
        ebind (read_register 9 16) (\<lambda>b.
          case b of None \<Rightarrow> ret (RES_ERROR, []) | Some csd \<Rightarrow> store_u32 (csd_sector_count csd))
      else if cmd = 3 then
        ebind (gets card_type) (\<lambda>ct.
          if ct AND CT_SD2 \<noteq> 0 then
            ebind (read_sd_status 16) (\<lambda>b.
              case b of
                None \<Rightarrow> ret (RES_ERROR, [])
              | Some csd \<Rightarrow>
                  ebind (collect 48 (xchg_spi 0xFF)) (\<lambda>_.
                    store_u32 (Some (push_bit (unat (drop_bit 4 (csd ! 10))) 16))))
          else
            ebind (read_register 9 16) (\<lambda>b.
              case b of None \<Rightarrow> ret (RES_ERROR, []) | Some csd \<Rightarrow> store_u32 (csd_block_size ct csd)))
      else if cmd = 50 then ebind (gets card_type) (\<lambda>ct. ret (RES_OK, [ct]))
      else if cmd = 51 then ebind (read_register 9 16) (\<lambda>b. ret (ioctl_reply b))
      else if cmd = 52 then ebind (read_register 10 16) (\<lambda>b. ret (ioctl_reply b))
      else if cmd = 53 then
        ebind (send_cmd 58 0) (\<lambda>r.
          if r = 0 then ebind (collect 4 (xchg_spi 0xFF)) (\<lambda>bs. ret (RES_OK, bs)) else ret (RES_ERROR, []))
      else if cmd = 54 then ebind (read_sd_status 64) (\<lambda>b. ret (ioctl_reply b))
      else if cmd = 7 then
        ebind power_off (\<lambda>_.
        ebind (modify (\<lambda>d. d\<lparr>dstat := dstat d OR STA_NOINIT\<rparr>)) (\<lambda>_. ret (RES_OK, [])))
      else ret (RES_PARERR, []))"

definition disk_ioctl :: "u8 \<Rightarrow> u8 \<Rightarrow> (dresult \<times> u8 list) dk" where
  "disk_ioctl pdrv cmd =
     (if pdrv \<noteq> 0 then ret (RES_PARERR, [])
      else
        ebind (gets dstat) (\<lambda>st.
          if st AND STA_NOINIT \<noteq> 0 then ret (RES_NOTRDY, [])
          else ebind (ioctl_command cmd) (\<lambda>res. ebind deselect (\<lambda>_. ret res))))"

subsection \<open>Dialogues with the card\<close>

text \<open>
  \<open>talk m p ins outs r\<close>: when \<open>p\<close> polls of the status register are answered and the card's next
  answers are \<open>ins\<close>, the operation \<open>m\<close> returns \<open>r\<close>, has taken exactly those answers and has put the
  bytes \<open>outs\<close> on the bus.
\<close>

definition talk :: "'a dk \<Rightarrow> nat \<Rightarrow> u8 list \<Rightarrow> u8 list \<Rightarrow> 'a \<Rightarrow> bool" where
  "talk m p ins outs r \<longleftrightarrow>
     (\<forall>d k xs. spi_bus (spi_dev d) (p + k) (ins @ xs) \<longrightarrow>
        (\<exists>s. m d = Inr (r, d\<lparr>spi_dev := s\<rparr>) \<and> spi_bus s k xs \<and> sent outs (spi_dev d) s))"

lemma talkI:
  assumes "\<And>d k xs. spi_bus (spi_dev d) (p + k) (ins @ xs) \<Longrightarrow>
    \<exists>s. m d = Inr (r, d\<lparr>spi_dev := s\<rparr>) \<and> spi_bus s k xs \<and> sent outs (spi_dev d) s"
  shows "talk m p ins outs r"
  using assms by (simp add: talk_def)

lemma talkD:
  assumes "talk m p ins outs r" "spi_bus (spi_dev d) (p + k) (ins @ xs)"
  obtains s where "m d = Inr (r, d\<lparr>spi_dev := s\<rparr>)" "spi_bus s k xs" "sent outs (spi_dev d) s"
  using assms unfolding talk_def by blast

lemma spi_bus_mono: "spi_bus s k xs \<Longrightarrow> j \<le> k \<Longrightarrow> spi_bus s j xs"
  by (simp add: spi_bus_def)

lemma talk_ret [intro]: "talk (ret r) 0 [] [] r"
  by (rule talkI, rename_tac d k xs, rule_tac x = "spi_dev d" in exI) (simp add: ret_apply)

lemma talk_bind:
  assumes "talk m p ins outs a" "talk (f a) q ins' outs' b"
  shows "talk (ebind m f) (p + q) (ins @ ins') (outs @ outs') b"
proof (rule talkI)
  fix d :: disk and k xs
  assume "spi_bus (spi_dev d) (p + q + k) ((ins @ ins') @ xs)"
  then have "spi_bus (spi_dev d) (p + (q + k)) (ins @ (ins' @ xs))" by (simp add: add.assoc)
  then obtain s1 where s1: "m d = Inr (a, d\<lparr>spi_dev := s1\<rparr>)" "spi_bus s1 (q + k) (ins' @ xs)"
      "sent outs (spi_dev d) s1"
    by (rule talkD [OF assms(1)])
  have "spi_bus (spi_dev (d\<lparr>spi_dev := s1\<rparr>)) (q + k) (ins' @ xs)" using s1(2) by simp
  then obtain s2 where s2: "f a (d\<lparr>spi_dev := s1\<rparr>) = Inr (b, d\<lparr>spi_dev := s1, spi_dev := s2\<rparr>)"
      "spi_bus s2 k xs" "sent outs' s1 s2"
    by (rule talkD [OF assms(2)]) simp
  have "ebind m f d = Inr (b, d\<lparr>spi_dev := s2\<rparr>)" using s1(1) s2(1) by (simp add: ebind_def)
  then show "\<exists>s. ebind m f d = Inr (b, d\<lparr>spi_dev := s\<rparr>) \<and> spi_bus s k xs \<and> sent (outs @ outs') (spi_dev d) s"
    using s2(2) sent_trans [OF s1(3) s2(3)] by blast
qed

lemma talk_bind':
  assumes "talk m p ins outs a" "talk (f a) q ins' outs' b"
    "P = p + q" "I = ins @ ins'" "Q = outs @ outs'"
  shows "talk (ebind m f) P I Q b"
  unfolding assms(3-5) using assms(1,2) by (rule talk_bind)

lemma talk_bind_ret:
  assumes "talk m p ins outs a"
  shows "talk (ebind m (\<lambda>x. ret (g x))) p ins outs (g a)"
  by (rule talk_bind' [OF assms talk_ret]) simp_all

lemma talk_xchg [intro]: "talk (xchg_spi b) 1 [x] [b] x"
proof (rule talkI)
  fix d :: disk and k xs
  assume "spi_bus (spi_dev d) (1 + k) ([x] @ xs)"
  then have "spi_bus (spi_dev d) (Suc k) (x # xs)" by simp
  then obtain s where "spi_send b (spi_dev d) = Inr (x, s)" "spi_bus s k xs" "sent [b] (spi_dev d) s"
    by (rule spi_send_bus)
  then show "\<exists>s. xchg_spi b d = Inr (x, d\<lparr>spi_dev := s\<rparr>) \<and> spi_bus s k xs \<and> sent [b] (spi_dev d) s"
    by (auto simp: xchg_spi_def on_spi_def)
qed

lemma talk_xchg_bind:
  assumes "talk (f x) q ins outs r" "p = Suc q" "I = x # ins" "Q = b # outs"
  shows "talk (ebind (xchg_spi b) f) p I Q r"
  by (rule talk_bind' [where f = f, OF talk_xchg assms(1)]) (simp_all add: assms(2-4))

lemma talk_collect [intro]:
  "talk (collect (length ys) (xchg_spi 0xFF)) (length ys) ys (replicate (length ys) 0xFF) ys"
proof (induction ys)
  case (Cons y ys)
  have "talk (ebind (collect (length ys) (xchg_spi 0xFF)) (\<lambda>zs. ret (y # zs))) (length ys) ys
      (replicate (length ys) 0xFF) (y # ys)"
    using talk_bind_ret [OF Cons, of "(#) y"] by simp
  then show ?case using talk_xchg_bind [of "\<lambda>x. ebind (collect (length ys) (xchg_spi 0xFF)) (\<lambda>zs. ret (x # zs))" y]
    by simp
qed auto

lemma talk_retry:
  assumes "list_all again busy" "\<not> again x" "length busy \<le> n"
  shows "talk (retry again n) (Suc (length busy)) (busy @ [x]) (replicate (Suc (length busy)) 0xFF) x"
  using assms
proof (induction busy arbitrary: n)
  case Nil
  show ?case
  proof (cases n)
    case 0
    then show ?thesis using talk_xchg [of "0xFF" x] by simp
  next
    case (Suc m)
    then show ?thesis using Nil talk_xchg_bind [of "\<lambda>d. if again d then retry again m else ret d" x 0 "[]" "[]" x]
      by (simp add: talk_ret)
  qed
next
  case (Cons b busy)
  then obtain m where n: "n = Suc m" by (cases n) auto
  have "talk (retry again m) (Suc (length busy)) (busy @ [x]) (replicate (Suc (length busy)) 0xFF) x"
    using Cons n by simp
  then show ?case using Cons.prems n
    by (auto intro!: talk_xchg_bind [of _ b])
qed

text \<open>Register writes that are not data.\<close>

lemma talk_wr: "r \<noteq> SPI_DTR \<Longrightarrow> talk (on_spi (dev_wr r v)) 0 [] [] ()"
  by (rule talkI, rename_tac d k xs, rule_tac x = "(spi_dev d)\<lparr>wlog := wlog (spi_dev d) @ [(r, v)]\<rparr>" in exI)
    (simp add: on_spi_def dev_wr_apply spi_bus_def sent_def dtr_bytes_def)

lemma talk_select_lines:
  "talk deselect 0 [] [] ()" "talk (on_spi spi_select_slave) 0 [] [] ()"
  by (simp_all add: deselect_def spi_deselect_slave_def spi_select_slave_def talk_wr spi_regs)

definition ready_after :: "u8 list \<Rightarrow> bool" where
  "ready_after busy \<longleftrightarrow> list_all (\<lambda>b. b \<noteq> 0xFF) busy \<and> length busy < 2500000"

lemma talk_wait_ready:
  assumes "ready_after busy"
  shows "talk (wait_ready 500) (Suc (length busy)) (busy @ [0xFF]) (replicate (Suc (length busy)) 0xFF) True"
proof -
  have "talk (retry (\<lambda>d. d \<noteq> 0xFF) (unat (500 * 5000 - 1 :: u32))) (Suc (length busy)) (busy @ [0xFF])
      (replicate (Suc (length busy)) 0xFF) 0xFF"
    using assms by (intro talk_retry) (auto simp: ready_after_def)
  from talk_bind_ret [OF this, of "\<lambda>d. d = 0xFF"] show ?thesis by (simp add: wait_ready_def)
qed

lemma talk_select:
  assumes "ready_after busy"
  shows "talk select (Suc (length busy)) (busy @ [0xFF]) (replicate (Suc (length busy)) 0xFF) True"
  unfolding select_def
  by (intro talk_bind' [OF talk_select_lines(2)] talk_bind' [OF talk_wait_ready [OF assms]])
    (simp_all add: talk_ret)

lemma talk_recv_multi:
  assumes "length ys = unat n"
  shows "talk (on_spi (spi_recv_multi n)) 1 ys (replicate (unat n) 0xff) ys"
proof (rule talkI)
  fix d :: disk and k xs
  assume "spi_bus (spi_dev d) (1 + k) (ys @ xs)"
  then have "spi_bus (spi_dev d) (Suc k) (ys @ xs)" by simp
  then obtain s where "spi_recv_multi n (spi_dev d) = Inr (ys, s)" "spi_bus s k xs"
      "sent (replicate (unat n) 0xff) (spi_dev d) s"
    using assms by (rule spi_recv_multi_bus)
  then show "\<exists>s. on_spi (spi_recv_multi n) d = Inr (ys, d\<lparr>spi_dev := s\<rparr>) \<and> spi_bus s k xs \<and>
      sent (replicate (unat n) 0xff) (spi_dev d) s"
    by (auto simp: on_spi_def)
qed

lemma talk_send_multi:
  assumes "unat n \<le> length bs"
  shows "talk (on_spi (spi_send_multi bs n)) 1 [] (take (unat n) bs) ()"
proof (rule talkI)
  fix d :: disk and k xs
  assume "spi_bus (spi_dev d) (1 + k) ([] @ xs)"
  then have "spi_bus (spi_dev d) (Suc k) xs" by simp
  then obtain s where "spi_send_multi bs n (spi_dev d) = Inr ((), s)" "spi_bus s k xs"
      "sent (take (unat n) bs) (spi_dev d) s"
    using assms by (rule spi_send_multi_bus)
  then show "\<exists>s. on_spi (spi_send_multi bs n) d = Inr ((), d\<lparr>spi_dev := s\<rparr>) \<and> spi_bus s k xs \<and>
      sent (take (unat n) bs) (spi_dev d) s"
    by (auto simp: on_spi_def)
qed

text \<open>The blocks that the two loops move are a multiple of the FIFO size.\<close>

lemma talk_rcvr_loop:
  assumes "length ys = 16 * k"
  shows "talk (rcvr_spi_loop i (i + 16 * k)) k ys (replicate (16 * k) 0xff) ys"
  using assms
proof (induction k arbitrary: i ys)
  case 0
  then show ?case by (subst rcvr_spi_loop.simps) (simp add: talk_ret)
next
  case (Suc k)
  let ?a = "take 16 ys" and ?b = "drop 16 ys"
  have e: "i + 16 * Suc k = (i + 16) + 16 * k" by simp
  have a: "talk (on_spi (spi_recv_multi 16)) 1 ?a (replicate 16 0xff) ?a"
    using talk_recv_multi [of ?a 16] Suc.prems by simp
  have "talk (rcvr_spi_loop (i + 16) (i + 16 + 16 * k)) k ?b (replicate (16 * k) 0xff) ?b"
    using Suc.prems by (intro Suc.IH) simp
  from talk_bind_ret [OF this, of "(@) ?a"]
  have b: "talk (ebind (rcvr_spi_loop (i + 16) (i + 16 + 16 * k)) (\<lambda>rest. ret (?a @ rest))) k ?b
      (replicate (16 * k) 0xff) ys"
    by simp
  show ?case
    unfolding e
    by (subst rcvr_spi_loop.simps)
      (simp, rule talk_bind' [OF a], rule b, simp_all add: replicate_add [symmetric])
qed

lemma talk_rcvr_multi:
  "length ys = 512 \<Longrightarrow> talk (rcvr_spi_multi 512) 32 ys (replicate 512 0xff) ys"
  using talk_rcvr_loop [of ys 32 0] by (simp add: rcvr_spi_multi_def)

lemma talk_xmit_loop:
  assumes "length p \<ge> i + 16 * k"
  shows "talk (xmit_spi_loop i p (i + 16 * k)) k [] (take (16 * k) (drop i p)) ()"
  using assms
proof (induction k arbitrary: i)
  case 0
  then show ?case by (subst xmit_spi_loop.simps) (simp add: talk_ret)
next
  case (Suc k)
  have e: "i + 16 * Suc k = (i + 16) + 16 * k" by simp
  have a: "talk (on_spi (spi_send_multi (drop i p) 16)) 1 [] (take 16 (drop i p)) ()"
    using talk_send_multi [of 16 "drop i p"] Suc.prems by simp
  have b: "talk (xmit_spi_loop (i + 16) p (i + 16 + 16 * k)) k [] (take (16 * k) (drop (i + 16) p)) ()"
    using Suc.prems by (intro Suc.IH) simp
  have t: "take (16 * Suc k) (drop i p) = take 16 (drop i p) @ take (16 * k) (drop (i + 16) p)"
    by (metis drop_drop add.commute mult_Suc_right take_add)
  show ?case
    unfolding e
    by (subst xmit_spi_loop.simps)
      (use t in \<open>simp, intro talk_bind' [where outs = "take 16 (drop i p)", OF a b], simp_all\<close>)
qed

lemma talk_xmit_multi:
  "length p \<ge> 512 \<Longrightarrow> talk (xmit_spi_multi p 512) 32 [] (take 512 p) ()"
  using talk_xmit_loop [of 0 32 p] by (simp add: xmit_spi_multi_def)

lemma crc_wait_unfold:
  "crc_wait = ebind (xchg_spi 0xFF) (\<lambda>r. if r = 0 then crc_wait else ret ())"
  by (rule ext, subst crc_wait.simps) (simp add: ebind_def ret_def split: sum.split)

lemma talk_crc_wait:
  assumes "x \<noteq> 0"
  shows "talk crc_wait (Suc n) (replicate n 0 @ [x]) (replicate (Suc n) 0xFF) ()"
proof (induction n)
  case 0
  show ?case by (subst crc_wait_unfold, rule talk_xchg_bind [of _ x]) (auto simp: assms)
next
  case (Suc n)
  then show ?case by (subst crc_wait_unfold, intro talk_xchg_bind [of _ 0]) auto
qed

text \<open>A data packet of the card: idle bytes, the start token, 512 bytes and a checksum.\<close>

record packet =
  gap :: nat
  payload :: "u8 list"
  checksum :: "u8 list"

definition packet_ok :: "packet \<Rightarrow> bool" where
  "packet_ok p \<longleftrightarrow> gap p < 1000000 \<and> length (payload p) = 512 \<and> length (checksum p) = 2"

definition packet_bytes :: "packet \<Rightarrow> u8 list" where
  "packet_bytes p = replicate (gap p) 0xFF @ [0xFE] @ payload p @ checksum p"

lemma talk_rcvr_datablock:
  assumes "packet_ok p"
  shows "talk (rcvr_datablock 512) (gap p + 35) (packet_bytes p) (replicate (gap p + 515) 0xFF) (Some (payload p))"
proof -
  let ?tail = "\<lambda>bs. ebind (xchg_spi 0xFF) (\<lambda>_. ebind (xchg_spi 0xFF) (\<lambda>_. ret (Some bs)))"
  obtain c1 c2 where crc: "checksum p = [c1, c2]"
    using assms by (auto simp: packet_ok_def length_Suc_conv numeral_2_eq_2)
  have t: "talk (retry (\<lambda>t. t = 0xFF) (unat (200 * 5000 - 1 :: u32))) (Suc (gap p))
      (replicate (gap p) 0xFF @ [0xFE]) (replicate (Suc (gap p)) 0xFF) 0xFE"
    using talk_retry [of "\<lambda>t. t = 0xFF" "replicate (gap p) 0xFF" "0xFE"] assms
    by (auto simp: packet_ok_def list_all_iff)
  have m: "talk (rcvr_spi_multi 512) 32 (payload p) (replicate 512 0xff) (payload p)"
    using assms by (intro talk_rcvr_multi) (simp add: packet_ok_def)
  have c: "talk (?tail (payload p)) 2 (checksum p) (replicate 2 0xFF) (Some (payload p))"
    unfolding crc
    by (rule talk_xchg_bind [of _ c1], rule talk_xchg_bind [of _ c2], rule talk_ret)
      (simp_all add: numeral_2_eq_2)
  have mc: "talk (ebind (rcvr_spi_multi 512) ?tail) (32 + 2) (payload p @ checksum p)
      (replicate 512 0xFF @ replicate 2 0xFF) (Some (payload p))"
    using m c by (rule talk_bind)
  show ?thesis
    unfolding rcvr_datablock_def
  proof (rule talk_bind' [OF t])
    show "talk (if (0xFE :: u8) \<noteq> 0xFE then ret None else ebind (rcvr_spi_multi 512) ?tail)
      (32 + 2) (payload p @ checksum p) (replicate 512 0xFF @ replicate 2 0xFF) (Some (payload p))"
      using mc by simp
    show "replicate (gap p + 515) 0xFF = replicate (Suc (gap p)) 0xFF @ replicate 512 0xFF @ replicate 2 (0xFF :: u8)"
      by (simp only: replicate_add [symmetric]) simp
  qed (simp_all add: packet_bytes_def)
qed

lemma talk_read_blocks:
  assumes "list_all packet_ok ps"
  shows "talk (read_blocks (length ps)) (sum_list (map (\<lambda>p. gap p + 35) ps))
    (concat (map packet_bytes ps)) (concat (map (\<lambda>p. replicate (gap p + 515) 0xFF) ps))
    (concat (map payload ps), 0)"
  using assms
proof (induction ps)
  case (Cons p ps)
  let ?rest = "\<lambda>b. case b of None \<Rightarrow> ret ([], Suc (length ps))
    | Some bs \<Rightarrow> ebind (read_blocks (length ps)) (\<lambda>(rest, k). ret (bs @ rest, k))"
  have a: "talk (rcvr_datablock 512) (gap p + 35) (packet_bytes p) (replicate (gap p + 515) 0xFF) (Some (payload p))"
    using Cons.prems by (intro talk_rcvr_datablock) simp
  have "talk (read_blocks (length ps)) (sum_list (map (\<lambda>p. gap p + 35) ps)) (concat (map packet_bytes ps))
    (concat (map (\<lambda>p. replicate (gap p + 515) 0xFF) ps)) (concat (map payload ps), 0)"
    using Cons by simp
  from talk_bind_ret [OF this, of "\<lambda>(rest, k). (payload p @ rest, k)"]
  have b: "talk (?rest (Some (payload p))) (sum_list (map (\<lambda>p. gap p + 35) ps)) (concat (map packet_bytes ps))
    (concat (map (\<lambda>p. replicate (gap p + 515) 0xFF) ps)) (payload p @ concat (map payload ps), 0)"
    by (simp add: case_prod_unfold)
  have "talk (ebind (rcvr_datablock 512) ?rest) (gap p + 35 + sum_list (map (\<lambda>p. gap p + 35) ps))
      (packet_bytes p @ concat (map packet_bytes ps))
      (replicate (gap p + 515) 0xFF @ concat (map (\<lambda>p. replicate (gap p + 515) 0xFF) ps))
      (payload p @ concat (map payload ps), 0)"
    using a b by (rule talk_bind)
  then show ?case by simp
qed (simp add: talk_ret)

text \<open>
  The card's answers around a command: busy bytes until it is ready, six bytes while the command is
  sent, and fill bytes before the response.
\<close>

record cmd_reply =
  busy :: "u8 list"
  junk :: "u8 list"
  fill :: "u8 list"
  resp :: u8

definition reply_ok :: "cmd_reply \<Rightarrow> bool" where
  "reply_ok a \<longleftrightarrow> ready_after (busy a) \<and> length (junk a) = 6 \<and>
     list_all (\<lambda>b. b AND 0x80 \<noteq> 0) (fill a) \<and> length (fill a) \<le> 9 \<and> resp a AND 0x80 = 0"

definition reply_bytes :: "cmd_reply \<Rightarrow> u8 list" where
  "reply_bytes a = busy a @ [0xFF] @ junk a @ fill a @ [resp a]"

definition cmd_bytes :: "u8 \<Rightarrow> u32 \<Rightarrow> u8 list" where
  "cmd_bytes cmd arg =
     [0x40 OR cmd, ucast (drop_bit 24 arg), ucast (drop_bit 16 arg), ucast (drop_bit 8 arg), ucast arg,
      cmd_crc cmd]"

definition cmd_sent :: "u8 \<Rightarrow> u32 \<Rightarrow> cmd_reply \<Rightarrow> u8 list" where
  "cmd_sent cmd arg a =
     replicate (Suc (length (busy a))) 0xFF @ cmd_bytes cmd arg @ replicate (Suc (length (fill a))) 0xFF"

lemma list6:
  assumes "length xs = 6"
  obtains x1 x2 x3 x4 x5 x6 where "xs = [x1, x2, x3, x4, x5, x6]"
  using assms by (auto simp: length_Suc_conv eval_nat_numeral)

text \<open>The six bytes of a packet, whatever is received meanwhile, followed by \<open>m\<close>.\<close>

lemma talk_cmd_bytes:
  assumes "talk m p ins outs r" "length js = 6"
  shows "talk
    (ebind (xchg_spi (0x40 OR cmd)) (\<lambda>_.
     ebind (xchg_spi (ucast (drop_bit 24 arg))) (\<lambda>_.
     ebind (xchg_spi (ucast (drop_bit 16 arg))) (\<lambda>_.
     ebind (xchg_spi (ucast (drop_bit 8 arg))) (\<lambda>_.
     ebind (xchg_spi (ucast arg)) (\<lambda>_.
     ebind (xchg_spi (cmd_crc cmd)) (\<lambda>_. m)))))))
    (6 + p) (js @ ins) (cmd_bytes cmd arg @ outs) r"
proof -
  obtain x1 x2 x3 x4 x5 x6 where js: "js = [x1, x2, x3, x4, x5, x6]"
    using assms(2) by (rule list6)
  show ?thesis
    unfolding js cmd_bytes_def
    by (rule talk_xchg_bind [of _ x1], rule talk_xchg_bind [of _ x2], rule talk_xchg_bind [of _ x3],
        rule talk_xchg_bind [of _ x4], rule talk_xchg_bind [of _ x5], rule talk_xchg_bind [of _ x6],
        rule assms(1)) simp_all
qed

lemma talk_response:
  assumes "list_all (\<lambda>b. b AND 0x80 \<noteq> 0) fs" "length fs \<le> 9" "x AND 0x80 = 0"
  shows "talk (retry (\<lambda>res. res AND 0x80 \<noteq> 0) 9) (Suc (length fs)) (fs @ [x]) (replicate (Suc (length fs)) 0xFF) x"
  using assms by (intro talk_retry) auto

lemma talk_send_packet:
  assumes "reply_ok a" "cmd \<noteq> 12"
  shows "talk (send_packet cmd arg) (length (reply_bytes a)) (reply_bytes a) (cmd_sent cmd arg a) (resp a)"
proof -
  have d: "talk (if cmd \<noteq> 12 then ebind deselect (\<lambda>_. select) else ret True) (Suc (length (busy a))) (busy a @ [0xFF])
      (replicate (Suc (length (busy a))) 0xFF) True"
    using assms talk_bind [OF talk_select_lines(1) talk_select [of "busy a"]] by (simp add: reply_ok_def)
  have "talk (retry (\<lambda>res. res AND 0x80 \<noteq> 0) 9) (Suc (length (fill a))) (fill a @ [resp a])
      (replicate (Suc (length (fill a))) 0xFF) (resp a)"
    using assms(1) by (intro talk_response) (auto simp: reply_ok_def)
  from talk_bind [where f = "\<lambda>_. retry (\<lambda>res. res AND 0x80 \<noteq> 0) 9", OF talk_ret [of 0] this]
  have r: "talk (ebind (if cmd = 12 then xchg_spi 0xFF else ret 0) (\<lambda>_. retry (\<lambda>res. res AND 0x80 \<noteq> 0) 9))
      (Suc (length (fill a))) (fill a @ [resp a]) (replicate (Suc (length (fill a))) 0xFF) (resp a)"
    using assms(2) by simp
  have j: "length (junk a) = 6" using assms(1) by (simp add: reply_ok_def)
  show ?thesis
    unfolding send_packet_def
    by (rule talk_bind' [OF d], simp only: not_True_eq_False if_False, rule talk_cmd_bytes [OF r j])
      (simp_all add: reply_bytes_def cmd_sent_def j)
qed

text \<open>The answers to \<^verbatim>\<open>CMD12\<close>, which is sent without waiting and has a stuff byte.\<close>

definition stop_ok :: "u8 list \<Rightarrow> u8 list \<Rightarrow> u8 \<Rightarrow> bool" where
  "stop_ok js fs x \<longleftrightarrow> length js = 7 \<and> list_all (\<lambda>b. b AND 0x80 \<noteq> 0) fs \<and> length fs \<le> 9 \<and> x AND 0x80 = 0"

lemma talk_stop:
  assumes "stop_ok js fs x"
  shows "talk (send_cmd 12 0) (8 + length fs) (js @ fs @ [x])
    (cmd_bytes 12 0 @ replicate (2 + length fs) 0xFF) x"
proof -
  have "length (butlast js) = 6" "js \<noteq> []" using assms by (auto simp: stop_ok_def)
  then obtain js' j where js: "js = js' @ [j]" "length js' = 6" by (metis append_butlast_last_id)
  have "talk (retry (\<lambda>res. res AND 0x80 \<noteq> 0) 9) (Suc (length fs)) (fs @ [x]) (replicate (Suc (length fs)) 0xFF) x"
    using assms by (intro talk_response) (auto simp: stop_ok_def)
  then have r: "talk (ebind (if (12 :: u8) = 12 then xchg_spi 0xFF else ret 0) (\<lambda>_. retry (\<lambda>res. res AND 0x80 \<noteq> 0) 9))
      (2 + length fs) (j # fs @ [x]) (replicate (2 + length fs) 0xFF) x"
    by (simp, intro talk_xchg_bind [of _ j]) simp_all
  have "talk (send_packet 12 0) (6 + (2 + length fs)) (js' @ j # fs @ [x])
      (cmd_bytes 12 0 @ replicate (2 + length fs) 0xFF) x"
    unfolding send_packet_def
    by (rule talk_bind' [where a = True and ins = "[]" and outs = "[]"],
        simp only: not_True_eq_False simp_thms if_False, rule talk_ret,
        simp only: not_True_eq_False if_False, rule talk_cmd_bytes [OF r js(2)]) simp_all
  then show ?thesis by (simp add: send_cmd_def js)
qed

lemma talk_run:
  assumes "talk m p ins outs r" "spi_bus (spi_dev d) q ins" "p \<le> q"
  shows "\<exists>s. m d = Inr (r, d\<lparr>spi_dev := s\<rparr>) \<and> sent outs (spi_dev d) s"
proof -
  have "spi_bus (spi_dev d) (p + 0) (ins @ [])" using assms(2,3) by (simp add: spi_bus_mono)
  then show ?thesis using talkD [OF assms(1)] by metis
qed

lemma talk_deselect_ret: "talk (ebind deselect (\<lambda>_. ret x)) 0 [] [] x"
  by (rule talk_bind' [OF talk_select_lines(1) talk_ret]) simp_all

text \<open>The part of \<^verbatim>\<open>disk_read\<close> that talks to the card.\<close>

lemma talk_disk_read:
  assumes "reply_ok a" "resp a = 0" "list_all packet_ok ps" "stop_ok js fs x" "cmd = 17 \<or> cmd = 18"
    "st = (if cmd = 18 then js @ fs @ [x] else [])"
    "so = (if cmd = 18 then cmd_bytes 12 0 @ replicate (2 + length fs) 0xFF else [])"
  shows "talk
    (ebind (send_cmd cmd addr) (\<lambda>r.
     ebind
       (if r = 0 then
          ebind (read_blocks (length ps)) (\<lambda>res.
          ebind (if cmd = 18 then send_cmd 12 0 else ret 0) (\<lambda>_. ret res))
        else ret ([], length ps))
       (\<lambda>(bs, left). ebind deselect (\<lambda>_. ret (if left \<noteq> 0 then RES_ERROR else RES_OK, bs)))))
    (length (reply_bytes a) + (sum_list (map (\<lambda>p. gap p + 35) ps) + (if cmd = 18 then 8 + length fs else 0)))
    (reply_bytes a @ (concat (map packet_bytes ps) @ st))
    (cmd_sent cmd addr a @ (concat (map (\<lambda>p. replicate (gap p + 515) 0xFF) ps) @ so))
    (RES_OK, concat (map payload ps))"
proof (rule talk_bind)
  have c: "cmd AND 0x80 = 0" "cmd \<noteq> 12" using assms(5) by auto
  show "talk (send_cmd cmd addr) (length (reply_bytes a)) (reply_bytes a) (cmd_sent cmd addr a) 0"
    using talk_send_packet [OF assms(1) c(2), of addr] c(1) assms(2) by (simp add: send_cmd_def)
  have "talk (ebind (if cmd = 18 then send_cmd 12 0 else ret 0) (\<lambda>_. ret (concat (map payload ps), 0 :: nat)))
      (if cmd = 18 then 8 + length fs else 0) st so (concat (map payload ps), 0)"
  proof (cases "cmd = 18")
    case True
    then show ?thesis
      using talk_bind_ret [OF talk_stop [OF assms(4)], of "\<lambda>_. (concat (map payload ps), 0 :: nat)"] assms(6,7)
      by simp
  next
    case False
    then show ?thesis
      using talk_bind_ret [OF talk_ret [of "0 :: u8"], of "\<lambda>_. (concat (map payload ps), 0 :: nat)"] assms(6,7)
      by simp
  qed
  from talk_bind [OF talk_read_blocks [OF assms(3)], where f = "\<lambda>res.
      ebind (if cmd = 18 then send_cmd 12 0 else ret 0) (\<lambda>_. ret res)", OF this]
  have "talk (if (0 :: u8) = 0 then
          ebind (read_blocks (length ps)) (\<lambda>res.
          ebind (if cmd = 18 then send_cmd 12 0 else ret 0) (\<lambda>_. ret res))
        else ret ([], length ps))
      (sum_list (map (\<lambda>p. gap p + 35) ps) + (if cmd = 18 then 8 + length fs else 0))
      (concat (map packet_bytes ps) @ st)
      (concat (map (\<lambda>p. replicate (gap p + 515) 0xFF) ps) @ so) (concat (map payload ps), 0)"
    by simp
  then show "talk
     (ebind
       (if (0 :: u8) = 0 then
          ebind (read_blocks (length ps)) (\<lambda>res.
          ebind (if cmd = 18 then send_cmd 12 0 else ret 0) (\<lambda>_. ret res))
        else ret ([], length ps))
       (\<lambda>(bs, left). ebind deselect (\<lambda>_. ret (if left \<noteq> 0 then RES_ERROR else RES_OK, bs))))
      (sum_list (map (\<lambda>p. gap p + 35) ps) + (if cmd = 18 then 8 + length fs else 0))
      (concat (map packet_bytes ps) @ st)
      (concat (map (\<lambda>p. replicate (gap p + 515) 0xFF) ps) @ so)
      (RES_OK, concat (map payload ps))"
    by (rule talk_bind' [where q = 0 and ins' = "[]" and outs' = "[]"])
      (simp_all add: talk_deselect_ret)
qed

lemma packets_polls:
  "list_all packet_ok ps \<Longrightarrow> sum_list (map (\<lambda>p. gap p + 35) ps) \<le> length (concat (map packet_bytes ps))"
  by (induction ps) (auto simp: packet_ok_def packet_bytes_def)

text \<open>
  The card's answers to a data block: busy bytes, a byte during the token, two checksum slots (the
  driver waits in each while the card answers zero), the data response, and busy bytes while the card
  writes.
\<close>

record block_reply =
  b_busy :: "u8 list"
  b_token :: u8
  b_crc1 :: "nat \<times> u8"
  b_crc2 :: "nat \<times> u8"
  b_resp :: u8
  b_done :: "u8 list"

definition accepts :: "block_reply \<Rightarrow> bool" where
  "accepts w \<longleftrightarrow> b_resp w AND 0x1F = 0x05"

definition block_ok :: "block_reply \<Rightarrow> bool" where
  "block_ok w \<longleftrightarrow> ready_after (b_busy w) \<and> ready_after (b_done w) \<and> snd (b_crc1 w) \<noteq> 0 \<and> snd (b_crc2 w) \<noteq> 0"

definition block_bytes :: "block_reply \<Rightarrow> u8 list" where
  "block_bytes w =
     b_busy w @ [0xFF] @ [b_token w] @ replicate (fst (b_crc1 w)) 0 @ [snd (b_crc1 w)]
     @ replicate (fst (b_crc2 w)) 0 @ [snd (b_crc2 w)] @ [b_resp w]
     @ (if accepts w then b_done w @ [0xFF] else [])"

definition block_sent :: "u8 \<Rightarrow> u8 list \<Rightarrow> block_reply \<Rightarrow> u8 list" where
  "block_sent token buff w =
     replicate (Suc (length (b_busy w))) 0xFF @ [token] @ take 512 buff
     @ replicate (Suc (fst (b_crc1 w))) 0xFF @ replicate (Suc (fst (b_crc2 w))) 0xFF @ [0xFF]
     @ (if accepts w then replicate (Suc (length (b_done w))) 0xFF else [])"

lemma talk_xmit_datablock:
  assumes "block_ok w" "token \<noteq> 0xFD" "length buff \<ge> 512"
  shows "talk (xmit_datablock buff token) (length (block_bytes w) + 32) (block_bytes w)
    (block_sent token buff w) (accepts w)"
proof -
  let ?c1 = "fst (b_crc1 w)" and ?x1 = "snd (b_crc1 w)" and ?c2 = "fst (b_crc2 w)" and ?x2 = "snd (b_crc2 w)"
  let ?data = "ebind (xmit_spi_multi buff 512) (\<lambda>_.
    ebind crc_wait (\<lambda>_. ebind crc_wait (\<lambda>_.
    ebind (xchg_spi 0xFF) (\<lambda>resp. ret (resp AND 0x1F = 0x05)))))"
  have x: "?x1 \<noteq> 0" "?x2 \<noteq> 0" and rd: "ready_after (b_busy w)" "ready_after (b_done w)"
    using assms(1) by (auto simp: block_ok_def)
  have resp: "talk (ebind (xchg_spi 0xFF) (\<lambda>resp. ret (resp AND 0x1F = 0x05))) 1 [b_resp w] [0xFF] (accepts w)"
    unfolding accepts_def by (rule talk_bind_ret [OF talk_xchg])
  have data: "talk ?data (32 + (Suc ?c1 + (Suc ?c2 + 1)))
      ([] @ ((replicate ?c1 0 @ [?x1]) @ ((replicate ?c2 0 @ [?x2]) @ [b_resp w])))
      (take 512 buff @ (replicate (Suc ?c1) 0xFF @ (replicate (Suc ?c2) 0xFF @ [0xFF]))) (accepts w)"
    by (rule talk_bind [OF talk_xmit_multi [OF assms(3)] talk_bind [OF talk_crc_wait [OF x(1)]
        talk_bind [OF talk_crc_wait [OF x(2)] resp]]])
  have fin: "talk (if \<not> accepts w then ret False else ebind (wait_ready 500) (\<lambda>_. ret True))
      (if accepts w then Suc (length (b_done w)) else 0)
      (if accepts w then b_done w @ [0xFF] else [])
      (if accepts w then replicate (Suc (length (b_done w))) 0xFF else []) (accepts w)"
    using talk_bind_ret [OF talk_wait_ready [OF rd(2)], of "\<lambda>_. True"] by (auto simp: talk_ret)
  have "talk (ebind (if token \<noteq> 0xFD then ?data else ret True)
      (\<lambda>acc. if \<not> acc then ret False else ebind (wait_ready 500) (\<lambda>_. ret True)))
      (32 + (Suc ?c1 + (Suc ?c2 + 1)) + (if accepts w then Suc (length (b_done w)) else 0))
      (([] @ ((replicate ?c1 0 @ [?x1]) @ ((replicate ?c2 0 @ [?x2]) @ [b_resp w])))
        @ (if accepts w then b_done w @ [0xFF] else []))
      ((take 512 buff @ (replicate (Suc ?c1) 0xFF @ (replicate (Suc ?c2) 0xFF @ [0xFF])))
        @ (if accepts w then replicate (Suc (length (b_done w))) 0xFF else [])) (accepts w)"
    unfolding if_P [OF assms(2)] by (rule talk_bind [OF data]) (rule fin)
  then show ?thesis
    unfolding xmit_datablock_def
    by - (rule talk_bind' [OF talk_wait_ready [OF rd(1)]],
        simp only: not_True_eq_False if_False, rule talk_xchg_bind [of _ "b_token w"], assumption,
        simp_all add: block_bytes_def block_sent_def)
qed

text \<open>The stop token has no data and no response.\<close>

lemma talk_stop_token:
  assumes "ready_after bs" "ready_after cs"
  shows "talk (xmit_datablock [] 0xFD) (length bs + length cs + 3) ((bs @ [0xFF]) @ t # cs @ [0xFF])
    (replicate (Suc (length bs)) 0xFF @ 0xFD # replicate (Suc (length cs)) 0xFF) True"
proof -
  have "talk (ebind (ret True) (\<lambda>acc. if \<not> acc then ret False else ebind (wait_ready 500) (\<lambda>_. ret True)))
      (0 + Suc (length cs)) ([] @ (cs @ [0xFF])) ([] @ replicate (Suc (length cs)) 0xFF) True"
    by (rule talk_bind [OF talk_ret])
      (use talk_bind_ret [OF talk_wait_ready [OF assms(2)], of "\<lambda>_. True"] in simp)
  then show ?thesis
    unfolding xmit_datablock_def
    by - (rule talk_bind' [OF talk_wait_ready [OF assms(1)]],
        simp only: not_True_eq_False if_False, rule talk_xchg_bind [of _ t], simp, simp_all)
qed

text \<open>The blocks of a multiple write; nothing is sent after the first rejected one.\<close>

fun blocks_bytes :: "block_reply list \<Rightarrow> u8 list" where
  "blocks_bytes [] = []"
| "blocks_bytes (w # ws) = block_bytes w @ (if accepts w then blocks_bytes ws else [])"

fun blocks_sent :: "u8 list \<Rightarrow> block_reply list \<Rightarrow> u8 list" where
  "blocks_sent buff [] = []"
| "blocks_sent buff (w # ws) =
     block_sent 0xFC buff w @ (if accepts w then blocks_sent (drop 512 buff) ws else [])"

fun blocks_polls :: "block_reply list \<Rightarrow> nat" where
  "blocks_polls [] = 0"
| "blocks_polls (w # ws) = length (block_bytes w) + 32 + (if accepts w then blocks_polls ws else 0)"

lemma blocks_polls_le: "blocks_polls ws \<le> length (blocks_bytes ws) + 32 * length ws"
  by (induction ws) auto

lemma talk_write_blocks:
  assumes "list_all block_ok ws" "length buff \<ge> 512 * length ws"
  shows "talk (write_blocks (length ws) buff) (blocks_polls ws) (blocks_bytes ws) (blocks_sent buff ws)
    (length (dropWhile accepts ws))"
  using assms
proof (induction ws arbitrary: buff)
  case (Cons w ws)
  have a: "talk (xmit_datablock buff 0xFC) (length (block_bytes w) + 32) (block_bytes w)
      (block_sent 0xFC buff w) (accepts w)"
    using Cons.prems by (intro talk_xmit_datablock) auto
  have "talk (if accepts w then write_blocks (length ws) (drop 512 buff) else ret (Suc (length ws)))
      (if accepts w then blocks_polls ws else 0) (if accepts w then blocks_bytes ws else [])
      (if accepts w then blocks_sent (drop 512 buff) ws else []) (length (dropWhile accepts (w # ws)))"
    using Cons by (auto simp: talk_ret)
  from talk_bind [OF a, where f = "\<lambda>ok. if ok then write_blocks (length ws) (drop 512 buff) else ret (Suc (length ws))", OF this]
  show ?case by simp
qed (simp add: talk_ret)

subsubsection \<open>Initialisation dialogues\<close>

lemma on_spi_bind: "on_spi (ebind m f) = ebind (on_spi m) (\<lambda>a. on_spi (f a))"
  by (rule ext) (auto simp: on_spi_def ebind_def split: sum.splits)

lemma talk_seq:
  assumes "talk m 0 [] [] a" "talk (f a) p ins outs b"
  shows "talk (ebind m f) p ins outs b"
  by (rule talk_bind' [OF assms(1), of f p ins outs]) (simp_all add: assms(2))

lemma talk_power: "talk power_on 0 [] [] ()" "talk power_off 0 [] [] ()"
  unfolding power_on_def power_off_def spi_init_def spi_disable_def on_spi_bind
  by (intro talk_seq talk_wr; simp add: spi_regs)+

definition acmd_bytes :: "cmd_reply \<times> cmd_reply \<Rightarrow> u8 list" where
  "acmd_bytes e = reply_bytes (fst e) @ reply_bytes (snd e)"

definition acmd_ok :: "cmd_reply \<times> cmd_reply \<Rightarrow> bool" where
  "acmd_ok e \<longleftrightarrow> reply_ok (fst e) \<and> resp (fst e) \<le> 1 \<and> reply_ok (snd e)"

definition acmd_sent :: "u8 \<Rightarrow> u32 \<Rightarrow> cmd_reply \<times> cmd_reply \<Rightarrow> u8 list" where
  "acmd_sent cmd arg e = cmd_sent 55 0 (fst e) @ cmd_sent cmd arg (snd e)"

lemma talk_acmd:
  assumes "acmd_ok e" "cmd AND 0x80 \<noteq> 0" "cmd AND 0x7F \<noteq> 12"
  shows "talk (send_cmd cmd arg) (length (acmd_bytes e)) (acmd_bytes e) (acmd_sent (cmd AND 0x7F) arg e) (resp (snd e))"
proof -
  have a: "talk (send_packet 55 0) (length (reply_bytes (fst e))) (reply_bytes (fst e)) (cmd_sent 55 0 (fst e)) (resp (fst e))"
    using assms(1) by (intro talk_send_packet) (auto simp: acmd_ok_def)
  have "talk (if resp (fst e) > 1 then ret (resp (fst e)) else send_packet (cmd AND 0x7F) arg)
      (length (reply_bytes (snd e))) (reply_bytes (snd e)) (cmd_sent (cmd AND 0x7F) arg (snd e)) (resp (snd e))"
    using assms talk_send_packet [of "snd e" "cmd AND 0x7F" arg] by (auto simp: acmd_ok_def not_less)
  then show ?thesis
    unfolding send_cmd_def if_P [OF assms(2)] acmd_bytes_def acmd_sent_def length_append
    by (rule talk_bind [OF a])
qed

lemma talk_cmd_wait:
  assumes "list_all (\<lambda>e. acmd_ok e \<and> resp (snd e) \<noteq> 0) es" "acmd_ok e" "resp (snd e) = 0"
    and "n = k + Suc (length es)" "cmd AND 0x80 \<noteq> 0" "cmd AND 0x7F \<noteq> 12"
  shows "talk (cmd_wait cmd arg n) (length (concat (map acmd_bytes (es @ [e])))) (concat (map acmd_bytes (es @ [e])))
    (concat (map (acmd_sent (cmd AND 0x7F) arg) (es @ [e]))) (of_nat k)"
  using assms(1,4)
proof (induction es arbitrary: n)
  case Nil
  from talk_bind_ret [OF talk_acmd [OF assms(2,5,6), of arg], of "\<lambda>_. of_nat k"] Nil assms(3)
  show ?case
    by (simp, intro talk_bind' [OF talk_acmd [OF assms(2,5,6), of arg]]) (simp_all add: talk_ret)
next
  case (Cons e' es)
  have e': "acmd_ok e'" "resp (snd e') \<noteq> 0" using Cons.prems by auto
  have "talk (if resp (snd e') \<noteq> 0 then cmd_wait cmd arg (Suc (k + length es)) else ret (of_nat (Suc (k + length es))))
      (length (concat (map acmd_bytes (es @ [e])))) (concat (map acmd_bytes (es @ [e])))
      (concat (map (acmd_sent (cmd AND 0x7F) arg) (es @ [e]))) (of_nat k)"
    using Cons e'(2) by simp
  from talk_bind [OF talk_acmd [OF e'(1) assms(5,6), of arg],
      where f = "\<lambda>r. if r \<noteq> 0 then cmd_wait cmd arg (Suc (k + length es)) else ret (of_nat (Suc (k + length es)))", OF this]
  show ?case using Cons.prems(2) by simp
qed

text \<open>
  The common beginning of \<^verbatim>\<open>disk_initialize\<close>: ten idle bytes, \<^verbatim>\<open>CMD0\<close> and \<^verbatim>\<open>CMD8\<close>, and then
  the branch for the card at hand, which determines the type \<open>ty\<close>.
\<close>

lemma disk_initialize_run:
  assumes "dstat d AND STA_NODISK = 0" "length idle = 10" "reply_ok c0" "resp c0 = 1" "reply_ok c8"
    and "talk (if resp c8 = 1 then init_sd2 (1000 * 1000 - 1) else init_legacy (1000 * 1000 - 1)) p ins outs ty"
    and "spi_bus (spi_dev d) q (idle @ reply_bytes c0 @ reply_bytes c8 @ ins)"
    and "10 + length (reply_bytes c0) + length (reply_bytes c8) + p \<le> q"
  shows "\<exists>s. disk_initialize 0 d =
    (let st = (if ty \<noteq> 0 then dstat d AND NOT STA_NOINIT else dstat d)
     in Inr (st, d\<lparr>spi_dev := s, card_type := ty, dstat := st\<rparr>))"
proof -
  let ?probe = "ebind (send_cmd 8 0x1AA) (\<lambda>r8.
    if r8 = 1 then init_sd2 (1000 * 1000 - 1) else init_legacy (1000 * 1000 - 1))"
  let ?a = "ebind power_off (\<lambda>_. ebind power_on (\<lambda>_. ebind (collect 10 (xchg_spi 0xFF)) (\<lambda>_.
    ebind (send_cmd 0 0) (\<lambda>r0. if r0 = 1 then ?probe else ret 0))))"
  have i: "talk (collect 10 (xchg_spi 0xFF)) 10 idle (replicate 10 0xFF) idle"
    using talk_collect [of idle] assms(2) by simp
  have z: "talk (send_cmd 0 0) (length (reply_bytes c0)) (reply_bytes c0) (cmd_sent 0 0 c0) 1"
    using talk_send_packet [OF assms(3), of 0 0] assms(4) by (simp add: send_cmd_def)
  have e: "talk (send_cmd 8 0x1AA) (length (reply_bytes c8)) (reply_bytes c8) (cmd_sent 8 0x1AA c8) (resp c8)"
    using talk_send_packet [OF assms(5), of 8 "0x1AA"] by (simp add: send_cmd_def)
  have "talk (if (1 :: u8) = 1 then ?probe else ret 0) (length (reply_bytes c8) + p) (reply_bytes c8 @ ins)
      (cmd_sent 8 0x1AA c8 @ outs) ty"
    unfolding if_P [OF refl] by (rule talk_bind [OF e]) (rule assms(6))
  note zt = talk_bind [where f = "\<lambda>r0. if r0 = 1 then ?probe else ret 0", OF z this]
  have it: "talk ?a (10 + (length (reply_bytes c0) + (length (reply_bytes c8) + p)))
      (idle @ reply_bytes c0 @ reply_bytes c8 @ ins)
      (replicate 10 0xFF @ cmd_sent 0 0 c0 @ cmd_sent 8 0x1AA c8 @ outs) ty"
    by (rule talk_seq [OF talk_power(2)], rule talk_seq [OF talk_power(1)], rule talk_bind [OF i], rule zt)
  obtain s where s: "?a d = Inr (ty, d\<lparr>spi_dev := s\<rparr>)"
    using talk_run [OF it assms(7)] assms(8) by auto
  obtain s0 where s0: "power_off d = Inr ((), d\<lparr>spi_dev := s0\<rparr>)"
    by (auto simp: power_off_def spi_disable_def on_spi_def dev_simps)
  have u: "disk_initialize 0 d = (case ?a d of Inl e \<Rightarrow> Inl e | Inr r \<Rightarrow>
      (ebind (modify (\<lambda>d. d\<lparr>card_type := fst r\<rparr>)) (\<lambda>_.
       ebind deselect (\<lambda>_.
       ebind (if fst r \<noteq> 0 then modify (\<lambda>d. d\<lparr>dstat := dstat d AND NOT STA_NOINIT\<rparr>) else power_off) (\<lambda>_.
         gets dstat)))) (snd r))"
    using assms(1) s0
    by (simp add: disk_initialize_def ebind_apply gets_apply split: sum.split)
  have comm: "d\<lparr>card_type := t, spi_dev := x\<rparr> = d\<lparr>spi_dev := x, card_type := t\<rparr>" for d :: disk and t x
    by (cases d) simp
  show ?thesis
    unfolding u s
    by (cases "ty = 0"; simp add: exec_simps deselect_def spi_deselect_slave_def power_off_def spi_disable_def
        on_spi_def dev_wr_def Let_def comm; rule exI; rule refl)
qed

subsection \<open>Properties\<close>


definition reply0 :: cmd_reply where
  "reply0 = \<lparr>busy = [], junk = replicate 6 0xFF, fill = [], resp = 0\<rparr>"

lemma reply0_ok: "reply_ok reply0" "resp reply0 = 0"
  by (simp_all add: reply_ok_def reply0_def ready_after_def)

text \<open>A block-addressed card that is ready and gives the answers \<open>ins\<close>.\<close>

definition sample_disk :: "nat \<Rightarrow> u8 list \<Rightarrow> disk" where
  "sample_disk polls ins =
     \<lparr>spi_dev = \<lparr>answers = (\<lambda>r. if r = SPI_SR then replicate polls 4 else map ucast ins), wlog = []\<rparr>,
      dstat = 0, card_type = CT_SD2 OR CT_BLOCK\<rparr>"

lemma sample_disk_ready: "dstat (sample_disk n ins) AND m = 0" "card_type (sample_disk n ins) = 0xC"
  by (simp_all add: sample_disk_def disk_flags)

lemma sample_disk_bus: "spi_bus (spi_dev (sample_disk n ins)) n ins"
  by (simp add: spi_bus_def sample_disk_def spi_regs list_all_iff)

definition sample_packet :: packet where
  "sample_packet = \<lparr>gap = 2, payload = replicate 512 0xAB, checksum = [1, 2]\<rparr>"


text \<open>
  C27 (functional). Writing one sector: the 512 bytes go out after the start token, and \<^verbatim>\<open>disk_write\<close>
  reports \<^verbatim>\<open>RES_OK\<close> exactly when the card's data response accepts the block.
\<close>

theorem disk_write_single_correct:
  assumes "dstat d AND STA_NOINIT = 0" "dstat d AND STA_PROTECT = 0" "length buff \<ge> 512"
    and "reply_ok a" "resp a = 0" "block_ok w"
    and "spi_bus (spi_dev d) (length ins + 32) ins" "ins = reply_bytes a @ block_bytes w"
  shows "\<exists>s. disk_write 0 buff sector 1 d =
      Inr (if accepts w then RES_OK else RES_ERROR, d\<lparr>spi_dev := s\<rparr>) \<and>
    sent (cmd_sent 24 (sector_addr sector d) a @ block_sent 0xFE buff w) (spi_dev d) s"
proof -
  let ?body = "ebind (send_cmd 24 (sector_addr sector d)) (\<lambda>r.
    if r = 0 then ebind (xmit_datablock buff 0xFE) (\<lambda>ok. ret (if ok then 0 else 1 :: nat)) else ret 1)"
  let ?fin = "\<lambda>left :: nat. ebind deselect (\<lambda>_. ret (if left \<noteq> 0 then RES_ERROR else RES_OK))"
  have c: "talk (send_cmd 24 (sector_addr sector d)) (length (reply_bytes a)) (reply_bytes a)
      (cmd_sent 24 (sector_addr sector d) a) 0"
    using talk_send_packet [OF assms(4), of 24 "sector_addr sector d"] assms(5) by (simp add: send_cmd_def)
  have x: "talk (if (0 :: u8) = 0 then ebind (xmit_datablock buff 0xFE) (\<lambda>ok. ret (if ok then 0 else 1 :: nat)) else ret 1)
      (length (block_bytes w) + 32) (block_bytes w) (block_sent 0xFE buff w) (if accepts w then 0 else 1)"
    using talk_bind_ret [OF talk_xmit_datablock [OF assms(6) _ assms(3), of "0xFE"], of "\<lambda>ok. if ok then 0 else 1 :: nat"]
    by simp
  have b: "talk ?body (length (reply_bytes a) + (length (block_bytes w) + 32)) (reply_bytes a @ block_bytes w)
      (cmd_sent 24 (sector_addr sector d) a @ block_sent 0xFE buff w) (if accepts w then 0 else 1)"
    by (rule talk_bind [OF c]) (rule x)
  have "talk (?fin (if accepts w then 0 else 1)) 0 [] [] (if accepts w then RES_OK else RES_ERROR)"
    using talk_deselect_ret [of "if accepts w then RES_OK else RES_ERROR"] by (simp split: if_splits)
  then have t: "talk (ebind ?body ?fin) (length (reply_bytes a) + (length (block_bytes w) + 32) + 0)
      ((reply_bytes a @ block_bytes w) @ [])
      ((cmd_sent 24 (sector_addr sector d) a @ block_sent 0xFE buff w) @ []) (if accepts w then RES_OK else RES_ERROR)"
    by (rule talk_bind [OF b])
  have "disk_write 0 buff sector 1 d = ebind ?body ?fin d"
    using assms(1,2) by (simp add: disk_write_def ebind_apply gets_apply)
  then show ?thesis using talk_run [OF t, of d "length ins + 32"] assms(7,8) by simp
qed

definition sample_block :: block_reply where
  "sample_block = \<lparr>b_busy = [], b_token = 0, b_crc1 = (0, 1), b_crc2 = (0, 1), b_resp = 0xE5, b_done = [0]\<rparr>"

lemma sample_block_ok: "block_ok sample_block" "accepts sample_block"
  by (simp_all add: sample_block_def block_ok_def accepts_def ready_after_def)

theorem disk_write_single_correct_witness:
  "\<exists>ins s. disk_write 0 (replicate 512 0xCD) 7 1 (sample_disk (length ins + 32) ins) =
     Inr (RES_OK, (sample_disk (length ins + 32) ins)\<lparr>spi_dev := s\<rparr>)"
proof -
  let ?ins = "reply_bytes reply0 @ block_bytes sample_block"
  from disk_write_single_correct [where sector = 7 and ins = ?ins and buff = "replicate 512 0xCD",
      OF sample_disk_ready(1) sample_disk_ready(1) _ reply0_ok sample_block_ok(1) sample_disk_bus]
  show ?thesis by (intro exI [of _ ?ins]) (auto simp: sample_block_ok(2))
qed

text \<open>
  C15 (functional). Writing several sectors: the blocks are sent in order until one is rejected, the
  transfer is closed with the stop token, and the result is \<^verbatim>\<open>RES_OK\<close> exactly when the card has
  accepted every block.
\<close>

theorem disk_write_multi_correct:
  assumes "dstat d AND STA_NOINIT = 0" "dstat d AND STA_PROTECT = 0" "card_type d AND CT_SDC \<noteq> 0"
    and "1 < length ws" "length ws < 2 ^ 32" "length buff \<ge> 512 * length ws"
    and "acmd_ok e" "reply_ok a" "resp a = 0" "list_all block_ok ws" "ready_after bs" "ready_after cs"
    and "spi_bus (spi_dev d) (length ins + 32 * length ws) ins"
    and "ins = acmd_bytes e @ reply_bytes a @ blocks_bytes ws @ (bs @ [0xFF]) @ t # cs @ [0xFF]"
  shows "\<exists>s. disk_write 0 buff sector (of_nat (length ws)) d =
      Inr (if list_all accepts ws then RES_OK else RES_ERROR, d\<lparr>spi_dev := s\<rparr>) \<and>
    sent (acmd_sent 23 (of_nat (length ws)) e @ cmd_sent 25 (sector_addr sector d) a @ blocks_sent buff ws
      @ replicate (Suc (length bs)) 0xFF @ 0xFD # replicate (Suc (length cs)) 0xFF) (spi_dev d) s"
proof -
  let ?n = "of_nat (length ws) :: u32" and ?addr = "sector_addr sector d"
  let ?left = "length (dropWhile accepts ws)"
  let ?blocks = "ebind (write_blocks (length ws) buff) (\<lambda>left.
    ebind (xmit_datablock [] 0xFD) (\<lambda>ok. ret (if ok then left else 1)))"
  let ?cmd25 = "ebind (send_cmd 25 ?addr) (\<lambda>r. if r = 0 then ?blocks else ret (length ws))"
  let ?body = "ebind (send_cmd (0x80 + 23) ?n) (\<lambda>_. ?cmd25)"
  let ?fin = "\<lambda>left :: nat. ebind deselect (\<lambda>_. ret (if left \<noteq> 0 then RES_ERROR else RES_OK))"
  have n: "unat ?n = length ws" using assms(5) by (simp add: unsigned_of_nat take_bit_nat_eq_self)
  then have n1: "?n \<noteq> 0" "?n \<noteq> 1" using assms(4) by (metis less_nat_zero_code unsigned_0, metis less_irrefl unsigned_1)
  have 1: "talk (send_cmd (0x80 + 23) ?n) (length (acmd_bytes e)) (acmd_bytes e) (acmd_sent 23 ?n e) (resp (snd e))"
    using talk_acmd [OF assms(7), of "0x80 + 23" ?n] by simp
  have 2: "talk (send_cmd 25 ?addr) (length (reply_bytes a)) (reply_bytes a) (cmd_sent 25 ?addr a) 0"
    using talk_send_packet [OF assms(8), of 25 ?addr] assms(9) by (simp add: send_cmd_def)
  have 3: "talk (write_blocks (length ws) buff) (blocks_polls ws) (blocks_bytes ws) (blocks_sent buff ws) ?left"
    by (rule talk_write_blocks [OF assms(10,6)])
  have 4: "talk (ebind (xmit_datablock [] 0xFD) (\<lambda>ok. ret (if ok then ?left else 1))) (length bs + length cs + 3)
      ((bs @ [0xFF]) @ t # cs @ [0xFF]) (replicate (Suc (length bs)) 0xFF @ 0xFD # replicate (Suc (length cs)) 0xFF) ?left"
    using talk_bind_ret [OF talk_stop_token [OF assms(11,12)], of "\<lambda>ok. if ok then ?left else 1"] by simp
  note 34 = talk_bind [OF 3, where f = "\<lambda>left. ebind (xmit_datablock [] 0xFD) (\<lambda>ok. ret (if ok then left else 1))", OF 4]
  then have 34: "talk (if (0 :: u8) = 0 then ?blocks else ret (length ws)) (blocks_polls ws + (length bs + length cs + 3))
      (blocks_bytes ws @ (bs @ [0xFF]) @ t # cs @ [0xFF])
      (blocks_sent buff ws @ replicate (Suc (length bs)) 0xFF @ 0xFD # replicate (Suc (length cs)) 0xFF) ?left"
    by simp
  note 234 = talk_bind [OF 2, where f = "\<lambda>r. if r = 0 then ?blocks else ret (length ws)", OF 34]
  note 1234 = talk_bind [OF 1, where f = "\<lambda>_. ?cmd25", OF 234]
  have "?left \<noteq> 0 \<longleftrightarrow> \<not> list_all accepts ws" by (auto simp: list_all_iff dropWhile_eq_Nil_conv)
  then have fin: "talk (?fin ?left) 0 [] [] (if list_all accepts ws then RES_OK else RES_ERROR)"
    using talk_deselect_ret [of "if list_all accepts ws then RES_OK else RES_ERROR"] by (simp split: if_splits)
  note t = talk_bind [OF 1234, where f = ?fin, OF fin]
  have "disk_write 0 buff sector ?n d = ebind ?body ?fin d"
    using assms(1-3) n1 unfolding disk_write_def n by (simp add: ebind_apply gets_apply)
  then show ?thesis
    using talk_run [OF t, of d "length ins + 32 * length ws"] assms(13,14) blocks_polls_le [of ws] by simp
qed

theorem disk_write_multi_correct_witness:
  "\<exists>ins s. disk_write 0 (replicate 1024 0xCD) 7 2 (sample_disk (length ins + 64) ins) =
     Inr (RES_OK, (sample_disk (length ins + 64) ins)\<lparr>spi_dev := s\<rparr>)"
proof -
  let ?ws = "[sample_block, sample_block]"
  let ?ins = "acmd_bytes (reply0, reply0) @ reply_bytes reply0 @ blocks_bytes ?ws @ ([] @ [0xFF]) @ 0 # [] @ [0xFF]"
  let ?d = "sample_disk (length ?ins + 32 * length ?ws) ?ins"
  have "card_type ?d AND CT_SDC \<noteq> 0" by (simp add: sample_disk_ready disk_flags)
  moreover have "acmd_ok (reply0, reply0)" by (simp add: acmd_ok_def reply0_ok)
  moreover have "list_all block_ok ?ws" by (simp add: sample_block_ok)
  moreover have "ready_after []" by (simp add: ready_after_def)
  ultimately have "\<exists>s. disk_write 0 (replicate 1024 0xCD) 7 (of_nat (length ?ws)) ?d =
      Inr (if list_all accepts ?ws then RES_OK else RES_ERROR, ?d\<lparr>spi_dev := s\<rparr>) \<and>
    sent (acmd_sent 23 (of_nat (length ?ws)) (reply0, reply0) @ cmd_sent 25 (sector_addr 7 ?d) reply0
      @ blocks_sent (replicate 1024 0xCD) ?ws @ replicate (Suc (length ([] :: u8 list))) 0xFF
      @ 0xFD # replicate (Suc (length ([] :: u8 list))) 0xFF) (spi_dev ?d) s"
    by (intro disk_write_multi_correct [OF sample_disk_ready(1) sample_disk_ready(1) _ _ _ _ _ reply0_ok _ _ _ sample_disk_bus])
      (simp_all del: append_Nil)
  then show ?thesis by (intro exI [of _ ?ins]) (auto simp: sample_block_ok(2))
qed

text \<open>
  C26 (liveness). A version 2 card that answers \<^verbatim>\<open>CMD0\<close> and \<^verbatim>\<open>CMD8\<close>, is busy for fewer than 999999
  attempts of \<^verbatim>\<open>ACMD41\<close>, then leaves the idle state and answers \<^verbatim>\<open>CMD58\<close>, is initialised:
  \<^verbatim>\<open>disk_initialize\<close> returns with \<^verbatim>\<open>STA_NOINIT\<close> cleared, and the card is taken as block-addressed
  exactly when the CCS bit of its OCR is set.
\<close>

theorem sd2_card_initialised:
  assumes "dstat d AND STA_NODISK = 0" "length idle = 10"
    and "reply_ok c0" "resp c0 = 1" "reply_ok c8" "resp c8 = 1"
    and "length r7 = 4" "r7 ! 2 = 0x01" "r7 ! 3 = 0xAA"
    and "list_all (\<lambda>e. acmd_ok e \<and> resp (snd e) \<noteq> 0) es" "length es + 1 < 999999" "acmd_ok e" "resp (snd e) = 0"
    and "reply_ok c58" "resp c58 = 0" "length ocr = 4"
    and "spi_bus (spi_dev d) (length ins) ins"
    and "ins = idle @ reply_bytes c0 @ reply_bytes c8 @ r7 @ concat (map acmd_bytes (es @ [e])) @ reply_bytes c58 @ ocr"
  shows "\<exists>s. disk_initialize 0 d =
    (let st = dstat d AND NOT STA_NOINIT
     in Inr (st, d\<lparr>spi_dev := s,
       card_type := (if ocr ! 0 AND 0x40 \<noteq> 0 then CT_SD2 OR CT_BLOCK else CT_SD2), dstat := st\<rparr>))"
proof -
  let ?ty = "if ocr ! 0 AND 0x40 \<noteq> 0 then CT_SD2 OR CT_BLOCK else CT_SD2"
  let ?ocr = "ebind (collect 4 (xchg_spi 0xFF)) (\<lambda>ocr. ret (if ocr ! 0 AND 0x40 \<noteq> 0 then CT_SD2 OR CT_BLOCK else CT_SD2))"
  obtain k where k0: "999999 = k + Suc (length es)" "0 < k" "k < 2 ^ 32"
    using assms(11) that [of "999999 - Suc (length es)"] by auto
  then have "unat (of_nat k :: u32) \<noteq> 0" by (simp add: unsigned_of_nat take_bit_nat_eq_self)
  then have k: "unat (1000 * 1000 - 1 :: u32) = k + Suc (length es)" "(of_nat k :: u32) \<noteq> 0"
    using k0(1) by auto
  have 1: "talk (collect 4 (xchg_spi 0xFF)) 4 r7 (replicate 4 0xFF) r7"
    using talk_collect [of r7] assms(7) by simp
  have 2: "talk (cmd_wait (0x80 + 41) (push_bit 30 1) (unat (1000 * 1000 - 1 :: u32)))
      (length (concat (map acmd_bytes (es @ [e])))) (concat (map acmd_bytes (es @ [e])))
      (concat (map (acmd_sent (0x80 + 41 AND 0x7F) (push_bit 30 1)) (es @ [e]))) (of_nat k)"
    by (rule talk_cmd_wait [OF assms(10,12,13) k(1)]) simp_all
  have 3: "talk (send_cmd 58 0) (length (reply_bytes c58)) (reply_bytes c58) (cmd_sent 58 0 c58) 0"
    using talk_send_packet [OF assms(14), of 58 0] assms(15) by (simp add: send_cmd_def)
  have 4: "talk (if (0 :: u8) = 0 then ?ocr else ret 0) 4 ocr (replicate 4 0xFF) ?ty"
    using talk_bind_ret [OF talk_collect [of ocr], of "\<lambda>ocr. if ocr ! 0 AND 0x40 \<noteq> 0 then CT_SD2 OR CT_BLOCK else CT_SD2"]
      assms(16) by simp
  note 34 = talk_bind [OF 3, where f = "\<lambda>r. if r = 0 then ?ocr else ret 0", OF 4]
  have 34: "talk (if (of_nat k :: u32) \<noteq> 0 then ebind (send_cmd 58 0) (\<lambda>r. if r = 0 then ?ocr else ret 0) else ret 0)
      (length (reply_bytes c58) + 4) (reply_bytes c58 @ ocr) (cmd_sent 58 0 c58 @ replicate 4 0xFF) ?ty"
    unfolding if_P [OF k(2)] by (rule 34)
  note 234 = talk_bind [OF 2, where f = "\<lambda>timeout. if timeout \<noteq> 0 then
      ebind (send_cmd 58 0) (\<lambda>r. if r = 0 then ?ocr else ret 0) else ret 0", OF 34]
  have t: "talk (if resp c8 = 1 then init_sd2 (1000 * 1000 - 1) else init_legacy (1000 * 1000 - 1))
      (4 + (length (concat (map acmd_bytes (es @ [e]))) + (length (reply_bytes c58) + 4)))
      (r7 @ concat (map acmd_bytes (es @ [e])) @ reply_bytes c58 @ ocr)
      (replicate 4 0xFF @ concat (map (acmd_sent (0x80 + 41 AND 0x7F) (push_bit 30 1)) (es @ [e]))
        @ cmd_sent 58 0 c58 @ replicate 4 0xFF) ?ty"
    unfolding init_sd2_def if_P [OF assms(6)]
    by (rule talk_bind [OF 1], simp only: assms(8,9) simp_thms if_True, rule 234)
  have "?ty \<noteq> 0" by (simp add: disk_flags)
  then show ?thesis
    using disk_initialize_run [OF assms(1-5) t, of "length ins"] assms(2,7,16,17,18) by (simp add: Let_def)
qed

theorem sd2_card_initialised_witness:
  "\<exists>ins s. disk_initialize 0 ((sample_disk (length ins) ins)\<lparr>dstat := STA_NOINIT\<rparr>) =
     Inr (0, (sample_disk (length ins) ins)\<lparr>dstat := STA_NOINIT, spi_dev := s, card_type := 0xC, dstat := 0\<rparr>)"
proof -
  let ?c1 = "reply0\<lparr>resp := 1\<rparr>"
  let ?es = "[(reply0, ?c1)]" and ?e = "(reply0, reply0)"
  let ?ins = "replicate 10 0xFF @ reply_bytes ?c1 @ reply_bytes ?c1 @ [0, 0, 1, 0xAA] @
    concat (map acmd_bytes (?es @ [?e])) @ reply_bytes reply0 @ [0x40, 0, 0, 0]"
  let ?d = "(sample_disk (length ?ins) ?ins)\<lparr>dstat := STA_NOINIT\<rparr>"
  have c1: "reply_ok ?c1" "resp ?c1 = 1"
    by (simp_all add: reply_ok_def reply0_def ready_after_def)
  have es: "list_all (\<lambda>e. acmd_ok e \<and> resp (snd e) \<noteq> 0) ?es" "acmd_ok ?e" "resp (snd ?e) = 0"
    using c1 reply0_ok by (simp_all add: acmd_ok_def)
  have b: "spi_bus (spi_dev ?d) (length ?ins) ?ins"
    using sample_disk_bus [of "length ?ins" ?ins] by simp
  have d: "dstat ?d AND STA_NODISK = 0" by (simp add: disk_flags)
  have "\<exists>s. disk_initialize 0 ?d =
    (let st = dstat ?d AND NOT STA_NOINIT
     in Inr (st, ?d\<lparr>spi_dev := s,
       card_type := (if [0x40, 0, 0, 0 :: u8] ! 0 AND 0x40 \<noteq> 0 then CT_SD2 OR CT_BLOCK else CT_SD2), dstat := st\<rparr>))"
    by (rule sd2_card_initialised [OF d _ c1 c1 _ _ _ es(1) _ es(2,3) reply0_ok _ b refl]) simp_all
  then show ?thesis by (intro exI [of _ ?ins]) (simp add: Let_def disk_flags)
qed



end
