(* ===== verification/Mtrap.thy ===== *)
theory Mtrap
  imports C_String Snprintf Devices Emulation
begin

text \<open>
  Machine-mode traps of the boot loader (\<^verbatim>\<open>fs/mtrap.c\<close>, \<^verbatim>\<open>fs/sbi_impl.c\<close>): console, timer and
  software interrupts, the calls that the supervisor makes into machine mode, interrupts between
  harts and traps out of machine mode itself. The harts share one state; \<open>cur\<close> is the hart that is
  executing. What the other harts do while it waits for them is given in advance, as the sequence
  \<open>env\<close> of batches of their steps, so that a theorem over all sequences covers all interleavings.
\<close>

subsection \<open>State\<close>

datatype fence = Fence_I | Sfence_VM

text \<open>A step of another hart: it takes its software interrupt, or it sends an event.\<close>

datatype env_step = Env_Take nat | Env_Post nat u32

record soc =
  harts :: "hart list"
  cur :: nat
  tagctrl :: "(u64 \<times> u64) list"
  uart_dev :: mmio
  rtc2 :: rtc
  pmem :: mem
  config_addr :: u64
  fence_log :: "(nat \<times> fence) list"
  env :: "env_step list list"
  exited :: bool
  start_instret :: u64

text \<open>
  A call leaves by redirecting the trap to the supervisor or by switching the machine off. \<open>Starved\<close>
  is a wait that the given answers do not end, \<open>Undef\<close> a call that C leaves undefined.
\<close>

datatype soc_exit = Redirected soc | Powered_Off soc | Starved | Undef

type_synonym 'a sexec = "(soc, soc_exit, 'a) comp"

definition me :: "soc \<Rightarrow> hart" where
  "me s = harts s ! cur s"

definition hls_of :: "soc \<Rightarrow> nat \<Rightarrow> hls" where
  "hls_of s i = hart_hls (harts s ! i)"

definition upd_hart :: "nat \<Rightarrow> (hart \<Rightarrow> hart) \<Rightarrow> soc \<Rightarrow> soc" where
  "upd_hart i f s = s\<lparr>harts := (harts s)[i := f (harts s ! i)]\<rparr>"

definition upd_hls :: "nat \<Rightarrow> (hls \<Rightarrow> hls) \<Rightarrow> soc \<Rightarrow> soc" where
  "upd_hls i f = upd_hart i (\<lambda>h. h\<lparr>hart_hls := f (hart_hls h)\<rparr>)"

definition set_mip :: "u64 \<Rightarrow> soc \<Rightarrow> soc" where
  "set_mip m s = upd_hart (cur s) (\<lambda>h. h\<lparr>csr_mip := csr_mip h OR m\<rparr>) s"

definition clear_mip :: "u64 \<Rightarrow> soc \<Rightarrow> soc" where
  "clear_mip m s = upd_hart (cur s) (\<lambda>h. h\<lparr>csr_mip := csr_mip h AND NOT m\<rparr>) s"

definition set_mie :: "u64 \<Rightarrow> soc \<Rightarrow> soc" where
  "set_mie m s = upd_hart (cur s) (\<lambda>h. h\<lparr>csr_mie := csr_mie h OR m\<rparr>) s"

definition clear_mie :: "u64 \<Rightarrow> soc \<Rightarrow> soc" where
  "clear_mie m s = upd_hart (cur s) (\<lambda>h. h\<lparr>csr_mie := csr_mie h AND NOT m\<rparr>) s"

definition MIP_SSIP :: u64 where "MIP_SSIP = 0x2"
definition MIP_MSIP :: u64 where "MIP_MSIP = 0x8"
definition MIP_STIP :: u64 where "MIP_STIP = 0x20"
definition MIP_MTIP :: u64 where "MIP_MTIP = 0x80"

lemmas mip_defs = MIP_SSIP_def MIP_MSIP_def MIP_STIP_def MIP_MTIP_def

definition on_uart :: "'a dev \<Rightarrow> 'a sexec" where
  "on_uart m s =
     (case m (uart_dev s) of
        Inl _ \<Rightarrow> Inl Starved
      | Inr (a, d) \<Rightarrow> Inr (a, s\<lparr>uart_dev := d\<rparr>))"

subsection \<open>Console output\<close>

definition ascii :: "string \<Rightarrow> u8 list" where
  "ascii = map of_char"

definition mcall_console_putchar :: "u8 \<Rightarrow> u64 sexec" where
  "mcall_console_putchar ch = ebind (on_uart (uart_send ch)) (\<lambda>_. ret 0)"

definition putstring :: "u8 list \<Rightarrow> unit sexec" where
  "putstring str = for_each (\<lambda>c. ebind (mcall_console_putchar c) (\<lambda>_. ret ())) str"

text \<open>The text is cut to the 256 bytes of the buffer on the stack.\<close>

definition printm :: "u8 list \<Rightarrow> va_arg list \<Rightarrow> unit sexec" where
  "printm fmt vl =
     (case vsnprintf (replicate 256 0) 256 fmt vl of
        None \<Rightarrow> (\<lambda>s. Inl Undef)
      | Some (_, buf) \<Rightarrow> putstring (takeWhile (\<lambda>c. c \<noteq> 0) buf))"

text \<open>\<^verbatim>\<open>poweroff\<close> clears the interrupt and tag registers and jumps to the boot RAM.\<close>

definition poweroff :: "'a sexec" where
  "poweroff =
     ebind (putstring (ascii ''========================== power off ============================\<newline>'')) (\<lambda>_ s.
       let s1 = clear_mie (- 1) s; s2 = clear_mip (- 1) s1;
           s3 = s2\<lparr>tagctrl := (tagctrl s2)[cur s2 := (0, 0)]\<rparr>
       in Inl (Powered_Off (clear_mip MIP_SSIP s3)))"

definition die :: "u32 \<Rightarrow> u8 list \<Rightarrow> va_arg list \<Rightarrow> 'a sexec" where
  "die line fmt vl =
     ebind (printm (ascii ''%s:%d: '' @ fmt @ ascii ''\<newline>'') (VaStr (ascii ''mtrap.c'') # VaInt line # vl)) (\<lambda>_.
       poweroff)"

definition die_bad_trap :: "'a sexec" where
  "die_bad_trap s =
     die 136 (ascii ''machine mode: unhandlable trap %d @ %p'')
       [VaInt (ucast (csr_mcause (me s))), VaLong (csr_mepc (me s))] s"

text \<open>A handler of one hart, run on the current hart; its only way to die is \<^verbatim>\<open>bad_trap\<close>.\<close>

definition on_hart :: "'a exec \<Rightarrow> 'a sexec" where
  "on_hart m s =
     (case m (me s) of
        Inr (a, h) \<Rightarrow> Inr (a, upd_hart (cur s) (\<lambda>_. h) s)
      | Inl (Redirect h) \<Rightarrow> Inl (Redirected (upd_hart (cur s) (\<lambda>_. h) s))
      | Inl (Die h) \<Rightarrow> die_bad_trap (upd_hart (cur s) (\<lambda>_. h) s)
      | Inl Undefined \<Rightarrow> Inl Undef)"

subsection \<open>Interrupts from devices\<close>

definition request_console_interrupt :: "unit sexec" where
  "request_console_interrupt = on_uart uart_enable_read_irq"

definition BBL_PK_RTC2_DELTA :: u64 where "BBL_PK_RTC2_DELTA = 10000000"
definition BBL_PK_MINSTRET_TERMINATE :: u64 where "BBL_PK_MINSTRET_TERMINATE = 10000000000"

definition rtc2_req_interrupt :: "unit sexec" where
  "rtc2_req_interrupt s =
     (let minstret = csr_minstret (me s);
          s1 = s\<lparr>rtc2 := rtc_update_cmp BBL_PK_RTC2_DELTA (rtc2 s)\<rparr>
      in if minstret - start_instret s1 \<ge> BBL_PK_MINSTRET_TERMINATE \<and> \<not> exited s1
         then on_hart (redirect_trap (csr_mepc (me s1)) (csr_mstatus (me s1))) (s1\<lparr>exited := True\<rparr>)
         else Inr ((), s1))"

definition console_interrupt :: "unit sexec" where
  "console_interrupt s =
     (if rtc_check_irq (rtc2 s) then rtc2_req_interrupt s
      else
        ebind (on_uart uart_check_read_irq) (\<lambda>r.
        ebind
          (if r \<noteq> 0 then
             ebind (on_uart uart_recv) (\<lambda>c.
               modify (\<lambda>s. upd_hls (cur s) (\<lambda>h. h\<lparr>console_ibuf := 1 + ucast c\<rparr>) s))
           else ret ())
          (\<lambda>_. modify (set_mip MIP_SSIP))) s)"

definition timer_interrupt :: "u64 sexec" where
  "timer_interrupt =
     ebind (modify (clear_mie MIP_MTIP)) (\<lambda>_.
     ebind (modify (set_mip MIP_STIP)) (\<lambda>_.
     ebind console_interrupt (\<lambda>_. ret 0)))"

subsection \<open>Interrupts between harts\<close>

definition IPI_SOFT :: u32 where "IPI_SOFT = 1"
definition IPI_FENCE_I :: u32 where "IPI_FENCE_I = 2"
definition IPI_SFENCE_VM :: u32 where "IPI_SFENCE_VM = 4"

definition send_ipi :: "nat \<Rightarrow> u32 \<Rightarrow> soc \<Rightarrow> soc" where
  "send_ipi recipient event s =
     (let old = mipi_pending (hls_of s recipient);
          s1 = upd_hls recipient (\<lambda>h. h\<lparr>mipi_pending := old OR event\<rparr>) s
      in if old AND event = 0 then upd_hls recipient (\<lambda>h. h\<lparr>ipi := 1\<rparr>) s1 else s1)"

definition mcall_send_ipi :: "u64 \<Rightarrow> u64 sexec" where
  "mcall_send_ipi recipient s =
     (if unat recipient \<ge> length (harts s) then Inr (- 1, s)
      else Inr (0, send_ipi (unat recipient) IPI_SOFT s))"

definition reset_ssip :: "soc \<Rightarrow> soc" where
  "reset_ssip s =
     (let s1 = clear_mip MIP_SSIP s; h = hls_of s1 (cur s1)
      in if sipi_pending h \<noteq> 0 \<or> sint (console_ibuf h) > 0 then set_mip MIP_SSIP s1 else s1)"

definition mcall_console_getchar :: "u64 sexec" where
  "mcall_console_getchar =
     ebind (gets (\<lambda>s. console_ibuf (hls_of s (cur s)))) (\<lambda>ch.
     ebind (modify (\<lambda>s. upd_hls (cur s) (\<lambda>h. h\<lparr>console_ibuf := - 1\<rparr>) s)) (\<lambda>_.
     ebind (if sint ch \<ge> 0 then request_console_interrupt else ret ()) (\<lambda>_.
     ebind (modify reset_ssip) (\<lambda>_.
       ret (scast (ch - 1))))))"

definition mcall_clear_ipi :: "u64 sexec" where
  "mcall_clear_ipi =
     ebind (gets (\<lambda>s. sipi_pending (hls_of s (cur s)))) (\<lambda>ipi.
     ebind (modify (\<lambda>s. upd_hls (cur s) (\<lambda>h. h\<lparr>sipi_pending := 0\<rparr>) s)) (\<lambda>_.
     ebind (modify reset_ssip) (\<lambda>_. ret (scast ipi))))"

definition mcall_shutdown :: "u64 sexec" where
  "mcall_shutdown = poweroff"

definition mcall_set_timer :: "u64 \<Rightarrow> u64 sexec" where
  "mcall_set_timer when =
     ebind (modify (\<lambda>s. upd_hls (cur s) (\<lambda>h. h\<lparr>timecmp := when\<rparr>) s)) (\<lambda>_.
     ebind (modify (clear_mip MIP_STIP)) (\<lambda>_.
     ebind (modify (set_mie MIP_MTIP)) (\<lambda>_. ret 0)))"

text \<open>The two fences of \<^verbatim>\<open>software_interrupt\<close> are recorded in \<open>fence_log\<close>.\<close>

definition log_fence :: "fence \<Rightarrow> soc \<Rightarrow> soc" where
  "log_fence f s = s\<lparr>fence_log := fence_log s @ [(cur s, f)]\<rparr>"

definition software_interrupt :: "soc \<Rightarrow> soc" where
  "software_interrupt s =
     (let s1 = clear_mip MIP_MSIP s;
          pending = mipi_pending (hls_of s1 (cur s1));
          s2 = upd_hls (cur s1) (\<lambda>h. h\<lparr>mipi_pending := 0\<rparr>) s1;
          s3 = (if pending AND IPI_SOFT \<noteq> 0
                then set_mip MIP_SSIP (upd_hls (cur s2) (\<lambda>h. h\<lparr>sipi_pending := 1\<rparr>) s2) else s2);
          s4 = (if pending AND IPI_FENCE_I \<noteq> 0 then log_fence Fence_I s3 else s3)
      in if pending AND IPI_SFENCE_VM \<noteq> 0 then log_fence Sfence_VM s4 else s4)"

text \<open>The other harts run between the steps of the current one.\<close>

fun env_run :: "env_step \<Rightarrow> soc \<Rightarrow> soc" where
  "env_run (Env_Take j) s =
     (if j < length (harts s) \<and> j \<noteq> cur s then (software_interrupt (s\<lparr>cur := j\<rparr>))\<lparr>cur := cur s\<rparr> else s)"
| "env_run (Env_Post i e) s = (if i < length (harts s) then send_ipi i e s else s)"

definition env_turn :: "soc \<Rightarrow> soc" where
  "env_turn s = (case env s of [] \<Rightarrow> s | b # bs \<Rightarrow> fold env_run b (s\<lparr>env := bs\<rparr>))"

text \<open>\<^verbatim>\<open>for (i = num_harts-1; i >= 0; i--) if ((mask >> i) & 1) send_ipi(i, event);\<close>\<close>

primrec send_loop :: "nat \<Rightarrow> u64 \<Rightarrow> u32 \<Rightarrow> soc \<Rightarrow> soc" where
  "send_loop 0 msk event s = s"
| "send_loop (Suc i) msk event s =
     send_loop i msk event
       (if drop_bit i msk AND 1 \<noteq> 0 then env_turn (send_ipi i event s) else s)"

text \<open>
  \<^verbatim>\<open>while (OTHER_HLS(i)->mipi_pending & event) software_interrupt();\<close> where the other harts take one
  batch of steps in each round.
\<close>

fun spin :: "env_step list list \<Rightarrow> nat \<Rightarrow> u32 \<Rightarrow> soc \<Rightarrow> soc option" where
  "spin bs i event s =
     (if mipi_pending (hls_of s i) AND event = 0 then Some (s\<lparr>env := bs\<rparr>)
      else
        (case bs of
           [] \<Rightarrow> None
         | b # bs' \<Rightarrow> spin bs' i event (fold env_run b (software_interrupt s))))"

declare spin.simps [simp del]

primrec wait_loop :: "nat \<Rightarrow> u64 \<Rightarrow> u32 \<Rightarrow> soc \<Rightarrow> soc option" where
  "wait_loop 0 msk event s = Some s"
| "wait_loop (Suc i) msk event s =
     (if drop_bit i msk AND 1 \<noteq> 0 then Option.bind (spin (env s) i event s) (wait_loop i msk event)
      else wait_loop i msk event s)"

definition ipi_mask :: "u64 \<Rightarrow> soc \<Rightarrow> u64" where
  "ipi_mask pmask s = (if pmask = 0 then - 1 else load64 (pmem s) pmask)"

definition send_ipi_many :: "u64 \<Rightarrow> u32 \<Rightarrow> unit sexec" where
  "send_ipi_many pmask event s =
     (let msk = ipi_mask pmask s; n = length (harts s)
      in case wait_loop n msk event (send_loop n msk event s) of
           None \<Rightarrow> Inl Starved
         | Some s' \<Rightarrow> Inr ((), s'))"

definition mcall_remote_sfence_vm :: "u64 \<Rightarrow> u64 \<Rightarrow> u64 sexec" where
  "mcall_remote_sfence_vm hart_mask asid = ebind (send_ipi_many hart_mask IPI_SFENCE_VM) (\<lambda>_. ret 0)"

definition mcall_remote_fence_i :: "u64 \<Rightarrow> u64 sexec" where
  "mcall_remote_fence_i hart_mask = ebind (send_ipi_many hart_mask IPI_FENCE_I) (\<lambda>_. ret 0)"

subsection \<open>Calls from the supervisor\<close>

definition load32 :: "mem \<Rightarrow> u64 \<Rightarrow> u64" where
  "load32 m a = le_word (map (\<lambda>i. m (a + of_nat i)) [0..<4])"

definition mcall_hart_id :: "u64 sexec" where
  "mcall_hart_id = gets (\<lambda>s. of_nat (cur s))"

definition mcall_config_string_base :: "u64 sexec" where
  "mcall_config_string_base = gets (\<lambda>s. load32 (pmem s) (config_addr s))"

definition mcall_config_string_size :: "u64 sexec" where
  "mcall_config_string_size =
     ebind mcall_config_string_base (\<lambda>str s.
       case strlen (pmem s) str of None \<Rightarrow> Inl Starved | Some n \<Rightarrow> Inr (n + 1, s))"

text \<open>The handler of file system requests is a parameter; \<open>ENOSYS\<close> is 88 in the C library of the loader.\<close>

definition mcall_htif_syscall :: "(u64 \<Rightarrow> unit sexec) \<Rightarrow> u64 \<Rightarrow> u64 sexec" where
  "mcall_htif_syscall dispatch_htif_syscall magic_mem =
     ebind (dispatch_htif_syscall magic_mem) (\<lambda>_. ret 0)"

definition mcall :: "(u64 \<Rightarrow> unit sexec) \<Rightarrow> u64 \<Rightarrow> u64 \<Rightarrow> u64 \<Rightarrow> u64 sexec" where
  "mcall htif n arg0 arg1 =
     (if n = 0 then mcall_hart_id
      else if n = 1 then mcall_console_putchar (ucast arg0)
      else if n = 2 then mcall_console_getchar
      else if n = 3 then mcall_htif_syscall htif arg0
      else if n = 4 then mcall_send_ipi arg0
      else if n = 5 then mcall_clear_ipi
      else if n = 6 then mcall_shutdown
      else if n = 7 then mcall_set_timer arg0
      else if n = 8 then mcall_remote_sfence_vm arg0 arg1
      else if n = 9 then mcall_remote_fence_i arg0
      else if n = 10 then mcall_config_string_base
      else if n = 11 then mcall_config_string_size
      else ret (- 88))"

definition mcall_trap :: "(u64 \<Rightarrow> unit sexec) \<Rightarrow> u64 \<Rightarrow> unit sexec" where
  "mcall_trap htif mepc =
     ebind (gets (\<lambda>s. x_regs (me s))) (\<lambda>regs.
     ebind (mcall htif (regs ! 17) (regs ! 10) (regs ! 11)) (\<lambda>retval.
     ebind (modify (\<lambda>s. upd_hart (cur s) (\<lambda>h. h\<lparr>x_regs := (x_regs h)[10 := retval]\<rparr>) s)) (\<lambda>_.
       modify (\<lambda>s. upd_hart (cur s) (\<lambda>h. h\<lparr>csr_mepc := mepc + 4\<rparr>) s))))"

subsection \<open>Traps from machine mode, and the handlers of this boot loader\<close>

text \<open>\<open>a2\<close> and \<open>a3\<close> are the registers of the interrupted machine-mode code.\<close>

definition trap_from_machine_mode :: "u64 \<Rightarrow> u64 \<Rightarrow> unit sexec" where
  "trap_from_machine_mode a2 a3 s =
     (let mcause = csr_mcause (me s)
      in if (ucast (drop_bit 63 mcause) :: u8) \<noteq> 0 then
           if rtc_check_irq (rtc2 s) then rtc2_req_interrupt s
           else
             ebind (printm (ascii ''machine mode cant not handle interrupt mcause= %p\<newline>'') [VaLong mcause]) (\<lambda>_.
               die_bad_trap) s
         else if mcause = CAUSE_FAULT_LOAD \<or> mcause = CAUSE_FAULT_STORE then on_hart (machine_page_fault a2 a3) s
         else die_bad_trap s)"

text \<open>This loader does not emulate instructions: an illegal one is fatal.\<close>

definition fs_illegal_insn_trap :: "u64 \<Rightarrow> u64 \<Rightarrow> unit sexec" where
  "fs_illegal_insn_trap mcause mepc =
     ebind (printm (ascii ''illegal_insn_trap @ %p, cause %d'') [VaLong mepc, VaInt (ucast mcause)]) (\<lambda>_ s.
       die 40 (ascii ''insn is %llx'') [VaLong (load64 (pmem s) (mepc AND NOT 7))] s)"

definition fs_load_decode :: "u32 \<Rightarrow> (nat \<times> nat) option" where
  "fs_load_decode insn =
     (if insn AND 0x707f = 0x2003 then Some (4, 8 * (8 - 4))
      else if insn AND 0x707f = 0x3003 then Some (8, 8 * (8 - 8))
      else if insn AND 0x707f = 0x6003 then Some (4, 0)
      else if insn AND 0x707f = 0x1003 then Some (2, 8 * (8 - 2))
      else if insn AND 0x707f = 0x5003 then Some (2, 0)
      else None)"

text \<open>The handler first writes \<^verbatim>\<open>mepc\<close>, reads it back and restores it.\<close>

definition check_mepc :: "unit exec" where
  "check_mepc =
     ebind (gets csr_mepc) (\<lambda>omepc.
     ebind (write_mepc 0x100000) (\<lambda>_.
     ebind (gets csr_mepc) (\<lambda>new_epc.
       if new_epc \<noteq> 0x100000 then bad_trap else write_mepc omepc)))"

definition fs_misaligned_load_trap :: "u64 \<Rightarrow> u64 \<Rightarrow> unit exec" where
  "fs_misaligned_load_trap mcause mepc =
     ebind check_mepc (\<lambda>_.
     ebind (get_insn mepc) (\<lambda>(insn, mstatus).
     ebind (gets csr_mbadaddr) (\<lambda>addr.
       (case fs_load_decode insn of
          None \<Rightarrow> truly_illegal_insn mcause mepc mstatus insn
        | Some (len, shift) \<Rightarrow>
            ebind (load_loop len addr mepc (replicate 8 0)) (\<lambda>bytes.
            ebind (SET_RD insn (signed_drop_bit shift (push_bit shift (le_word bytes)))) (\<lambda>_.
              write_mepc (mepc + 4)))))))"

definition fs_store_len :: "u32 \<Rightarrow> nat option" where
  "fs_store_len insn =
     (if insn AND 0x707f = 0x2023 then Some 4
      else if insn AND 0x707f = 0x3023 then Some 8
      else if insn AND 0x707f = 0x1023 then Some 2
      else None)"

definition fs_misaligned_store_trap :: "u64 \<Rightarrow> u64 \<Rightarrow> unit exec" where
  "fs_misaligned_store_trap mcause mepc =
     ebind (get_insn mepc) (\<lambda>(insn, mstatus).
     ebind (gets (GET_RS2 insn)) (\<lambda>val.
       (case fs_store_len insn of
          None \<Rightarrow> truly_illegal_insn mcause mepc mstatus insn
        | Some len \<Rightarrow>
            ebind (gets csr_mbadaddr) (\<lambda>addr.
            ebind (store_loop 0 addr (take len (le_bytes 8 val)) mepc) (\<lambda>_.
              write_mepc (mepc + 4))))))"

subsection \<open>Calls that stay in the supervisor\<close>

text \<open>
  \<^verbatim>\<open>__sbi_query_memory\<close> from the globals \<^verbatim>\<open>first_free_paddr\<close> and \<^verbatim>\<open>mem_size\<close> and the constant
  \<^verbatim>\<open>DRAM_BASE\<close>: the return value, and base and size of the block.
\<close>

definition sbi_query_memory :: "u64 \<Rightarrow> u64 \<Rightarrow> u64 \<Rightarrow> u64 \<Rightarrow> u64 \<times> (u64 \<times> u64) option" where
  "sbi_query_memory first_free_paddr mem_size dram_base ident =
     (if ident = 0 then (0, Some (first_free_paddr, mem_size + dram_base - first_free_paddr)) else (- 1, None))"

definition LOW_IRQ_OK :: "u64 \<Rightarrow> bool" where
  "LOW_IRQ_OK n \<longleftrightarrow> n = 1 \<or> n = 5"

definition sbi_mask_interrupt :: "u64 \<Rightarrow> u64 sexec" where
  "sbi_mask_interrupt which s =
     (if \<not> LOW_IRQ_OK which then Inr (- 1, s)
      else Inr (0, upd_hart (cur s) (\<lambda>h. h\<lparr>csr_sie := csr_sie h AND NOT (push_bit (unat which) 1)\<rparr>) s))"

definition sbi_unmask_interrupt :: "u64 \<Rightarrow> u64 sexec" where
  "sbi_unmask_interrupt which s =
     (if \<not> LOW_IRQ_OK which then Inr (- 1, s)
      else Inr (0, upd_hart (cur s) (\<lambda>h. h\<lparr>csr_sie := csr_sie h OR push_bit (unat which) 1\<rparr>) s))"

subsection \<open>Frame lemmas\<close>

lemma upd_hart_simps [simp]:
  "length (harts (upd_hart i f s)) = length (harts s)" "cur (upd_hart i f s) = cur s"
  "fence_log (upd_hart i f s) = fence_log s" "env (upd_hart i f s) = env s"
  "pmem (upd_hart i f s) = pmem s"
  by (simp_all add: upd_hart_def)

lemma upd_hls_simps [simp]:
  "length (harts (upd_hls i f s)) = length (harts s)" "cur (upd_hls i f s) = cur s"
  "fence_log (upd_hls i f s) = fence_log s" "env (upd_hls i f s) = env s"
  by (simp_all add: upd_hls_def)

lemma harts_upd_hart:
  "i < length (harts s) \<Longrightarrow> j < length (harts s) \<Longrightarrow>
    harts (upd_hart i f s) ! j = (if j = i then f (harts s ! i) else harts s ! j)"
  by (simp add: upd_hart_def)

lemma hls_of_upd_hls:
  "i < length (harts s) \<Longrightarrow> j < length (harts s) \<Longrightarrow>
    hls_of (upd_hls i f s) j = (if j = i then f (hls_of s i) else hls_of s j)"
  by (simp add: hls_of_def upd_hls_def harts_upd_hart)

lemma hls_of_mip:
  assumes "cur s < length (harts s)" "j < length (harts s)"
  shows "hls_of (set_mip m s) j = hls_of s j" "hls_of (clear_mip m s) j = hls_of s j"
  using assms by (auto simp: set_mip_def clear_mip_def hls_of_def harts_upd_hart)

lemma mip_simps [simp]:
  "length (harts (set_mip m s)) = length (harts s)" "cur (set_mip m s) = cur s"
  "fence_log (set_mip m s) = fence_log s" "env (set_mip m s) = env s"
  "length (harts (clear_mip m s)) = length (harts s)" "cur (clear_mip m s) = cur s"
  "fence_log (clear_mip m s) = fence_log s" "env (clear_mip m s) = env s"
  by (simp_all add: set_mip_def clear_mip_def)

lemma log_fence_simps [simp]:
  "harts (log_fence f s) = harts s" "cur (log_fence f s) = cur s" "env (log_fence f s) = env s"
  "fence_log (log_fence f s) = fence_log s @ [(cur s, f)]" "hls_of (log_fence f s) j = hls_of s j"
  by (simp_all add: log_fence_def hls_of_def)

text \<open>What a software interrupt does: it takes the pending events and executes their fences.\<close>

definition fences_of :: "nat \<Rightarrow> u32 \<Rightarrow> (nat \<times> fence) list" where
  "fences_of i pending =
     (if pending AND IPI_FENCE_I \<noteq> 0 then [(i, Fence_I)] else [])
     @ (if pending AND IPI_SFENCE_VM \<noteq> 0 then [(i, Sfence_VM)] else [])"

lemma software_interrupt_effect:
  assumes "cur s < length (harts s)"
  shows "length (harts (software_interrupt s)) = length (harts s)" "cur (software_interrupt s) = cur s"
    "env (software_interrupt s) = env s"
    "fence_log (software_interrupt s) = fence_log s @ fences_of (cur s) (mipi_pending (hls_of s (cur s)))"
    and "j < length (harts s) \<Longrightarrow> mipi_pending (hls_of (software_interrupt s) j) =
      (if j = cur s then 0 else mipi_pending (hls_of s j))"
  using assms
  by (auto simp: software_interrupt_def Let_def fences_of_def hls_of_mip hls_of_upd_hls)

lemma send_ipi_effect:
  assumes "i < length (harts s)"
  shows "length (harts (send_ipi i e s)) = length (harts s)" "cur (send_ipi i e s) = cur s"
    "env (send_ipi i e s) = env s" "fence_log (send_ipi i e s) = fence_log s"
    and "j < length (harts s) \<Longrightarrow> mipi_pending (hls_of (send_ipi i e s) j) =
      (if j = i then mipi_pending (hls_of s i) OR e else mipi_pending (hls_of s j))"
  using assms by (auto simp: send_ipi_def Let_def hls_of_upd_hls)

lemma hls_of_cur [simp]: "hls_of (s\<lparr>cur := c\<rparr>) j = hls_of s j" "hls_of (s\<lparr>env := b\<rparr>) j = hls_of s j"
  by (simp_all add: hls_of_def)

subsection \<open>Remote fences\<close>

text \<open>
  The event and the fence it asks for. While a fence is outstanding at hart \<open>i\<close>, either the event is
  still pending there or the hart has executed the fence since the log had length \<open>l\<close>.
\<close>

definition event_fence :: "u32 \<Rightarrow> fence \<Rightarrow> bool" where
  "event_fence event f \<longleftrightarrow> event = IPI_FENCE_I \<and> f = Fence_I \<or> event = IPI_SFENCE_VM \<and> f = Sfence_VM"

text \<open>The event 0 is never pending, so that \<open>served l 0 f i\<close> says that the fence has been executed.\<close>

definition traced :: "u32 \<Rightarrow> fence \<Rightarrow> bool" where
  "traced event f \<longleftrightarrow> event = 0 \<or> event_fence event f"

definition served :: "nat \<Rightarrow> u32 \<Rightarrow> fence \<Rightarrow> nat \<Rightarrow> soc \<Rightarrow> bool" where
  "served l event f i s \<longleftrightarrow> i < length (harts s) \<and> cur s < length (harts s) \<and> l \<le> length (fence_log s) \<and>
     (mipi_pending (hls_of s i) AND event \<noteq> 0 \<or> (i, f) \<in> set (drop l (fence_log s)))"

lemma served_software_interrupt:
  assumes "served l event f i s" "traced event f"
  shows "served l event f i (software_interrupt s)"
  using assms
  by (auto simp: served_def software_interrupt_effect traced_def event_fence_def fences_of_def)

lemma or_and_nonzero: "(a :: u32) AND m \<noteq> 0 \<Longrightarrow> (a OR b) AND m \<noteq> 0"
  by (metis or_eq_0_iff bit.conj_disj_distrib2)

lemma served_env_run:
  assumes "served l event f i s" "traced event f"
  shows "served l event f i (env_run x s)"
proof (cases x)
  case (Env_Take j)
  show ?thesis
  proof (cases "j < length (harts s) \<and> j \<noteq> cur s")
    case True
    have "served l event f i (s\<lparr>cur := j\<rparr>)" using assms(1) True by (simp add: served_def)
    from served_software_interrupt [OF this assms(2)] show ?thesis
      using True Env_Take assms(1) software_interrupt_effect(1) [of "s\<lparr>cur := j\<rparr>"] by (simp add: served_def)
  qed (use assms Env_Take in auto)
next
  case (Env_Post j e)
  then show ?thesis
    using assms or_and_nonzero [of "mipi_pending (hls_of s i)" event e]
    by (auto simp: served_def send_ipi_effect)
qed

lemma served_fold:
  "served l event f i s \<Longrightarrow> traced event f \<Longrightarrow> served l event f i (fold env_run b s)"
  by (induction b arbitrary: s) (simp_all add: served_env_run)

lemma served_env_turn:
  assumes "served l event f i s" "traced event f"
  shows "served l event f i (env_turn s)"
proof (cases "env s")
  case (Cons b bs)
  have "served l event f i (s\<lparr>env := bs\<rparr>)" using assms(1) by (simp add: served_def)
  then show ?thesis using Cons assms(2) by (simp add: env_turn_def served_fold)
qed (use assms in \<open>simp add: env_turn_def\<close>)

lemma served_send:
  assumes "served l event f i s" "traced event f" "j < length (harts s)"
  shows "served l event f i (send_ipi j e s)"
  using assms or_and_nonzero [of "mipi_pending (hls_of s i)" event e]
  by (auto simp: served_def send_ipi_effect)

lemma length_harts_env_run: "cur s < length (harts s) \<Longrightarrow>
    length (harts (env_run x s)) = length (harts s) \<and> cur (env_run x s) = cur s"
  by (cases x) (auto simp: software_interrupt_effect send_ipi_effect)

lemma length_harts_fold: "cur s < length (harts s) \<Longrightarrow>
    length (harts (fold env_run b s)) = length (harts s) \<and> cur (fold env_run b s) = cur s"
  by (induction b arbitrary: s) (simp_all add: length_harts_env_run)

lemma length_harts_turn: "cur s < length (harts s) \<Longrightarrow>
    length (harts (env_turn s)) = length (harts s) \<and> cur (env_turn s) = cur s"
  using length_harts_fold [of "s\<lparr>env := bs\<rparr>" for bs] by (auto simp: env_turn_def split: list.split)

lemma length_harts_send_loop:
  assumes "cur s < length (harts s)" "n \<le> length (harts s)"
  shows "length (harts (send_loop n m e s)) = length (harts s) \<and> cur (send_loop n m e s) = cur s"
  using assms
  by (induction n arbitrary: s) (simp_all add: length_harts_turn send_ipi_effect)

lemma send_loop_serves:
  assumes "cur s < length (harts s)" "n \<le> length (harts s)" "l \<le> length (fence_log s)"
    and "event_fence event f" "\<forall>i \<in> S. served l event f i s"
    and "i \<in> S \<or> i < n \<and> drop_bit i m AND 1 \<noteq> 0"
  shows "served l event f i (send_loop n m event s)"
  using assms
proof (induction n arbitrary: s S)
  case (Suc n)
  have tr: "traced event f" using assms(4) by (simp add: traced_def)
  let ?s = "if drop_bit n m AND 1 \<noteq> 0 then env_turn (send_ipi n event s) else s"
  let ?S = "if drop_bit n m AND 1 \<noteq> 0 then insert n S else S"
  have n: "n < length (harts s)" using Suc.prems by simp
  have ev: "event \<noteq> 0" using assms(4) by (auto simp: event_fence_def IPI_FENCE_I_def IPI_SFENCE_VM_def)
  have sn: "served l event f n (send_ipi n event s)"
    using Suc.prems(1,3) n ev by (simp add: served_def send_ipi_effect bit.conj_disj_distrib2)
  have sv: "\<forall>j \<in> ?S. served l event f j ?s"
    using Suc.prems(5) sn n tr by (auto intro!: served_env_turn served_send)
  have len: "length (harts ?s) = length (harts s)" "cur ?s = cur s"
    using Suc.prems(1) n by (simp_all add: length_harts_turn send_ipi_effect)
  have "l \<le> length (fence_log ?s)"
    using served_env_turn [OF sn tr] Suc.prems(3) by (simp add: served_def)
  moreover have "i \<in> ?S \<or> i < n \<and> drop_bit i m AND 1 \<noteq> 0"
    using Suc.prems(6) by (auto simp: less_Suc_eq)
  ultimately show ?case
    using Suc.IH [of ?s ?S] sv len Suc.prems(1,2) assms(4) by simp
qed simp

lemma served_spin:
  assumes "spin bs j event' s = Some s'" "traced event f" "served l event f i s"
  shows "served l event f i s'"
  using assms
proof (induction bs arbitrary: s)
  case Nil
  then show ?case by (subst (asm) spin.simps) (auto simp: served_def split: if_splits)
next
  case (Cons b bs)
  show ?case
  proof (cases "mipi_pending (hls_of s j) AND event' = 0")
    case True
    then have "s' = s\<lparr>env := b # bs\<rparr>" using Cons.prems(1) by (subst (asm) spin.simps) simp
    then show ?thesis using Cons.prems(3) by (simp add: served_def)
  next
    case False
    then have "spin bs j event' (fold env_run b (software_interrupt s)) = Some s'"
      using Cons.prems(1) by (subst (asm) spin.simps) simp
    then show ?thesis
      using Cons.IH Cons.prems(2,3) by (simp add: served_fold served_software_interrupt)
  qed
qed

lemma spin_done: "spin bs j event s = Some s' \<Longrightarrow> mipi_pending (hls_of s' j) AND event = 0"
proof (induction bs arbitrary: s)
  case Nil
  then show ?case by (subst (asm) spin.simps) (auto split: if_splits)
next
  case (Cons b bs)
  then show ?case
    by (cases "mipi_pending (hls_of s j) AND event = 0") (auto simp: spin.simps [of "b # bs"])
qed

lemma served_wait:
  assumes "wait_loop n m event' s = Some s'" "traced event f" "served l event f i s"
  shows "served l event f i s'"
  using assms
  by (induction n arbitrary: s) (auto split: if_splits bind_splits dest: served_spin)

lemma wait_loop_executed:
  assumes "wait_loop n m event s = Some s'" "event_fence event f"
    and "\<forall>i<n. drop_bit i m AND 1 \<noteq> 0 \<longrightarrow> served l event f i s" "i < n" "drop_bit i m AND 1 \<noteq> 0"
  shows "(i, f) \<in> set (drop l (fence_log s'))"
  using assms
proof (induction n arbitrary: s)
  case (Suc n)
  have tr: "traced event f" "traced 0 f" using assms(2) by (simp_all add: traced_def)
  show ?case
  proof (cases "drop_bit n m AND 1 \<noteq> 0")
    case True
    then obtain s1 where s1: "spin (env s) n event s = Some s1" "wait_loop n m event s1 = Some s'"
      using Suc.prems(1) by (auto split: bind_splits)
    have keep: "\<forall>j<n. drop_bit j m AND 1 \<noteq> 0 \<longrightarrow> served l event f j s1"
      using Suc.prems(3) served_spin [OF s1(1) tr(1)] by auto
    have "served l 0 f n s1"
      using served_spin [OF s1(1) tr(1), of l n] Suc.prems(3) True spin_done [OF s1(1)] by (auto simp: served_def)
    then have "served l 0 f n s'" by (rule served_wait [OF s1(2) tr(2)])
    then show ?thesis
      using Suc.IH [OF s1(2) assms(2) keep] Suc.prems(4,5) by (cases "i = n") (auto simp: served_def)
  next
    case False
    then show ?thesis using Suc by (auto simp: less_Suc_eq)
  qed
qed simp

text \<open>Batches in which every other hart takes its interrupt, and nobody sends the event again.\<close>

definition fair_batch :: "nat \<Rightarrow> u32 \<Rightarrow> env_step list \<Rightarrow> bool" where
  "fair_batch n event b \<longleftrightarrow>
     list_all (\<lambda>j. Env_Take j \<in> set b) [0..<n] \<and>
     list_all (\<lambda>x. case x of Env_Take _ \<Rightarrow> True | Env_Post _ e \<Rightarrow> e AND event = 0) b"

lemma quiet_env_run:
  assumes "cur s < length (harts s)" "i < length (harts s)" "mipi_pending (hls_of s i) AND event = 0"
    and "case x of Env_Take _ \<Rightarrow> True | Env_Post _ e \<Rightarrow> e AND event = 0"
  shows "mipi_pending (hls_of (env_run x s) i) AND event = 0"
  using assms
  by (cases x) (auto simp: software_interrupt_effect send_ipi_effect bit.conj_disj_distrib2)

lemma quiet_fold:
  assumes "cur s < length (harts s)" "i < length (harts s)"
    and "list_all (\<lambda>x. case x of Env_Take _ \<Rightarrow> True | Env_Post _ e \<Rightarrow> e AND event = 0) b"
    and "mipi_pending (hls_of s i) AND event = 0 \<or> Env_Take i \<in> set b \<and> i \<noteq> cur s"
  shows "mipi_pending (hls_of (fold env_run b s) i) AND event = 0"
  using assms
proof (induction b arbitrary: s)
  case (Cons x b)
  have "mipi_pending (hls_of (env_run x s) i) AND event = 0 \<or> Env_Take i \<in> set b \<and> i \<noteq> cur (env_run x s)"
  proof (cases "mipi_pending (hls_of s i) AND event = 0")
    case True
    then show ?thesis using Cons.prems quiet_env_run by auto
  next
    case False
    then show ?thesis using Cons.prems by (auto simp: software_interrupt_effect length_harts_env_run)
  qed
  then show ?case using Cons by (simp add: length_harts_env_run)
qed auto

lemma spin_returns:
  assumes "cur s < length (harts s)" "i < length (harts s)" "list_all (fair_batch (length (harts s)) event) bs" "bs \<noteq> []"
  shows "\<exists>s' bs'. spin bs i event s = Some s' \<and> env s' = bs' \<and> (bs' = bs \<or> bs' = tl bs) \<and>
    length (harts s') = length (harts s) \<and> cur s' = cur s"
proof (cases "mipi_pending (hls_of s i) AND event = 0")
  case True
  then show ?thesis by (subst spin.simps) simp
next
  case False
  obtain b bs' where bs: "bs = b # bs'" using assms(4) by (cases bs) auto
  let ?s = "fold env_run b (software_interrupt s)"
  have si: "cur (software_interrupt s) = cur s" "length (harts (software_interrupt s)) = length (harts s)"
    using assms(1) by (simp_all add: software_interrupt_effect)
  have "Env_Take i \<in> set b" using assms(2,3) bs by (auto simp: fair_batch_def list_all_iff)
  moreover have "list_all (\<lambda>x. case x of Env_Take _ \<Rightarrow> True | Env_Post _ e \<Rightarrow> e AND event = 0) b"
    using assms(3) bs by (simp add: fair_batch_def)
  ultimately have "mipi_pending (hls_of ?s i) AND event = 0"
    using assms(1,2) si by (intro quiet_fold) (auto simp: software_interrupt_effect)
  then have "spin bs' i event ?s = Some (?s\<lparr>env := bs'\<rparr>)" by (subst spin.simps) simp
  then have "spin bs i event s = Some (?s\<lparr>env := bs'\<rparr>)"
    using False bs by (subst spin.simps) simp
  then show ?thesis using bs si assms(1) length_harts_fold [of "software_interrupt s" b] by auto
qed

lemma wait_loop_returns:
  assumes "cur s < length (harts s)" "n \<le> length (harts s)" "list_all (fair_batch (length (harts s)) event) (env s)"
    and "n \<le> length (env s)"
  shows "\<exists>s'. wait_loop n m event s = Some s'"
  using assms
proof (induction n arbitrary: s)
  case (Suc n)
  have "env s \<noteq> []" using Suc.prems(4) by auto
  then obtain s1 where s1: "spin (env s) n event s = Some s1" "env s1 = env s \<or> env s1 = tl (env s)"
      "length (harts s1) = length (harts s)" "cur s1 = cur s"
    using spin_returns [of s n event "env s"] Suc.prems by auto
  have "list_all (fair_batch (length (harts s1)) event) (env s1)" "n \<le> length (env s1)"
    using s1(2,3) Suc.prems(3,4) by (cases "env s"; auto)+
  then show ?case using Suc.IH [of s1] Suc.IH [of s] Suc.prems s1 by auto
qed simp

lemma env_fold: "cur s < length (harts s) \<Longrightarrow> env (fold env_run b s) = env s"
proof (induction b arbitrary: s)
  case (Cons x b)
  have "env (env_run x s) = env s"
    using Cons.prems by (cases x) (auto simp: software_interrupt_effect send_ipi_effect)
  then show ?case using Cons by (simp add: length_harts_env_run)
qed simp

lemma env_send_loop:
  assumes "cur s < length (harts s)" "n \<le> length (harts s)"
  shows "\<exists>k \<le> n. env (send_loop n m event s) = drop k (env s)"
  using assms
proof (induction n arbitrary: s)
  case (Suc n)
  let ?s = "if drop_bit n m AND 1 \<noteq> 0 then env_turn (send_ipi n event s) else s"
  have n: "n < length (harts s)" using Suc.prems by simp
  have "env ?s = env s \<or> env ?s = drop 1 (env s)"
    using Suc.prems(1) n
    by (auto simp: env_turn_def send_ipi_effect env_fold split: list.split)
  moreover have "cur ?s < length (harts ?s)" "n \<le> length (harts ?s)"
    using Suc.prems n by (simp_all add: length_harts_turn send_ipi_effect)
  then obtain k where "k \<le> n" "env (send_loop n m event ?s) = drop k (env ?s)" using Suc.IH by blast
  ultimately have "env (send_loop (Suc n) m event s) = drop k (env s) \<or>
      env (send_loop (Suc n) m event s) = drop (Suc k) (env s)"
    by (auto simp: drop_drop)
  then show ?case using \<open>k \<le> n\<close> by (metis Suc_le_mono le_SucI)
qed simp

subsection \<open>Invariants of the machine\<close>

text \<open>A computation keeps \<open>I\<close> when it returns and when it redirects a trap.\<close>

definition outcome_ok :: "(soc \<Rightarrow> bool) \<Rightarrow> soc_exit + 'a \<times> soc \<Rightarrow> bool" where
  "outcome_ok I r = (case r of Inr (_, s) \<Rightarrow> I s | Inl (Redirected s) \<Rightarrow> I s | Inl _ \<Rightarrow> True)"

lemma outcome_ok_simps [simp]:
  "outcome_ok I (Inr (a, s)) = I s" "outcome_ok I (Inl (Redirected s)) = I s"
  "outcome_ok I (Inl (Powered_Off s))" "outcome_ok I (Inl Starved)" "outcome_ok I (Inl Undef)"
  by (simp_all add: outcome_ok_def)

definition preserves :: "(soc \<Rightarrow> bool) \<Rightarrow> 'a sexec \<Rightarrow> bool" where
  "preserves I m \<longleftrightarrow> (\<forall>s. I s \<longrightarrow> outcome_ok I (m s))"

lemma preservesI: "(\<And>s. I s \<Longrightarrow> outcome_ok I (m s)) \<Longrightarrow> preserves I m"
  by (simp add: preserves_def)

lemma preservesD: "preserves I m \<Longrightarrow> I s \<Longrightarrow> outcome_ok I (m s)"
  by (simp add: preserves_def)

named_theorems preserving \<open>computations that keep an invariant\<close>

lemma preserves_ret [preserving]: "preserves I (ret a)" "preserves I (gets f)"
  by (simp_all add: preserves_def exec_simps)

lemma preserves_modify: "(\<And>s. I s \<Longrightarrow> I (f s)) \<Longrightarrow> preserves I (modify f)"
  by (simp add: preserves_def exec_simps)

lemma preserves_bind [preserving]:
  assumes "preserves I m" "\<And>a. preserves I (f a)"
  shows "preserves I (ebind m f)"
proof (rule preservesI)
  fix s
  assume "I s"
  with assms(1) have m: "outcome_ok I (m s)" by (rule preservesD)
  show "outcome_ok I (ebind m f s)"
  proof (cases "m s")
    case (Inr r)
    obtain a s' where "r = (a, s')" by (cases r)
    then show ?thesis using Inr m preservesD [OF assms(2)] by (simp add: ebind_def)
  next
    case (Inl e)
    then show ?thesis using m by (cases e) (simp_all add: ebind_def)
  qed
qed

lemma preserves_if [preserving]:
  "preserves I a \<Longrightarrow> preserves I b \<Longrightarrow> preserves I (if c then a else b)"
  by simp

lemma preserves_for_each [preserving]:
  "(\<And>x. preserves I (f x)) \<Longrightarrow> preserves I (for_each f xs)"
  by (induction xs) (auto intro: preserving)

lemma preserves_poweroff:
  assumes "preserves I (putstring (ascii ''========================== power off ============================\<newline>''))"
  shows "preserves I poweroff"
  unfolding poweroff_def by (rule preserves_bind [OF assms]) (simp add: preserves_def Let_def)

text \<open>
  The interface to an invariant of the machine: the primitive changes of the state that keep it. The
  law \<open>hart\<close> lets a handler change everything of the current hart but its local storage, its pending
  interrupts and the size of its register file.
\<close>

locale machine_invariant =
  fixes I :: "soc \<Rightarrow> bool"
  assumes cur: "I s \<Longrightarrow> cur s < length (harts s)"
    and switch: "I s \<Longrightarrow> j < length (harts s) \<Longrightarrow> I (s\<lparr>cur := j\<rparr>)"
    and uart: "I s \<Longrightarrow> I (s\<lparr>uart_dev := d\<rparr>)"
    and rtc: "I s \<Longrightarrow> I (s\<lparr>rtc2 := c\<rparr>)"
    and flag: "I s \<Longrightarrow> I (s\<lparr>exited := x\<rparr>)"
    and envs: "I s \<Longrightarrow> I (s\<lparr>env := bs\<rparr>)"
    and hart: "I s \<Longrightarrow> hart_hls h = hart_hls (me s) \<Longrightarrow> csr_mip h = csr_mip (me s) \<Longrightarrow>
      length (x_regs h) = length (x_regs (me s)) \<Longrightarrow> I (upd_hart (cur s) (\<lambda>_. h) s)"
    and raise: "I s \<Longrightarrow> I (set_mip m s)"
    and lower: "I s \<Longrightarrow> I (clear_mip MIP_STIP s)"
    and reset: "I s \<Longrightarrow> I (reset_ssip s)"
    and receive: "I s \<Longrightarrow> I (set_mip MIP_SSIP (upd_hls (cur s) (\<lambda>h. h\<lparr>console_ibuf := v\<rparr>) s))"
    and taken: "I s \<Longrightarrow> I (upd_hls (cur s) (\<lambda>h. h\<lparr>console_ibuf := - 1\<rparr>) s)"
    and cleared: "I s \<Longrightarrow> I (upd_hls (cur s) (\<lambda>h. h\<lparr>sipi_pending := 0\<rparr>) s)"
    and timer: "I s \<Longrightarrow> I (upd_hls (cur s) (\<lambda>h. h\<lparr>timecmp := w\<rparr>) s)"
    and send: "I s \<Longrightarrow> i < length (harts s) \<Longrightarrow> I (send_ipi i e s)"
    and soft: "I s \<Longrightarrow> I (software_interrupt s)"
begin

lemma on_uart_keeps [preserving]: "preserves I (on_uart m)"
  by (auto simp: preserves_def on_uart_def uart split: sum.split)

lemma output_keeps [preserving]:
  "preserves I (mcall_console_putchar c)" "preserves I (putstring str)" "preserves I (printm fmt vl)"
  "preserves I poweroff" "preserves I (die line fmt vl)"
proof -
  show p: "preserves I (mcall_console_putchar c)" for c
    unfolding mcall_console_putchar_def by (intro preserving)
  show q: "preserves I (putstring str)" for str
    unfolding putstring_def by (intro preserving p)
  show r: "preserves I (printm fmt vl)" for fmt vl
    unfolding printm_def using q by (auto split: option.split simp: preserves_def)
  show "preserves I poweroff" by (rule preserves_poweroff) (rule q)
  then show "preserves I (die line fmt vl)"
    unfolding die_def by (intro preserves_bind r)
qed

lemma die_bad_trap_keeps [preserving]: "preserves I die_bad_trap"
  by (rule preservesI) (simp add: die_bad_trap_def preservesD [OF output_keeps(5)])

lemma upd_cur_eq: "upd_hart (cur s) f s = upd_hart (cur s) (\<lambda>_. f (me s)) s"
  by (simp add: upd_hart_def me_def)

lemma mie_keeps:
  assumes "I s"
  shows "I (set_mie m s)" "I (clear_mie m s)"
  using assms unfolding set_mie_def clear_mie_def by (subst upd_cur_eq, intro hart; simp)+

lemma redirect_keeps [preserving]: "preserves I (on_hart (redirect_trap epc mstatus))"
  by (auto simp: preserves_def on_hart_def redirect_trap_def intro: hart)

lemma page_fault_keeps [preserving]: "preserves I (on_hart (machine_page_fault a2 a3))"
proof -
  have "I (upd_hart (cur s) (\<lambda>_. me s) s)" if "I s" for s using that by (rule hart) simp_all
  then show ?thesis
    using die_bad_trap_keeps
    by (auto simp: preserves_def on_hart_def machine_page_fault_def redirect_trap_def bad_trap_def intro: hart)
qed

lemma rtc2_keeps [preserving]: "preserves I rtc2_req_interrupt"
  by (rule preservesI) (auto simp: rtc2_req_interrupt_def Let_def rtc flag intro!: preservesD [OF redirect_keeps])

lemma console_interrupt_keeps [preserving]: "preserves I console_interrupt"
proof -
  let ?get = "ebind (on_uart uart_recv) (\<lambda>c. modify (\<lambda>s. upd_hls (cur s) (\<lambda>h. h\<lparr>console_ibuf := 1 + ucast c\<rparr>) s))"
  have eq: "ebind (if r \<noteq> 0 then ?get else ret ()) (\<lambda>_. modify (set_mip MIP_SSIP)) =
      (if r \<noteq> 0 then ebind (on_uart uart_recv) (\<lambda>c.
         modify (\<lambda>s. set_mip MIP_SSIP (upd_hls (cur s) (\<lambda>h. h\<lparr>console_ibuf := 1 + ucast c\<rparr>) s)))
       else modify (set_mip MIP_SSIP))" for r :: u8
    by (rule ext) (auto simp: ebind_def modify_def ret_def split: sum.split)
  have "preserves I (ebind (on_uart uart_check_read_irq) (\<lambda>r.
      ebind (if r \<noteq> 0 then ?get else ret ()) (\<lambda>_. modify (set_mip MIP_SSIP))))"
    unfolding eq by (intro preserving preserves_modify receive raise)
  then show ?thesis using rtc2_keeps by (simp add: preserves_def console_interrupt_def)
qed

lemma timer_interrupt_keeps [preserving]: "preserves I timer_interrupt"
  unfolding timer_interrupt_def by (intro preserving preserves_modify mie_keeps raise)

lemma env_run_keeps: "I s \<Longrightarrow> I (env_run x s)"
proof (cases x)
  case (Env_Take j)
  assume "I s"
  then show ?thesis
    using Env_Take cur [of s] switch [of "software_interrupt (s\<lparr>cur := j\<rparr>)" "cur s"] soft switch
    by (simp add: software_interrupt_effect)
qed (simp add: send)

lemma fold_env_keeps: "I s \<Longrightarrow> I (fold env_run b s)"
  by (induction b arbitrary: s) (simp_all add: env_run_keeps)

lemma env_turn_keeps: "I s \<Longrightarrow> I (env_turn s)"
  by (simp add: env_turn_def fold_env_keeps envs split: list.split)

lemma send_loop_keeps: "I s \<Longrightarrow> n \<le> length (harts s) \<Longrightarrow> I (send_loop n m event s)"
  using cur
  by (induction n arbitrary: s) (simp_all add: env_turn_keeps send length_harts_turn send_ipi_effect)

lemma spin_keeps: "spin bs i event s = Some s' \<Longrightarrow> I s \<Longrightarrow> I s'"
proof (induction bs arbitrary: s)
  case Nil
  then show ?case by (subst (asm) spin.simps) (auto simp: envs split: if_splits)
next
  case (Cons b bs)
  then show ?case
    by (cases "mipi_pending (hls_of s i) AND event = 0")
      (auto simp: spin.simps [of "b # bs"] envs intro!: fold_env_keeps soft)
qed

lemma wait_loop_keeps: "wait_loop n m event s = Some s' \<Longrightarrow> I s \<Longrightarrow> I s'"
  by (induction n arbitrary: s) (auto split: if_splits bind_splits dest: spin_keeps)

lemma send_ipi_many_keeps [preserving]: "preserves I (send_ipi_many pmask event)"
  using send_loop_keeps wait_loop_keeps
  by (fastforce simp: preserves_def send_ipi_many_def Let_def split: option.split)

lemma mcall_keeps:
  assumes "\<And>a. preserves I (htif a)"
  shows "preserves I (mcall htif n arg0 arg1)"
proof -
  have "preserves I (mcall_send_ipi arg0)"
    by (auto simp: preserves_def mcall_send_ipi_def send)
  moreover have "preserves I mcall_console_getchar"
    unfolding mcall_console_getchar_def request_console_interrupt_def
    by (intro preserving preserves_modify taken reset)
  moreover have "preserves I mcall_clear_ipi"
    unfolding mcall_clear_ipi_def by (intro preserving preserves_modify cleared reset)
  moreover have "preserves I (mcall_set_timer arg0)"
    unfolding mcall_set_timer_def by (intro preserving preserves_modify timer lower mie_keeps)
  moreover have "preserves I mcall_config_string_size"
    unfolding mcall_config_string_size_def mcall_config_string_base_def
    by (intro preserving) (auto simp: preserves_def split: option.split)
  ultimately show ?thesis
    unfolding mcall_def mcall_hart_id_def mcall_htif_syscall_def mcall_shutdown_def mcall_remote_sfence_vm_def
      mcall_remote_fence_i_def mcall_config_string_base_def
    by (intro preserving assms)
qed

lemma mcall_trap_keeps:
  assumes "\<And>a. preserves I (htif a)"
  shows "preserves I (mcall_trap htif mepc)"
proof -
  have "I (upd_hart (cur s) f s)" if "I s" "\<And>h. hart_hls (f h) = hart_hls h" "\<And>h. csr_mip (f h) = csr_mip h"
      "\<And>h. length (x_regs (f h)) = length (x_regs h)" for s f
    using that by (subst upd_cur_eq) (intro hart, simp_all)
  then show ?thesis
    unfolding mcall_trap_def by (intro preserving preserves_modify mcall_keeps assms) simp_all
qed

lemma machine_trap_keeps [preserving]: "preserves I (trap_from_machine_mode a2 a3)"
proof -
  have "preserves I (ebind (printm fmt vl) (\<lambda>_. die_bad_trap :: unit sexec))" for fmt vl
    by (intro preserving)
  then show ?thesis
    by (auto intro!: preservesI simp: trap_from_machine_mode_def Let_def preservesD preservesD [OF rtc2_keeps]
        preservesD [OF page_fault_keeps] preservesD [OF die_bad_trap_keeps])
qed

end

subsection \<open>No wake-up is lost\<close>

text \<open>A hart with a pending software interrupt or a character in its buffer has \<^verbatim>\<open>SSIP\<close> raised.\<close>

definition wakes :: "hart \<Rightarrow> bool" where
  "wakes h \<longleftrightarrow> (sipi_pending (hart_hls h) \<noteq> 0 \<or> sint (console_ibuf (hart_hls h)) > 0 \<longrightarrow> csr_mip h AND MIP_SSIP \<noteq> 0)"

definition wake_ok :: "soc \<Rightarrow> bool" where
  "wake_ok s \<longleftrightarrow> cur s < length (harts s) \<and> list_all wakes (harts s)"

lemma wake_ok_nth: "wake_ok s \<Longrightarrow> i < length (harts s) \<Longrightarrow> wakes (harts s ! i)"
  by (simp add: wake_ok_def list_all_length)

lemma wake_ok_upd:
  assumes "wake_ok s" "i < length (harts s) \<Longrightarrow> wakes (f (harts s ! i))"
  shows "wake_ok (upd_hart i f s)"
  using assms by (cases "i < length (harts s)") (auto simp: wake_ok_def upd_hart_def list_all_length nth_list_update)

lemma wake_ok_upd_hls:
  assumes "wake_ok s"
    and "\<And>h. wakes h \<Longrightarrow> wakes (h\<lparr>hart_hls := f (hart_hls h)\<rparr>)"
  shows "wake_ok (upd_hls i f s)"
  unfolding upd_hls_def using assms wake_ok_nth by (intro wake_ok_upd) auto

lemma and_or_nonzero: "(a :: u64) AND m \<noteq> 0 \<Longrightarrow> (a OR b) AND m \<noteq> 0"
  by (metis or_eq_0_iff bit.conj_disj_distrib2)

lemma ssip_clear_other: "((a :: u64) AND NOT MIP_MSIP) AND MIP_SSIP = a AND MIP_SSIP"
  "(a AND NOT MIP_STIP) AND MIP_SSIP = a AND MIP_SSIP"
  by (simp_all add: mip_defs and.assoc)

text \<open>Raising \<^verbatim>\<open>SSIP\<close> makes up for whatever was changed in the local storage.\<close>

lemma wake_ok_raise:
  assumes "wake_ok s"
  shows "wake_ok (set_mip MIP_SSIP (upd_hls (cur s) f s))"
proof -
  have "upd_hart (cur s) g (upd_hart (cur s) f' s) = upd_hart (cur s) (g \<circ> f') s" for f' g
    using assms by (simp add: upd_hart_def wake_ok_def)
  then have "set_mip MIP_SSIP (upd_hls (cur s) f s) =
      upd_hart (cur s) (\<lambda>h. h\<lparr>hart_hls := f (hart_hls h), csr_mip := csr_mip h OR MIP_SSIP\<rparr>) s"
    by (simp add: set_mip_def upd_hls_def o_def)
  moreover have "(a OR MIP_SSIP) AND MIP_SSIP \<noteq> 0" for a :: u64
    by (simp add: mip_defs bit.conj_disj_distrib2)
  ultimately show ?thesis using assms by (simp add: wake_ok_upd wakes_def)
qed

lemma wake_ok_set_mip: "wake_ok s \<Longrightarrow> wake_ok (set_mip m s)"
  unfolding set_mip_def using wake_ok_nth and_or_nonzero by (intro wake_ok_upd) (auto simp: wakes_def)

lemma wake_ok_clear_mip:
  "wake_ok s \<Longrightarrow> wake_ok (clear_mip MIP_MSIP s)" "wake_ok s \<Longrightarrow> wake_ok (clear_mip MIP_STIP s)"
  unfolding clear_mip_def
proof -
  have "wakes (h\<lparr>csr_mip := csr_mip h AND NOT MIP_MSIP\<rparr>)" "wakes (h\<lparr>csr_mip := csr_mip h AND NOT MIP_STIP\<rparr>)"
    if "wakes h" for h
    using that by (simp_all add: wakes_def ssip_clear_other)
  then show "wake_ok s \<Longrightarrow> wake_ok (upd_hart (cur s) (\<lambda>h. h\<lparr>csr_mip := csr_mip h AND NOT MIP_MSIP\<rparr>) s)"
    "wake_ok s \<Longrightarrow> wake_ok (upd_hart (cur s) (\<lambda>h. h\<lparr>csr_mip := csr_mip h AND NOT MIP_STIP\<rparr>) s)"
    by (blast intro: wake_ok_upd wake_ok_nth)+
qed

lemma wake_ok_reset:
  assumes "wake_ok s"
  shows "wake_ok (reset_ssip s)"
proof -
  let ?i = "cur s" and ?h = "harts s ! cur s"
  have i: "?i < length (harts s)" using assms by (simp add: wake_ok_def)
  show ?thesis
  proof (cases "sipi_pending (hart_hls ?h) \<noteq> 0 \<or> sint (console_ibuf (hart_hls ?h)) > 0")
    case True
    have "reset_ssip s = upd_hart ?i (\<lambda>h. h\<lparr>csr_mip := csr_mip h AND NOT MIP_SSIP OR MIP_SSIP\<rparr>) s"
      using True i by (simp add: reset_ssip_def set_mip_def clear_mip_def hls_of_def upd_hart_def Let_def)
    moreover have "(a OR MIP_SSIP) AND MIP_SSIP \<noteq> 0" for a :: u64
      by (simp add: mip_defs bit.conj_disj_distrib2)
    ultimately show ?thesis using assms by (simp add: wake_ok_upd wakes_def)
  next
    case False
    then have "reset_ssip s = upd_hart ?i (\<lambda>h. h\<lparr>csr_mip := csr_mip h AND NOT MIP_SSIP\<rparr>) s"
      using i by (simp add: reset_ssip_def clear_mip_def hls_of_def upd_hart_def Let_def)
    then show ?thesis using assms False by (auto simp: wakes_def intro!: wake_ok_upd)
  qed
qed

lemma wake_ok_log: "wake_ok s \<Longrightarrow> wake_ok (log_fence f s)"
  by (simp add: wake_ok_def)

lemma wake_ok_software_interrupt:
  assumes "wake_ok s"
  shows "wake_ok (software_interrupt s)"
proof -
  have 1: "wake_ok (clear_mip MIP_MSIP s)" using assms by (rule wake_ok_clear_mip)
  have 2: "wake_ok (upd_hls i (\<lambda>h. h\<lparr>mipi_pending := 0\<rparr>) (clear_mip MIP_MSIP s))" for i
    using 1 by (rule wake_ok_upd_hls) (simp add: wakes_def)
  have 3: "wake_ok (set_mip MIP_SSIP (upd_hls (cur t) (\<lambda>h. h\<lparr>sipi_pending := 1\<rparr>) t))" if "wake_ok t" for t
    using that by (rule wake_ok_raise)
  show ?thesis using 2 3 [OF 2] by (simp add: software_interrupt_def Let_def wake_ok_log)
qed

interpretation wake: machine_invariant wake_ok
proof unfold_locales
  fix s :: soc and h :: hart
  assume "wake_ok s" "hart_hls h = hart_hls (me s)" "csr_mip h = csr_mip (me s)"
  then show "wake_ok (upd_hart (cur s) (\<lambda>_. h) s)"
    using wake_ok_nth [of s "cur s"] by (intro wake_ok_upd) (auto simp: wakes_def me_def)
next
  fix s :: soc and i e
  assume "wake_ok s" "i < length (harts s)"
  then show "wake_ok (send_ipi i e s)"
    by (auto simp: send_ipi_def Let_def wakes_def intro!: wake_ok_upd_hls)
qed (auto simp: wake_ok_set_mip wake_ok_clear_mip wake_ok_reset wake_ok_raise wake_ok_software_interrupt
    intro!: wake_ok_upd_hls, auto simp: wake_ok_def wakes_def)

subsection \<open>Shape of the state\<close>

definition soc_wf :: "nat \<Rightarrow> soc \<Rightarrow> bool" where
  "soc_wf n s \<longleftrightarrow> length (harts s) = n \<and> cur s < n \<and> list_all (\<lambda>h. length (x_regs h) = 32) (harts s)"

lemma soc_wf_upd:
  assumes "soc_wf n s" "\<And>h. length (x_regs h) = 32 \<Longrightarrow> length (x_regs (f h)) = 32"
  shows "soc_wf n (upd_hart i f s)"
  using assms by (cases "i < length (harts s)") (auto simp: soc_wf_def upd_hart_def list_all_length nth_list_update)

lemma soc_wf_upd_hls: "soc_wf n s \<Longrightarrow> soc_wf n (upd_hls i f s)"
  unfolding upd_hls_def by (rule soc_wf_upd) simp_all

lemma soc_wf_mip: "soc_wf n s \<Longrightarrow> soc_wf n (set_mip m s)" "soc_wf n s \<Longrightarrow> soc_wf n (clear_mip m s)"
  unfolding set_mip_def clear_mip_def by (simp_all add: soc_wf_upd)

lemma soc_wf_log: "soc_wf n s \<Longrightarrow> soc_wf n (log_fence f s)"
  by (simp add: soc_wf_def)

lemmas soc_wf_simps = soc_wf_upd_hls soc_wf_mip soc_wf_log

interpretation shape: machine_invariant "soc_wf n" for n
proof unfold_locales
  fix s :: soc and h :: hart
  assume a: "soc_wf n s" "length (x_regs h) = length (x_regs (me s))"
  then have "length (x_regs h) = 32" by (simp add: soc_wf_def me_def list_all_length)
  then show "soc_wf n (upd_hart (cur s) (\<lambda>_. h) s)" using a(1) by (simp add: soc_wf_upd)
qed (auto simp: soc_wf_simps send_ipi_def software_interrupt_def reset_ssip_def Let_def, auto simp: soc_wf_def)

subsection \<open>Runs of the machine\<close>

datatype m_event = Soft_Irq | Console_Irq | Timer_Irq | Mcall_Trap u64 | Machine_Trap u64 u64

definition run_event :: "(u64 \<Rightarrow> unit sexec) \<Rightarrow> m_event \<Rightarrow> unit sexec" where
  "run_event htif e =
     (case e of
        Soft_Irq \<Rightarrow> modify software_interrupt
      | Console_Irq \<Rightarrow> console_interrupt
      | Timer_Irq \<Rightarrow> ebind timer_interrupt (\<lambda>_. ret ())
      | Mcall_Trap mepc \<Rightarrow> mcall_trap htif mepc
      | Machine_Trap a2 a3 \<Rightarrow> trap_from_machine_mode a2 a3)"

text \<open>Some hart takes a trap, and its handler returns or redirects it.\<close>

inductive mstep :: "(u64 \<Rightarrow> unit sexec) \<Rightarrow> soc \<Rightarrow> soc \<Rightarrow> bool" for htif where
  returns: "j < length (harts s) \<Longrightarrow> run_event htif e (s\<lparr>cur := j\<rparr>) = Inr ((), s') \<Longrightarrow> mstep htif s s'"
| redirects: "j < length (harts s) \<Longrightarrow> run_event htif e (s\<lparr>cur := j\<rparr>) = Inl (Redirected s') \<Longrightarrow> mstep htif s s'"

context machine_invariant
begin

lemma run_event_keeps:
  assumes "\<And>a. preserves I (htif a)"
  shows "preserves I (run_event htif e)"
  by (cases e) (simp_all add: run_event_def assms mcall_trap_keeps preserving preserves_modify soft)

lemma mstep_keeps:
  assumes "mstep htif s s'" "\<And>a. preserves I (htif a)" "I s"
  shows "I s'"
  using assms(1)
proof cases
  case (returns j e)
  then show ?thesis
    using preservesD [OF run_event_keeps [where htif = htif and e = e, OF assms(2)] switch [OF assms(3)], of j] by simp
next
  case (redirects j e)
  then show ?thesis
    using preservesD [OF run_event_keeps [where htif = htif and e = e, OF assms(2)] switch [OF assms(3)], of j] by simp
qed

lemma run_keeps:
  assumes "(mstep htif)\<^sup>*\<^sup>* s s'" "\<And>a. preserves I (htif a)" "I s"
  shows "I s'"
  using assms(1,3) by (induction rule: rtranclp_induct) (auto intro: mstep_keeps assms(2))

end

lemma send_ipi_many_returns:
  assumes "cur s < length (harts s)" "list_all (fair_batch (length (harts s)) event) (env s)"
    and "2 * length (harts s) \<le> length (env s)"
  shows "\<exists>s'. send_ipi_many pmask event s = Inr ((), s')"
proof -
  let ?n = "length (harts s)" and ?m = "ipi_mask pmask s"
  let ?s = "send_loop ?n ?m event s"
  have len: "length (harts ?s) = ?n" "cur ?s = cur s" using assms(1) length_harts_send_loop by auto
  obtain k where k: "k \<le> ?n" "env ?s = drop k (env s)" using env_send_loop [of s ?n] assms(1) by auto
  have "list_all (fair_batch (length (harts ?s)) event) (env ?s)"
    using assms(2) len k(2) by (auto simp: list_all_iff dest: in_set_dropD)
  moreover have "?n \<le> length (env ?s)" using assms(3) k by simp
  ultimately obtain s' where "wait_loop ?n ?m event ?s = Some s'"
    using wait_loop_returns [of ?s ?n event ?m] assms(1) len by auto
  then show ?thesis by (simp add: send_ipi_many_def Let_def)
qed

subsection \<open>Properties\<close>


text \<open>A machine with two harts; the second takes its interrupt whenever it gets a turn.\<close>

definition sample_hart :: hart where
  "sample_hart = \<lparr>x_regs = replicate 32 0, f_regs = replicate 32 0, tp_reg = 0, csr_mepc = 0, csr_mcause = 0,
     csr_mbadaddr = 0, csr_mstatus = 0, csr_mip = 0, csr_mie = 0, csr_mcycle = 0, csr_minstret = 0,
     csr_sepc = 0, csr_scause = 0, csr_sbadaddr = 0, csr_stvec = 0, csr_sie = 0, mtime_reg = 0,
     hart_hls = \<lparr>timecmp = 0, ipi = 0, mipi_pending = 0, sipi_pending = 0, console_ibuf = 0, utime_delta = 0,
       ucycle_delta = 0, uinstret_delta = 0, stime_delta = 0, scycle_delta = 0, sinstret_delta = 0\<rparr>,
     umem = Map.empty, uwritable = (\<lambda>_. False)\<rparr>"

definition sample_soc :: soc where
  "sample_soc = \<lparr>harts = [sample_hart, sample_hart], cur = 0, tagctrl = [(0, 0), (0, 0)],
     uart_dev = \<lparr>answers = (\<lambda>_. []), wlog = []\<rparr>, rtc2 = \<lparr>rtc_time = 0, rtc_cmp = 0\<rparr>, pmem = (\<lambda>_. 0),
     config_addr = 0, fence_log = [], env = replicate 4 [Env_Take 0, Env_Take 1], exited = False, start_instret = 0\<rparr>"

lemma sample_soc_simps:
  "cur sample_soc = 0" "length (harts sample_soc) = 2" "fence_log sample_soc = []"
  "env sample_soc = replicate 4 [Env_Take 0, Env_Take 1]" "ipi_mask 0 sample_soc = - 1"
  by (simp_all add: sample_soc_def ipi_mask_def)

lemma sample_soc_fair: "list_all (fair_batch 2 IPI_SFENCE_VM) (env sample_soc)"
  by (simp add: sample_soc_simps fair_batch_def list_all_iff upt_small)




subsection \<open>Properties of runs\<close>

text \<open>
  C10 (invariant). No wake-up is lost: along every run of the machine, in which any hart takes any
  interrupt, call or trap, a hart that has a pending software interrupt or a received character has
  the interrupt \<^verbatim>\<open>SSIP\<close> raised. The handler of file requests may do anything that keeps this.
\<close>

theorem no_wakeup_lost:
  assumes "(mstep htif)\<^sup>*\<^sup>* s s'" "\<And>a. preserves wake_ok (htif a)" "wake_ok s"
  shows "wake_ok s'"
  using assms by (rule wake.run_keeps)


lemma sample_step: "(mstep (\<lambda>_. ret ()))\<^sup>*\<^sup>* sample_soc (software_interrupt (sample_soc\<lparr>cur := 1\<rparr>))"
proof (rule r_into_rtranclp, rule mstep.returns)
  show "1 < length (harts sample_soc)" by (simp add: sample_soc_simps)
  show "run_event (\<lambda>_. ret ()) Soft_Irq (sample_soc\<lparr>cur := 1\<rparr>) = Inr ((), software_interrupt (sample_soc\<lparr>cur := 1\<rparr>))"
    by (simp add: run_event_def modify_apply)
qed

theorem no_wakeup_lost_witness: "wake_ok (software_interrupt (sample_soc\<lparr>cur := 1\<rparr>))"
proof (rule no_wakeup_lost [OF sample_step])
  show "wake_ok sample_soc" by (simp add: wake_ok_def wakes_def sample_soc_def sample_hart_def)
qed (rule preserving)


subsection \<open>Redirected traps\<close>

text \<open>The masks of the fields, bit by bit.\<close>

lemma bit_fields:
  "bit MSTATUS_SPP n \<longleftrightarrow> n = 8" "bit MSTATUS_SPIE n \<longleftrightarrow> n = 5" "bit MSTATUS_MPIE n \<longleftrightarrow> n = 7"
  "bit MSTATUS_MPP n \<longleftrightarrow> n = 11 \<or> n = 12"
proof -
  have e: "MSTATUS_SPP = 2 ^ 8" "MSTATUS_SPIE = 2 ^ 5" "MSTATUS_MPIE = 2 ^ 7"
    "MSTATUS_MPP = 2 ^ 11 OR 2 ^ 12"
    by (simp_all add: mstatus_defs)
  show "bit MSTATUS_SPP n \<longleftrightarrow> n = 8" "bit MSTATUS_SPIE n \<longleftrightarrow> n = 5" "bit MSTATUS_MPIE n \<longleftrightarrow> n = 7"
      "bit MSTATUS_MPP n \<longleftrightarrow> n = 11 \<or> n = 12"
    unfolding e bit_or_iff bit_exp_iff by auto
qed

lemma field_ops:
  "EXTRACT_FIELD v MSTATUS_MPP = drop_bit 11 (v AND MSTATUS_MPP)"
  "EXTRACT_FIELD v MSTATUS_MPIE = drop_bit 7 (v AND MSTATUS_MPIE)"
  "INSERT_FIELD v MSTATUS_SPP x = (v AND NOT MSTATUS_SPP) OR push_bit 8 x"
  "INSERT_FIELD v MSTATUS_SPIE x = (v AND NOT MSTATUS_SPIE) OR push_bit 5 x"
  "INSERT_FIELD v MSTATUS_MPP x = (v AND NOT MSTATUS_MPP) OR push_bit 11 x"
  "INSERT_FIELD v MSTATUS_MPIE x = (v AND NOT MSTATUS_MPIE) OR push_bit 7 x"
  by (simp_all add: EXTRACT_FIELD_def INSERT_FIELD_def mstatus_defs drop_bit_eq_div push_bit_eq_mult)

text \<open>
  C24 (functional). A trap that is redirected from user or supervisor mode arrives at the supervisor
  as the hardware would have delivered it: cause and program counter are recorded, execution goes on
  at the supervisor's trap vector, the previous mode and interrupt enable move to \<^verbatim>\<open>SPP\<close> and
  \<^verbatim>\<open>SPIE\<close>, the machine returns to supervisor mode with \<^verbatim>\<open>MPIE\<close> clear, and no other bit of
  \<^verbatim>\<open>mstatus\<close> changes.
\<close>

theorem redirect_trap_correct:
  assumes "\<not> bit mstatus 12"
  shows "\<exists>h'. redirect_trap epc mstatus h = (Inl (Redirect h') :: exit + unit \<times> hart) \<and>
    csr_sepc h' = epc \<and> csr_scause h' = csr_mcause h \<and> csr_mepc h' = csr_stvec h \<and>
    (\<forall>n. bit (csr_mstatus h') n \<longleftrightarrow>
      (if n = 8 then bit mstatus 11 else if n = 5 then bit mstatus 7 else if n = 11 then True
       else if n = 12 \<or> n = 7 then False else bit mstatus n))"
proof -
  have "bit (redirect_mstatus mstatus) n \<longleftrightarrow>
      (if n = 8 then bit mstatus 11 else if n = 5 then bit mstatus 7 else if n = 11 then True
       else if n = 12 \<or> n = 7 then False else bit mstatus n)" for n
  proof (cases "n < 64")
    case True
    have prv_s: "bit PRV_S k \<longleftrightarrow> k = 0" for k by (simp add: PRV_S_def bit_1_iff)
    have "n = 9" if "8 \<le> n" "n + 3 = 12" for n :: nat using that by simp
    then show ?thesis
      using True assms unfolding redirect_mstatus_def Let_def field_ops
      by (auto simp: bit_or_iff bit_and_iff bit_not_iff bit_push_bit_iff bit_drop_bit_eq bit_fields prv_s
          le_diff_conv2)
  qed (auto dest: bit_imp_le_length)
  then show ?thesis by (simp add: redirect_trap_def)
qed

theorem redirect_trap_correct_witness:
  "\<exists>h'. redirect_trap 0x1000 0x880 sample_hart = (Inl (Redirect h') :: exit + unit \<times> hart) \<and>
    csr_sepc h' = 0x1000 \<and> bit (csr_mstatus h') 8"
proof -
  have "\<not> bit (0x880 :: u64) 12" "bit (0x880 :: u64) 11" by simp_all
  from redirect_trap_correct [OF this(1), of "0x1000" sample_hart] this(2) show ?thesis by force
qed

end
