(* ===== verification/Pk_File.thy ===== *)
theory Pk_File
  imports C_String Sdcard
begin

text \<open>
  The file layer of the proxy kernel: the open file table with its reference counts (\<^verbatim>\<open>fs/file.c\<close>)
  and the machine-mode side of its requests (\<^verbatim>\<open>fs/remove_htif.c\<close>, \<^verbatim>\<open>fs/frontend.c\<close>). The FAT file
  system itself is the FatFs library and a parameter: a record of its functions on a state \<open>'w\<close>. A
  file is named by its index in the table \<^verbatim>\<open>files\<close>, a buffer by its contents; the pages of a buffer
  are present (\<^verbatim>\<open>populate_mapping\<close>). The kernel runs on one hart, so that its locks are free when
  they are taken. Messages to the console are left out.
\<close>

subsection \<open>FatFs\<close>

text \<open>\<^verbatim>\<open>FRESULT\<close> codes are numbers; \<open>finfo\<close> holds the fields of \<^verbatim>\<open>FILINFO\<close> that are used.\<close>

record finfo =
  fi_size :: u32
  fi_date :: u16
  fi_time :: u16
  fi_attrib :: u8

record 'w fatfs =
  f_open :: "nat \<Rightarrow> u8 list \<Rightarrow> u8 \<Rightarrow> 'w \<Rightarrow> u32 \<times> 'w"
  f_close :: "nat \<Rightarrow> 'w \<Rightarrow> u32 \<times> 'w"
  f_lseek :: "nat \<Rightarrow> u32 \<Rightarrow> 'w \<Rightarrow> u32 \<times> 'w"
  f_read :: "nat \<Rightarrow> u32 \<Rightarrow> 'w \<Rightarrow> (u32 \<times> u8 list) \<times> 'w"
  f_write :: "nat \<Rightarrow> u8 list \<Rightarrow> 'w \<Rightarrow> (u32 \<times> u32) \<times> 'w"
  f_size :: "nat \<Rightarrow> 'w \<Rightarrow> u32"
  f_flag :: "nat \<Rightarrow> 'w \<Rightarrow> u8"
  f_stat :: "u8 list \<Rightarrow> 'w \<Rightarrow> (u32 \<times> finfo) \<times> 'w"
  f_unlink :: "u8 list \<Rightarrow> 'w \<Rightarrow> u32 \<times> 'w"
  f_chdir :: "u8 list \<Rightarrow> 'w \<Rightarrow> u32 \<times> 'w"
  f_getcwd :: "u32 \<Rightarrow> 'w \<Rightarrow> (u32 \<times> u8 list) \<times> 'w"
  f_mount :: "bool \<Rightarrow> u8 \<Rightarrow> 'w \<Rightarrow> u32 \<times> 'w"
  ioctl_block_size :: "'w \<Rightarrow> (dresult \<times> u32) \<times> 'w"

subsection \<open>Requests served in machine mode\<close>

text \<open>
  \<^verbatim>\<open>sys_fcntl\<close> of \<^verbatim>\<open>remove_htif.c\<close>: the access mode for \<^verbatim>\<open>F_GETFL\<close>, zero for \<^verbatim>\<open>F_GETFD\<close> and
  \<^verbatim>\<open>F_GETOWN\<close>, and an error for everything else.
\<close>

definition htif_fcntl :: "u8 \<Rightarrow> u32 \<Rightarrow> u64" where
  "htif_fcntl flag cmd =
     (if cmd = 0 then - 1
      else if cmd = 1 then 0
      else if cmd = 2 then - 1
      else if cmd = 3 then
        (if flag AND 3 = 3 then 2 else if flag AND 3 = 1 then 0 else if flag AND 3 = 2 then 1 else - 1)
      else if cmd = 4 then - 1
      else if cmd = 5 then 0
      else if cmd = 6 then - 1
      else - 1)"

record stat =
  st_dev :: u64
  st_rdev :: u64
  st_mode :: u32
  st_ino :: u64
  st_nlink :: u64
  st_uid :: u64
  st_gid :: u64
  st_size :: u64
  st_time :: u64
  st_blksize :: u64
  st_blocks :: u64

definition accu_mon_day :: "u32 list" where
  "accu_mon_day = [0, 31, 59, 90, 120, 151, 181, 212, 243, 273, 304, 334]"

text \<open>
  The time of modification, in 32-bit arithmetic up to the number of days. The term for the month is
  \<^verbatim>\<open>(year % 4 == 0 && mon > 2)?1:0 + accu_mon_day[mon-1]\<close>, in which the conditional has the lower
  precedence; a month of 0 reads before the table and is undefined.
\<close>

definition fat_days :: "u32 \<Rightarrow> u32 \<Rightarrow> u32 \<Rightarrow> u64 option" where
  "fat_days year mon day =
     (if mon = 0 \<or> mon > 12 then None
      else
        (let t0 = ucast (((year - 1973) div 4 + 1) + (year - 1970) * 365) :: u64;
             t1 = t0 + ucast (if year mod 4 = 0 \<and> mon > 2 then 1 else 0 + accu_mon_day ! unat (mon - 1))
         in Some (t1 + ucast (day - 1))))"

definition fat_time :: "u16 \<Rightarrow> u16 \<Rightarrow> u64 option" where
  "fat_time fdate ftime =
     (let year = ucast (drop_bit 9 fdate) + 1980; mon = ucast (drop_bit 5 (fdate AND 0x1e0));
          day = ucast (fdate AND 0x1f); hour = ucast (drop_bit 11 ftime) :: u32;
          minute = ucast (drop_bit 5 (ftime AND 0x7e)) :: u32; second = ucast (push_bit 1 (ftime AND 0x1f)) :: u32
      in map_option (\<lambda>days. ((days * 24 + ucast hour) * 60 + ucast minute) * 60 + ucast second)
           (fat_days year mon day))"

text \<open>
  \<^verbatim>\<open>sys_stat\<close> of \<^verbatim>\<open>remove_htif.c\<close>: the result code and, if it is zero, what is stored; the block size
  comes from the card (\<^verbatim>\<open>disk_ioctl\<close>), and dividing by a block size of zero is undefined.
\<close>

definition htif_stat :: "'w fatfs \<Rightarrow> u8 list \<Rightarrow> stat \<Rightarrow> 'w \<Rightarrow> ((u32 \<times> stat) \<times> 'w) option" where
  "htif_stat ff path st w =
     (let ((dr, blksize), w1) = ioctl_block_size ff w
      in if dr \<noteq> RES_OK then Some ((1, st), w1)
         else
           (let ((fr, fi), w2) = f_stat ff path w1
            in if fr \<noteq> 0 then Some ((fr, st), w2)
               else if blksize = 0 then None
               else
                 (case fat_time (fi_date fi) (fi_time fi) of
                    None \<Rightarrow> None
                  | Some time \<Rightarrow>
                      Some ((0, st\<lparr>st_dev := 0, st_rdev := 0, st_mode := (if fi_attrib fi AND 0x10 \<noteq> 0 then 0x4000 else 0x8000),
                        st_size := ucast (fi_size fi), st_time := time, st_blksize := ucast blksize,
                        st_blocks := ucast ((fi_size fi + (blksize - 1)) div blksize)\<rparr>), w2))))"

subsection \<open>The open file table\<close>

record file_t =
  offset :: u32
  refcnt :: u32

record 'w fstate =
  files :: "file_t list"
  filenames :: "u8 list list"
  croot :: "u8 list"
  world :: 'w

text \<open>
  The kernel stops on a panic or a failed assertion; \<open>Wild_Access\<close> is an access outside the table,
  or undefined arithmetic.
\<close>

datatype kexit = Panic string | Wild_Access

type_synonym ('w, 'a) kexec = "('w fstate, kexit, 'a) comp"

definition panic :: "string \<Rightarrow> ('w, 'a) kexec" where
  "panic msg s = Inl (Panic msg)"

definition wild :: "('w, 'a) kexec" where
  "wild s = Inl Wild_Access"

definition MAX_FILES :: nat where "MAX_FILES = 64"
definition FF_MAX_LFN :: nat where "FF_MAX_LFN = 255"

text \<open>A call of FatFs, through \<^verbatim>\<open>frontend_syscall\<close> and \<^verbatim>\<open>dispatch_htif_syscall\<close>.\<close>

definition fe :: "('w \<Rightarrow> 'a \<times> 'w) \<Rightarrow> ('w, 'a) kexec" where
  "fe f s = (let (r, w) = f (world s) in Inr (r, s\<lparr>world := w\<rparr>))"

definition upd_file :: "nat \<Rightarrow> (file_t \<Rightarrow> file_t) \<Rightarrow> 'w fstate \<Rightarrow> 'w fstate" where
  "upd_file i f s = s\<lparr>files := (files s)[i := f (files s ! i)]\<rparr>"

definition file_init :: "'w fstate \<Rightarrow> 'w fstate" where
  "file_init s = s\<lparr>files := replicate MAX_FILES \<lparr>offset = 0, refcnt = 0\<rparr>\<rparr>"

definition file_incref :: "nat \<Rightarrow> ('w, unit) kexec" where
  "file_incref f =
     ebind (gets (\<lambda>s. refcnt (files s ! f))) (\<lambda>prev.
     ebind (modify (upd_file f (\<lambda>x. x\<lparr>refcnt := prev + 1\<rparr>))) (\<lambda>_.
       if prev > 0 then ret () else panic ''prev > 0''))"

definition file_decref :: "'w fatfs \<Rightarrow> nat \<Rightarrow> ('w, unit) kexec" where
  "file_decref ff f =
     ebind (gets (\<lambda>s. refcnt (files s ! f))) (\<lambda>prev.
       if prev > 2 then modify (upd_file f (\<lambda>x. x\<lparr>refcnt := prev - 1\<rparr>))
       else
         ebind (modify (upd_file f (\<lambda>x. x\<lparr>refcnt := 0, offset := 0\<rparr>))) (\<lambda>_.
         ebind (modify (\<lambda>s. s\<lparr>filenames := (filenames s)[f := []]\<rparr>)) (\<lambda>_.
         ebind (fe (f_close ff f)) (\<lambda>_. ret ()))))"

text \<open>The first free entry from index 3 on; \<^verbatim>\<open>atomic_cas\<close> takes it.\<close>

definition file_get_free :: "('w, nat) kexec" where
  "file_get_free =
     ebind (gets (\<lambda>s. find (\<lambda>i. refcnt (files s ! i) = 0) [3..<MAX_FILES])) (\<lambda>r.
       case r of
         None \<Rightarrow> panic ''fail to get a free file''
       | Some i \<Rightarrow> ebind (modify (upd_file i (\<lambda>x. x\<lparr>refcnt := 2\<rparr>))) (\<lambda>_. ret i))"

text \<open>A negative descriptor is not rejected: it reads before the table.\<close>

definition file_get :: "int \<Rightarrow> ('w, nat option) kexec" where
  "file_get fd =
     (if fd \<ge> int MAX_FILES then ret None
      else if fd < 0 then wild
      else
        ebind (gets (\<lambda>s. refcnt (files s ! nat fd))) (\<lambda>old_cnt.
          if old_cnt = 0 then ret None
          else ebind (modify (upd_file (nat fd) (\<lambda>x. x\<lparr>refcnt := old_cnt + 1\<rparr>))) (\<lambda>_. ret (Some (nat fd)))))"

definition fd_close :: "'w fatfs \<Rightarrow> int \<Rightarrow> ('w, int) kexec" where
  "fd_close ff fd =
     ebind (file_get fd) (\<lambda>f.
       case f of
         None \<Rightarrow> ret (- 1)
       | Some i \<Rightarrow> ebind (file_decref ff i) (\<lambda>_. ebind (file_decref ff i) (\<lambda>_. ret 0)))"

text \<open>The FatFs mode for the flags of \<^verbatim>\<open>open\<close>, with the values of the C library of the loader.\<close>

definition open_mode :: "u32 \<Rightarrow> u8" where
  "open_mode flags =
     (let acc = (if flags AND 3 = 0 then 1 else if flags AND 3 = 1 then 2 else if flags AND 3 = 2 then 3 else 0)
      in if flags AND 0x800 \<noteq> 0 then acc OR 0x04
         else if flags AND 0x400 \<noteq> 0 then acc OR 0x08
         else if flags AND 0x200 \<noteq> 0 then acc OR 0x10
         else if flags AND 0x8 \<noteq> 0 then acc OR 0x30
         else acc)"

definition file_openat :: "'w fatfs \<Rightarrow> int \<Rightarrow> u8 list \<Rightarrow> u32 \<Rightarrow> ('w, nat option) kexec" where
  "file_openat ff dirfd fn flags =
     ebind file_get_free (\<lambda>f.
     ebind (fe (f_open ff f fn (open_mode flags))) (\<lambda>rt.
       if rt \<noteq> 0 then ebind (file_decref ff f) (\<lambda>_. ret None)
       else
         ebind (modify (\<lambda>s. s\<lparr>filenames := (filenames s)[f := take FF_MAX_LFN fn]\<rparr>)) (\<lambda>_. ret (Some f))))"

definition AT_FDCWD :: int where "AT_FDCWD = - 100"

definition file_open :: "'w fatfs \<Rightarrow> u8 list \<Rightarrow> u32 \<Rightarrow> ('w, nat option) kexec" where
  "file_open ff fn flags = file_openat ff AT_FDCWD fn flags"

text \<open>
  \<^verbatim>\<open>file_reopen\<close> takes over a standard descriptor; a descriptor that is still in use is closed first.
\<close>

definition take_entry :: "nat \<Rightarrow> ('w, bool) kexec" where
  "take_entry i =
     ebind (gets (\<lambda>s. refcnt (files s ! i))) (\<lambda>c.
       if c = 0 then ebind (modify (upd_file i (\<lambda>x. x\<lparr>refcnt := 2\<rparr>))) (\<lambda>_. ret True) else ret False)"

definition file_reopen :: "'w fatfs \<Rightarrow> int \<Rightarrow> u8 list \<Rightarrow> u32 \<Rightarrow> ('w, int) kexec" where
  "file_reopen ff fd fn flags =
     ebind
       (if fd < 0 then wild
        else if fd < 3 then
          ebind (take_entry (nat fd)) (\<lambda>ok.
            if ok then ret (Some (nat fd))
            else
              ebind (fd_close ff fd) (\<lambda>_.
              ebind (take_entry (nat fd)) (\<lambda>ok. ret (if ok then Some (nat fd) else None))))
        else file_get fd)
       (\<lambda>f.
         case f of
           None \<Rightarrow> ret (- 1)
         | Some i \<Rightarrow>
             let mode = (if fd = 0 then 1 else if fd = 1 \<or> fd = 2 then 0x12 else open_mode flags) in
             ebind (fe (f_open ff i fn mode)) (\<lambda>rt.
               if rt \<noteq> 0 then ebind (file_decref ff i) (\<lambda>_. ret (- 1))
               else
                 ebind (modify (\<lambda>s. s\<lparr>filenames := (filenames s)[nat fd := take FF_MAX_LFN fn]\<rparr>)) (\<lambda>_. ret 0)))"

subsection \<open>Reading and writing\<close>

text \<open>The number of bytes and the bytes that arrive in the buffer.\<close>

definition file_read :: "'w fatfs \<Rightarrow> nat \<Rightarrow> u64 \<Rightarrow> ('w, u32 \<times> u8 list) kexec" where
  "file_read ff f sz =
     ebind (gets (\<lambda>s. offset (files s ! f))) (\<lambda>off.
     ebind (fe (f_lseek ff f off)) (\<lambda>_.
     ebind (fe (f_read ff f (ucast sz))) (\<lambda>(fr, bs).
     ebind (modify (upd_file f (\<lambda>x. x\<lparr>offset := offset x + of_nat (length bs)\<rparr>))) (\<lambda>_.
       ret (of_nat (length bs), bs)))))"

definition file_pread :: "'w fatfs \<Rightarrow> nat \<Rightarrow> u64 \<Rightarrow> u64 \<Rightarrow> ('w, u32 \<times> u8 list) kexec" where
  "file_pread ff f sz off =
     ebind (fe (f_lseek ff f (ucast off))) (\<lambda>rt.
       if rt \<noteq> 0 then panic ''f_lseek() failed!''
       else
         ebind (fe (f_read ff f (ucast sz))) (\<lambda>(rt, bs).
           if rt \<noteq> 0 then panic ''f_read() failed!'' else ret (of_nat (length bs), bs)))"

definition file_write :: "'w fatfs \<Rightarrow> nat \<Rightarrow> u8 list \<Rightarrow> ('w, u32) kexec" where
  "file_write ff f buf =
     ebind (gets (\<lambda>s. offset (files s ! f))) (\<lambda>off.
     ebind (fe (f_lseek ff f off)) (\<lambda>_.
     ebind (fe (f_write ff f buf)) (\<lambda>(fr, wsize).
     ebind (modify (upd_file f (\<lambda>x. x\<lparr>offset := offset x + wsize\<rparr>))) (\<lambda>_. ret wsize))))"

definition file_pwrite :: "'w fatfs \<Rightarrow> nat \<Rightarrow> u8 list \<Rightarrow> u64 \<Rightarrow> ('w, u32) kexec" where
  "file_pwrite ff f buf off =
     ebind (fe (f_lseek ff f (ucast off))) (\<lambda>_.
     ebind (fe (f_write ff f buf)) (\<lambda>(fr, wsize). ret wsize))"

definition file_lseek :: "'w fatfs \<Rightarrow> nat \<Rightarrow> u64 \<Rightarrow> int \<Rightarrow> ('w, u64) kexec" where
  "file_lseek ff f ptr dir =
     ebind (gets (\<lambda>s. (offset (files s ! f), f_size ff f (world s)))) (\<lambda>(off, sz).
       let target = (if dir = 0 then ptr else if dir = 1 then ucast off + ptr else ucast sz + ptr) in
       ebind (fe (f_lseek ff f (ucast target))) (\<lambda>rt.
         if rt \<noteq> 0 then ret (- 1)
         else
           ebind (gets (\<lambda>s. f_size ff f (world s))) (\<lambda>sz2.
             let new = (if dir = 0 then ucast ptr else if dir = 1 then off + ucast ptr
                        else ucast (ucast sz2 + ptr :: u64)) in
             ebind (modify (upd_file f (\<lambda>x. x\<lparr>offset := new\<rparr>))) (\<lambda>_. ret (ucast new)))))"

subsection \<open>Names\<close>

text \<open>The error for a result of \<^verbatim>\<open>SYS_stat\<close>; \<open>other\<close> is the default of the \<^verbatim>\<open>switch\<close>.\<close>

definition stat_errno :: "int \<Rightarrow> u32 \<Rightarrow> int" where
  "stat_errno other rt =
     (if rt = 5 \<or> rt = 4 then - 2 else if rt = 6 then - 20 else if rt = 1 then - 14 else if rt = 0 then 0 else other)"

definition fe_stat :: "'w fatfs \<Rightarrow> u8 list \<Rightarrow> stat \<Rightarrow> ('w, u32 \<times> stat) kexec" where
  "fe_stat ff path st s =
     (case htif_stat ff path st (world s) of
        None \<Rightarrow> Inl Wild_Access
      | Some (r, w) \<Rightarrow> Inr (r, s\<lparr>world := w\<rparr>))"

definition stat_fixup :: "u64 \<Rightarrow> stat \<Rightarrow> stat" where
  "stat_fixup ino st =
     st\<lparr>st_mode := st_mode st OR 0x1FF, st_ino := ino, st_nlink := 1, st_uid := 0, st_gid := 0\<rparr>"

text \<open>
  A name of 255 bytes or more is stored without its terminating zero, so that the reader runs on into
  the next row of \<^verbatim>\<open>filenames\<close>, and beyond the last row out of the table.
\<close>

fun name_at :: "u8 list list \<Rightarrow> u8 list option" where
  "name_at [] = None"
| "name_at (r # rs) = (if length r < FF_MAX_LFN then Some r else map_option (\<lambda>n. r @ n) (name_at rs))"

definition file_stat :: "'w fatfs \<Rightarrow> nat \<Rightarrow> stat \<Rightarrow> ('w, int \<times> stat) kexec" where
  "file_stat ff f st =
     ebind (gets (\<lambda>s. name_at (drop f (filenames s)))) (\<lambda>name.
       case name of
         None \<Rightarrow> wild
       | Some n \<Rightarrow>
           ebind (fe_stat ff n st) (\<lambda>(rt, st').
             ret (if rt = 0 then (0, stat_fixup (of_nat f) st') else (stat_errno (- 2) rt, st'))))"

definition file_statat :: "'w fatfs \<Rightarrow> int \<Rightarrow> u8 list \<Rightarrow> stat \<Rightarrow> ('w, int \<times> stat) kexec" where
  "file_statat ff dirfd path st =
     ebind (fe_stat ff path st) (\<lambda>(rt, st').
       ret (if rt = 0 then (0, stat_fixup 0 st') else (stat_errno (- 22) rt, st')))"

definition file_accessat :: "'w fatfs \<Rightarrow> stat \<Rightarrow> int \<Rightarrow> u8 list \<Rightarrow> ('w, int) kexec" where
  "file_accessat ff st dirfd name =
     ebind (fe_stat ff name st) (\<lambda>(rt, _). ret (stat_errno (- 22) rt))"

text \<open>\<^verbatim>\<open>strcpy\<close> into \<^verbatim>\<open>croot\<close>, which has room for 255 bytes with the terminating zero.\<close>

definition set_croot :: "u8 list \<Rightarrow> ('w, unit) kexec" where
  "set_croot path = (if length path < FF_MAX_LFN then modify (\<lambda>s. s\<lparr>croot := path\<rparr>) else wild)"

definition file_chdir :: "'w fatfs \<Rightarrow> u8 list \<Rightarrow> ('w, int) kexec" where
  "file_chdir ff path =
     ebind (fe (f_chdir ff path)) (\<lambda>fr.
       if fr \<noteq> 0 then ret (- 2) else ebind (set_croot path) (\<lambda>_. ret 0))"

definition file_getcwd :: "'w fatfs \<Rightarrow> u64 \<Rightarrow> ('w, u8 list option) kexec" where
  "file_getcwd ff len =
     ebind (fe (f_getcwd ff (ucast len))) (\<lambda>(fr, buf).
       if fr \<noteq> 0 then ret None else ebind (set_croot buf) (\<lambda>_. ret (Some buf)))"

definition file_fcntl :: "'w fatfs \<Rightarrow> int \<Rightarrow> u32 \<Rightarrow> ('w, u64) kexec" where
  "file_fcntl ff fd cmd =
     ebind (file_get fd) (\<lambda>f.
       case f of
         None \<Rightarrow> ret (- 1)
       | Some i \<Rightarrow>
           ebind (gets (\<lambda>s. htif_fcntl (f_flag ff i (world s)) cmd)) (\<lambda>r.
           ebind (file_decref ff i) (\<lambda>_. ret (scast (ucast r :: u32)))))"

definition file_unlinkat :: "'w fatfs \<Rightarrow> int \<Rightarrow> u8 list \<Rightarrow> ('w, int) kexec" where
  "file_unlinkat ff dirfd pathname =
     ebind (fe (f_unlink ff pathname)) (\<lambda>fr. ret (if fr \<noteq> 0 then - 22 else 0))"

definition file_mount :: "'w fatfs \<Rightarrow> ('w, u32) kexec" where
  "file_mount ff = fe (f_mount ff True 1)"

definition file_umount :: "'w fatfs \<Rightarrow> ('w, u32) kexec" where
  "file_umount ff = fe (f_mount ff False 0)"

definition file_truncate :: "nat \<Rightarrow> ('w, int) kexec" where
  "file_truncate f = panic ''file_truncate() not supported!''"

subsection \<open>Reference counting\<close>

text \<open>
  An entry of the table holds \<open>n + 1\<close> for a file with \<open>n > 0\<close> references and 0 when it is free. The
  abstract table counts the references, together with the state of the file system.
\<close>

definition refs :: "file_t \<Rightarrow> nat" where
  "refs f = (if refcnt f = 0 then 0 else unat (refcnt f) - 1)"

definition table_abs :: "'w fstate \<Rightarrow> nat list \<times> 'w" where
  "table_abs s = (map refs (files s), world s)"

definition table_ok :: "nat \<Rightarrow> 'w fstate \<Rightarrow> bool" where
  "table_ok b s \<longleftrightarrow> length (files s) = MAX_FILES \<and>
     list_all (\<lambda>f. refcnt f \<noteq> 1 \<and> unat (refcnt f) + b < 2 ^ 32) (files s)"

lemma table_okD:
  assumes "table_ok b s" "i < MAX_FILES"
  shows "refcnt (files s ! i) \<noteq> 1" "unat (refcnt (files s ! i)) + b < 2 ^ 32"
  using assms by (auto simp: table_ok_def list_all_length)

lemma table_ok_length: "table_ok b s \<Longrightarrow> length (files s) = MAX_FILES"
  by (simp add: table_ok_def)

lemma table_ok_mono: "table_ok b s \<Longrightarrow> c \<le> b \<Longrightarrow> table_ok c s"
  by (auto simp: table_ok_def list_all_iff)

lemma table_ok_frame [simp]:
  "table_ok b (s\<lparr>world := w\<rparr>) = table_ok b s" "table_ok b (s\<lparr>filenames := ns\<rparr>) = table_ok b s"
  by (simp_all add: table_ok_def)

lemma table_ok_upd:
  assumes "table_ok b s" "refcnt (f (files s ! i)) \<noteq> 1" "unat (refcnt (f (files s ! i))) + b < 2 ^ 32"
  shows "table_ok b (upd_file i f s)"
proof (cases "i < length (files s)")
  case True
  then show ?thesis
    using assms by (auto simp: table_ok_def upd_file_def list_all_length nth_list_update)
next
  case False
  then show ?thesis using assms by (simp add: upd_file_def list_update_beyond)
qed

lemma table_abs_upd: "table_abs (upd_file i f s) = ((fst (table_abs s))[i := refs (f (files s ! i))], world s)"
  by (simp add: table_abs_def upd_file_def map_update)

lemma upd_file_simps [simp]:
  "world (upd_file i f s) = world s" "length (files (upd_file i f s)) = length (files s)"
  "filenames (upd_file i f s) = filenames s"
  "i < length (files s) \<Longrightarrow> files (upd_file i f s) ! i = f (files s ! i)"
  by (simp_all add: upd_file_def)

lemma fe_apply: "fe f s = Inr (fst (f (world s)), s\<lparr>world := snd (f (world s))\<rparr>)"
  by (simp add: fe_def Let_def case_prod_unfold)

subsubsection \<open>Abstract operations\<close>

definition spec_put :: "'w fatfs \<Rightarrow> nat \<Rightarrow> nat list \<times> 'w \<Rightarrow> nat list \<times> 'w" where
  "spec_put ff i = (\<lambda>(ns, w).
     if ns ! i > 1 then (ns[i := ns ! i - 1], w) else (ns[i := 0], snd (f_close ff i w)))"

definition spec_get :: "int \<Rightarrow> nat list \<times> 'w \<Rightarrow> (nat option \<times> nat list \<times> 'w) option" where
  "spec_get fd = (\<lambda>(ns, w).
     if fd \<ge> int MAX_FILES then Some (None, ns, w)
     else if fd < 0 then None
     else if ns ! nat fd = 0 then Some (None, ns, w)
     else Some (Some (nat fd), ns[nat fd := ns ! nat fd + 1], w))"

lemma unat_inc:
  assumes "unat (x :: u32) + 1 < 2 ^ 32"
  shows "unat (x + 1) = unat x + 1"
  using assms unat_add_lem [of x 1] by simp

lemma file_decref_refines:
  assumes "table_ok b s" "i < MAX_FILES"
  shows "\<exists>s'. file_decref ff i s = Inr ((), s') \<and> table_ok b s' \<and> table_abs s' = spec_put ff i (table_abs s)"
proof -
  let ?c = "refcnt (files s ! i)"
  have i: "i < length (files s)" using assms by (simp add: table_ok_def)
  note ok = table_okD [OF assms]
  show ?thesis
  proof (cases "?c > 2")
    case True
    then have "?c \<noteq> 0" by auto
    then have c1: "unat (?c - 1) = unat ?c - 1" by (rule unat_minus_one)
    have c: "unat ?c > 2" using True by (simp add: word_less_nat_alt)
    have "file_decref ff i s = Inr ((), upd_file i (\<lambda>x. x\<lparr>refcnt := ?c - 1\<rparr>) s)"
      using True by (simp add: file_decref_def exec_simps)
    moreover have "table_ok b (upd_file i (\<lambda>x. x\<lparr>refcnt := ?c - 1\<rparr>) s)"
      using assms(1) ok c c1 by (intro table_ok_upd) (auto simp: word_eq_iff_unsigned)
    moreover have "table_abs (upd_file i (\<lambda>x. x\<lparr>refcnt := ?c - 1\<rparr>) s) = spec_put ff i (table_abs s)"
      using i c c1 by (auto simp: upd_file_def map_update spec_put_def table_abs_def refs_def word_eq_iff_unsigned)
    ultimately show ?thesis by blast
  next
    case False
    let ?s = "upd_file i (\<lambda>x. x\<lparr>refcnt := 0, offset := 0\<rparr>) s"
    let ?t = "?s\<lparr>filenames := (filenames s)[i := []], world := snd (f_close ff i (world s))\<rparr>"
    have "file_decref ff i s = Inr ((), ?t)"
      using False by (simp add: file_decref_def exec_simps fe_apply)
    moreover have "table_ok b ?t"
      using assms(1) ok by (simp add: table_ok_upd)
    moreover have "refs (files s ! i) \<le> 1"
      using False by (auto simp: refs_def word_less_nat_alt)
    then have "table_abs ?t = spec_put ff i (table_abs s)"
      using i by (simp add: spec_put_def table_abs_def upd_file_def map_update refs_def)
    ultimately show ?thesis by blast
  qed
qed

lemma file_get_refines:
  assumes "table_ok (Suc b) s"
  shows "case spec_get fd (table_abs s) of
      None \<Rightarrow> file_get fd s = Inl Wild_Access
    | Some (r, a) \<Rightarrow> \<exists>s'. file_get fd s = Inr (r, s') \<and> table_ok b s' \<and> table_abs s' = a"
proof (cases "0 \<le> fd \<and> fd < int MAX_FILES")
  case False
  then show ?thesis
    using table_ok_mono [OF assms, of b]
    by (cases "fd < 0") (auto simp: spec_get_def file_get_def table_abs_def ret_apply wild_def MAX_FILES_def)
next
  case True
  let ?i = "nat fd" and ?c = "refcnt (files s ! nat fd)"
  have i: "?i < MAX_FILES" "?i < length (files s)" using True table_ok_length [OF assms] by auto
  note ok = table_okD [OF assms i(1)]
  have g: "file_get fd s = (if ?c = 0 then Inr (None, s) else Inr (Some ?i, upd_file ?i (\<lambda>x. x\<lparr>refcnt := ?c + 1\<rparr>) s))"
    using True by (simp add: file_get_def exec_simps)
  have r: "fst (table_abs s) ! ?i = refs (files s ! ?i)" using i by (simp add: table_abs_def)
  show ?thesis
  proof (cases "?c = 0")
    case True
    then have "refs (files s ! ?i) = 0" by (simp add: refs_def)
    then show ?thesis
      using True g r \<open>0 \<le> fd \<and> fd < int MAX_FILES\<close> table_ok_mono [OF assms, of b]
      by (auto simp: spec_get_def case_prod_unfold)
  next
    case False
    then have c: "unat ?c \<ge> 2" using ok(1) by (metis One_nat_def Suc_1 Suc_leI le_neq_implies_less not_less_eq_eq
          not_less_zero unsigned_1 unsigned_0 word_eq_iff_unsigned linorder_not_le less_one)
    have inc: "unat (?c + 1) = unat ?c + 1" using ok(2) by (intro unat_inc) simp
    let ?s = "upd_file ?i (\<lambda>x. x\<lparr>refcnt := ?c + 1\<rparr>) s"
    have nz: "?c + 1 \<noteq> 0" using inc by (metis add_is_0 one_neq_zero unsigned_0)
    have "refs (files s ! ?i) \<noteq> 0" "refs ((files s ! ?i)\<lparr>refcnt := ?c + 1\<rparr>) = refs (files s ! ?i) + 1"
      using c inc nz False by (simp_all add: refs_def)
    moreover have "?c + 1 \<noteq> 1" using False by simp
    then have "table_ok b ?s"
      using table_ok_mono [OF assms, of b] ok(2) inc by (intro table_ok_upd) simp_all
    ultimately show ?thesis
      using g r False True i
      by (auto simp: spec_get_def case_prod_unfold table_abs_upd) (auto simp: table_abs_def)
  qed
qed

text \<open>The operations on the table that a client can make, and what each does to the references.\<close>

datatype fop = F_Open "u8 list" u32 | F_Get int | F_Put nat | F_Close int

definition fd_result :: "nat option \<Rightarrow> int" where
  "fd_result r = (case r of None \<Rightarrow> - 1 | Some i \<Rightarrow> int i)"

definition fop_do :: "'w fatfs \<Rightarrow> fop \<Rightarrow> ('w, int) kexec" where
  "fop_do ff x =
     (case x of
        F_Open fn flags \<Rightarrow> ebind (file_open ff fn flags) (\<lambda>r. ret (fd_result r))
      | F_Get fd \<Rightarrow> ebind (file_get fd) (\<lambda>r. ret (fd_result r))
      | F_Put i \<Rightarrow> ebind (file_decref ff i) (\<lambda>_. ret 0)
      | F_Close fd \<Rightarrow> fd_close ff fd)"

definition fop_valid :: "fop \<Rightarrow> bool" where
  "fop_valid x = (case x of F_Put i \<Rightarrow> i < MAX_FILES | _ \<Rightarrow> True)"

text \<open>
  The specification: opening takes the lowest free entry from 3 on and gives it one reference, closing
  drops one, and the file is closed in the file system exactly when its last reference is dropped. No
  result means that the kernel stops.
\<close>

definition fop_spec :: "'w fatfs \<Rightarrow> fop \<Rightarrow> nat list \<times> 'w \<Rightarrow> (int \<times> nat list \<times> 'w) option" where
  "fop_spec ff x a =
     (case x of
        F_Open fn flags \<Rightarrow>
          (case find (\<lambda>i. fst a ! i = 0) [3..<MAX_FILES] of
             None \<Rightarrow> None
           | Some i \<Rightarrow>
               (let (rt, w) = f_open ff i fn (open_mode flags) (snd a); ns = (fst a)[i := 1]
                in if rt \<noteq> 0 then Some (- 1, spec_put ff i (ns, w)) else Some (int i, ns, w)))
      | F_Get fd \<Rightarrow> map_option (\<lambda>(r, b). (fd_result r, b)) (spec_get fd a)
      | F_Put i \<Rightarrow> Some (0, spec_put ff i a)
      | F_Close fd \<Rightarrow>
          (if fd \<ge> int MAX_FILES then Some (- 1, a)
           else if fd < 0 then None
           else if fst a ! nat fd = 0 then Some (- 1, a)
           else Some (0, spec_put ff (nat fd) a)))"

lemma refs_zero_iff: "table_ok b s \<Longrightarrow> i < MAX_FILES \<Longrightarrow> refs (files s ! i) = 0 \<longleftrightarrow> refcnt (files s ! i) = 0"
proof -
  assume "table_ok b s" "i < MAX_FILES"
  then have "refcnt (files s ! i) \<noteq> 1" by (rule table_okD)
  then have "unat (refcnt (files s ! i)) \<noteq> 1" by (metis unsigned_1 word_eq_iff_unsigned)
  then show ?thesis by (auto simp: refs_def) (metis unsigned_eq_0_iff le_0_eq le_Suc_eq One_nat_def)
qed

lemma file_get_free_refines:
  assumes "table_ok b s"
  shows "case find (\<lambda>i. fst (table_abs s) ! i = 0) [3..<MAX_FILES] of
      None \<Rightarrow> \<exists>e. file_get_free s = Inl e
    | Some i \<Rightarrow> \<exists>s'. file_get_free s = Inr (i, s') \<and> i < MAX_FILES \<and> (b + 2 < 2 ^ 32 \<longrightarrow> table_ok b s') \<and>
        table_abs s' = ((fst (table_abs s))[i := 1], world s)"
proof -
  have "find (\<lambda>i. fst (table_abs s) ! i = 0) [3..<MAX_FILES] = find (\<lambda>i. refcnt (files s ! i) = 0) [3..<MAX_FILES]"
    using refs_zero_iff [OF assms] table_ok_length [OF assms]
    by (intro find_cong) (auto simp: table_abs_def)
  moreover have "i < MAX_FILES" if "find P [3..<MAX_FILES] = Some i" for P i
    using that by (auto simp: find_Some_iff)
  ultimately show ?thesis
    using assms
    by (auto simp: file_get_free_def exec_simps panic_def table_abs_upd refs_def word_eq_iff_unsigned
        split: option.split intro!: table_ok_upd)
qed

lemma spec_put_get:
  assumes "i < length ns" "0 < ns ! i"
  shows "spec_put ff i (spec_put ff i (ns[i := ns ! i + 1], w)) = spec_put ff i (ns, w)"
  using assms by (auto simp: spec_put_def)

lemma fop_refines:
  assumes "table_ok (Suc b) s" "fop_valid x" "b + 2 < 2 ^ 32"
  shows "case fop_spec ff x (table_abs s) of
      None \<Rightarrow> \<exists>e. fop_do ff x s = Inl e
    | Some (r, a) \<Rightarrow> \<exists>s'. fop_do ff x s = Inr (r, s') \<and> table_ok b s' \<and> table_abs s' = a"
proof -
  have ok: "table_ok b s" using assms(1) by (rule table_ok_mono) simp
  show ?thesis
  proof (cases x)
    case (F_Put i)
    then obtain s' where "file_decref ff i s = Inr ((), s')" "table_ok b s'" "table_abs s' = spec_put ff i (table_abs s)"
      using file_decref_refines [OF ok, of i ff] assms(2) by (auto simp: fop_valid_def)
    then show ?thesis using F_Put by (simp add: fop_spec_def fop_do_def exec_simps)
  next
    case (F_Get fd)
    then show ?thesis
      using file_get_refines [OF assms(1), of fd]
      by (auto simp: fop_spec_def fop_do_def exec_simps split: option.splits)
  next
    case (F_Close fd)
    show ?thesis
    proof (cases "0 \<le> fd \<and> fd < int MAX_FILES \<and> fst (table_abs s) ! nat fd \<noteq> 0")
      case True
      then have i: "nat fd < MAX_FILES" "nat fd < length (fst (table_abs s))"
        using table_ok_length [OF ok] by (auto simp: table_abs_def)
      obtain s1 where s1: "file_get fd s = Inr (Some (nat fd), s1)" "table_ok b s1"
          "table_abs s1 = ((fst (table_abs s))[nat fd := fst (table_abs s) ! nat fd + 1], snd (table_abs s))"
        using file_get_refines [OF assms(1), of fd] True by (auto simp: spec_get_def case_prod_unfold)
      obtain s2 where s2: "file_decref ff (nat fd) s1 = Inr ((), s2)" "table_ok b s2"
          "table_abs s2 = spec_put ff (nat fd) (table_abs s1)"
        using file_decref_refines [OF s1(2) i(1), of ff] by auto
      obtain s3 where s3: "file_decref ff (nat fd) s2 = Inr ((), s3)" "table_ok b s3"
          "table_abs s3 = spec_put ff (nat fd) (table_abs s2)"
        using file_decref_refines [OF s2(2) i(1), of ff] by auto
      have "fd_close ff fd s = Inr (0, s3)" using s1(1) s2(1) s3(1) by (simp add: fd_close_def exec_simps)
      moreover have "table_abs s3 = spec_put ff (nat fd) (table_abs s)"
        using s3(3) s2(3) s1(3) spec_put_get [OF i(2), of ff "snd (table_abs s)"] True by simp
      ultimately show ?thesis using F_Close True s3(2) by (simp add: fop_spec_def fop_do_def)
    next
      case False
      then show ?thesis
        using file_get_refines [OF assms(1), of fd] F_Close
        by (auto simp: fop_spec_def fop_do_def fd_close_def spec_get_def exec_simps case_prod_unfold split: if_splits)
    qed
  next
    case (F_Open fn flags)
    show ?thesis
    proof (cases "find (\<lambda>i. fst (table_abs s) ! i = 0) [3..<MAX_FILES]")
      case None
      then show ?thesis
        using file_get_free_refines [OF ok] F_Open
        by (auto simp: fop_spec_def fop_do_def file_open_def file_openat_def exec_simps)
    next
      case (Some i)
      obtain s1 where s1: "file_get_free s = Inr (i, s1)" "i < MAX_FILES" "table_ok b s1"
          "table_abs s1 = ((fst (table_abs s))[i := 1], world s)"
        using file_get_free_refines [OF ok] Some assms(3) by auto
      let ?o = "f_open ff i fn (open_mode flags) (world s)"
      let ?s2 = "s1\<lparr>world := snd ?o\<rparr>"
      have w: "world s1 = world s" "snd (table_abs s) = world s" using s1(4) by (simp_all add: table_abs_def)
      have s2: "table_ok b ?s2" "table_abs ?s2 = ((fst (table_abs s))[i := 1], snd ?o)"
        using s1(3,4) by (simp_all add: table_abs_def)
      obtain s3 where s3: "file_decref ff i ?s2 = Inr ((), s3)" "table_ok b s3"
          "table_abs s3 = spec_put ff i ((fst (table_abs s))[i := 1], snd ?o)"
        using file_decref_refines [OF s2(1) s1(2), of ff] s2(2) by auto
      show ?thesis
        using Some F_Open s1(1) w s2 s3
        by (auto simp: fop_spec_def fop_do_def file_open_def file_openat_def exec_simps fe_apply fd_result_def
            case_prod_unfold Let_def table_abs_def)
    qed
  qed
qed

fun fops_do :: "'w fatfs \<Rightarrow> fop list \<Rightarrow> ('w, int list) kexec" where
  "fops_do ff [] = ret []"
| "fops_do ff (x # xs) = ebind (fop_do ff x) (\<lambda>r. ebind (fops_do ff xs) (\<lambda>rs. ret (r # rs)))"

fun fops_spec :: "'w fatfs \<Rightarrow> fop list \<Rightarrow> nat list \<times> 'w \<Rightarrow> (int list \<times> nat list \<times> 'w) option" where
  "fops_spec ff [] a = Some ([], a)"
| "fops_spec ff (x # xs) a =
     Option.bind (fop_spec ff x a) (\<lambda>(r, b). map_option (\<lambda>(rs, c). (r # rs, c)) (fops_spec ff xs b))"

lemma fops_refine:
  assumes "table_ok (length xs + b) s" "list_all fop_valid xs" "length xs + b + 2 < 2 ^ 32"
  shows "case fops_spec ff xs (table_abs s) of
      None \<Rightarrow> \<exists>e. fops_do ff xs s = Inl e
    | Some (rs, a) \<Rightarrow> \<exists>s'. fops_do ff xs s = Inr (rs, s') \<and> table_ok b s' \<and> table_abs s' = a"
  using assms
proof (induction xs arbitrary: s)
  case (Cons x xs)
  have f: "case fop_spec ff x (table_abs s) of
      None \<Rightarrow> \<exists>e. fop_do ff x s = Inl e
    | Some (r, a) \<Rightarrow> \<exists>s'. fop_do ff x s = Inr (r, s') \<and> table_ok (length xs + b) s' \<and> table_abs s' = a"
    using Cons.prems by (intro fop_refines) auto
  show ?case
  proof (cases "fop_spec ff x (table_abs s)")
    case None
    then show ?thesis using f by (auto simp: ebind_apply)
  next
    case (Some ra)
    obtain r a where ra: "ra = (r, a)" by (cases ra)
    obtain s1 where s1: "fop_do ff x s = Inr (r, s1)" "table_ok (length xs + b) s1" "table_abs s1 = a"
      using f Some ra by auto
    have "case fops_spec ff xs (table_abs s1) of
        None \<Rightarrow> \<exists>e. fops_do ff xs s1 = Inl e
      | Some (rs, a) \<Rightarrow> \<exists>s'. fops_do ff xs s1 = Inr (rs, s') \<and> table_ok b s' \<and> table_abs s' = a"
      using Cons s1(2) by (intro Cons.IH) auto
    then show ?thesis using Some ra s1 by (auto simp: exec_simps split: option.splits)
  qed
qed (simp add: ret_apply)

text \<open>
  C17 (refinement): from the initial table on, opening, taking, dropping and closing files behaves as the
  reference-counting specification says, for every sequence of calls and every FatFs: the same results, the
  same numbers of references, the same effect on the file system. In particular \<^verbatim>\<open>f_close\<close> is called
  exactly when the last reference is dropped, and the kernel stops exactly when no entry is free or a
  negative descriptor is used.
\<close>

theorem file_table_refines:
  assumes "list_all fop_valid xs" "length xs + 2 < 2 ^ 32"
  shows "case fops_spec ff xs (replicate MAX_FILES 0, world s) of
      None \<Rightarrow> \<exists>e. fops_do ff xs (file_init s) = Inl e
    | Some (rs, a) \<Rightarrow> \<exists>s'. fops_do ff xs (file_init s) = Inr (rs, s') \<and> table_abs s' = a"
proof -
  have "table_ok (length xs + 0) (file_init s)"
    using assms(2) by (simp add: table_ok_def file_init_def list_all_iff)
  moreover have "table_abs (file_init s) = (replicate MAX_FILES 0, world s)"
    by (simp add: table_abs_def file_init_def refs_def)
  ultimately show ?thesis
    using fops_refine [of xs 0 "file_init s" ff] assms by (auto split: option.splits)
qed

text \<open>A file system for the witnesses: it serves one file, and counts the calls of \<^verbatim>\<open>f_close\<close>.\<close>

record toy_world =
  toy_pos :: nat
  toy_closed :: nat

definition toy_data :: "u8 list" where
  "toy_data = [10, 20, 30, 40, 50]"

definition toy_fat :: "toy_world fatfs" where
  "toy_fat =
     \<lparr>f_open = (\<lambda>i n m w. (if n = [] then 4 else 0, w)),
      f_close = (\<lambda>i w. (0, w\<lparr>toy_closed := toy_closed w + 1\<rparr>)),
      f_lseek = (\<lambda>i off w. (0, w\<lparr>toy_pos := unat off\<rparr>)),
      f_read = (\<lambda>i n w. ((0, take (unat n) (drop (toy_pos w) toy_data)),
                  w\<lparr>toy_pos := min (toy_pos w + unat n) (length toy_data)\<rparr>)),
      f_write = (\<lambda>i bs w. ((0, 0), w)),
      f_size = (\<lambda>i w. 5), f_flag = (\<lambda>i w. 1),
      f_stat = (\<lambda>n w. ((0, \<lparr>fi_size = 5, fi_date = 0x21, fi_time = 0, fi_attrib = 0\<rparr>), w)),
      f_unlink = (\<lambda>n w. (0, w)), f_chdir = (\<lambda>n w. (0, w)), f_getcwd = (\<lambda>n w. ((0, []), w)),
      f_mount = (\<lambda>a b w. (0, w)), ioctl_block_size = (\<lambda>w. ((RES_OK, 512), w))\<rparr>"

definition toy_state :: "toy_world fstate" where
  "toy_state = file_init \<lparr>files = [], filenames = replicate MAX_FILES [], croot = [], world = \<lparr>toy_pos = 0, toy_closed = 0\<rparr>\<rparr>"

theorem file_table_refines_witness:
  "\<exists>s'. fops_do toy_fat [F_Open [1] 0, F_Get 3, F_Open [] 0, F_Close 3, F_Put 3, F_Close 3] toy_state
     = Inr ([3, 3, - 1, 0, 0, - 1], s') \<and> table_abs s' = (replicate MAX_FILES 0, \<lparr>toy_pos = 0, toy_closed = 2\<rparr>)"
proof -
  let ?xs = "[F_Open [1] 0, F_Get 3, F_Open [] 0, F_Close 3, F_Put 3, F_Close 3]"
  let ?w = "\<lparr>toy_pos = 0, toy_closed = 0\<rparr>"
  have "fops_spec toy_fat ?xs (replicate MAX_FILES 0, ?w)
      = Some ([3, 3, - 1, 0, 0, - 1], replicate MAX_FILES 0, ?w\<lparr>toy_closed := 2\<rparr>)"
    by code_simp
  moreover have "list_all fop_valid ?xs" "length ?xs + 2 < 2 ^ 32" by (simp_all add: fop_valid_def MAX_FILES_def)
  ultimately show ?thesis
    using file_table_refines [of ?xs toy_fat "\<lparr>files = [], filenames = replicate MAX_FILES [], croot = [], world = ?w\<rparr>"]
    unfolding toy_state_def by simp
qed

subsection \<open>Sequential and positioned reads\<close>

datatype rop = Read u64 | Pread u64 u64

fun rops_do :: "'w fatfs \<Rightarrow> nat \<Rightarrow> rop list \<Rightarrow> ('w, u8 list list) kexec" where
  "rops_do ff f [] = ret []"
| "rops_do ff f (x # xs) =
     ebind (case x of Read n \<Rightarrow> file_read ff f n | Pread n off \<Rightarrow> file_pread ff f n off) (\<lambda>(_, bs).
     ebind (rops_do ff f xs) (\<lambda>rs. ret (bs # rs)))"

text \<open>What the reads return from a file with contents \<open>bs\<close>, from position \<open>p\<close> on.\<close>

fun rops_spec :: "u8 list \<Rightarrow> nat \<Rightarrow> rop list \<Rightarrow> u8 list list" where
  "rops_spec bs p [] = []"
| "rops_spec bs p (Read n # xs) =
     take (unat n) (drop p bs) # rops_spec bs (min (p + unat n) (length bs)) xs"
| "rops_spec bs p (Pread n off # xs) = take (unat n) (drop (unat off) bs) # rops_spec bs p xs"

definition rop_valid :: "u8 list \<Rightarrow> rop \<Rightarrow> bool" where
  "rop_valid bs x = (case x of Read n \<Rightarrow> n < 2 ^ 32 | Pread n off \<Rightarrow> n < 2 ^ 32 \<and> unat off \<le> length bs)"

text \<open>
  \<open>serves ff i bs at\<close>: as documented, \<^verbatim>\<open>f_lseek\<close> moves the pointer of file \<open>i\<close> to a position inside the
  file, and \<^verbatim>\<open>f_read\<close> returns the bytes from there to the requested length or the end of the file and
  moves the pointer behind them; \<open>at w p\<close> says that the file holds \<open>bs\<close> and its pointer is at \<open>p\<close>.
\<close>

definition serves :: "'w fatfs \<Rightarrow> nat \<Rightarrow> u8 list \<Rightarrow> ('w \<Rightarrow> nat \<Rightarrow> bool) \<Rightarrow> bool" where
  "serves ff i bs at \<longleftrightarrow>
     (\<forall>w p off. at w p \<longrightarrow> unat off \<le> length bs \<longrightarrow> (\<exists>w'. f_lseek ff i off w = (0, w') \<and> at w' (unat off))) \<and>
     (\<forall>w p n. at w p \<longrightarrow> (\<exists>w'. f_read ff i n w = ((0, take (unat n) (drop p bs)), w') \<and>
        at w' (min (p + unat n) (length bs))))"

lemma serves_seek:
  assumes "serves ff i bs at" "at w p" "unat off \<le> length bs"
  obtains w' where "f_lseek ff i off w = (0, w')" "at w' (unat off)"
  using assms unfolding serves_def by blast

lemma serves_read:
  assumes "serves ff i bs at" "at w p"
  obtains w' where "f_read ff i n w = ((0, take (unat n) (drop p bs)), w')" "at w' (min (p + unat n) (length bs))"
  using assms unfolding serves_def by blast

lemma unat_ucast_32: "(n :: u64) < 2 ^ 32 \<Longrightarrow> unat (ucast n :: u32) = unat n"
  by (simp add: unsigned_ucast_eq take_bit_nat_eq_self word_less_nat_alt)

lemma file_pread_serves:
  assumes "serves ff f bs at" "at (world s) p" "n < 2 ^ 32" "unat off \<le> length bs" "length bs < 2 ^ 32"
  obtains w p' where "at w p'"
    "file_pread ff f n off s = Inr ((of_nat (length (take (unat n) (drop (unat off) bs))), take (unat n) (drop (unat off) bs)),
       s\<lparr>world := w\<rparr>)"
proof -
  have "off < 2 ^ 32" using assms(4,5) by (simp add: word_less_nat_alt)
  note u = unat_ucast_32 [OF assms(3)] unat_ucast_32 [OF this]
  obtain w1 where w1: "f_lseek ff f (ucast off) (world s) = (0, w1)" "at w1 (unat off)"
    using serves_seek [OF assms(1,2), of "ucast off"] assms(4) u by metis
  obtain w2 where "f_read ff f (ucast n) w1 = ((0, take (unat n) (drop (unat off) bs)), w2)"
      "at w2 (min (unat off + unat n) (length bs))"
    using serves_read [OF assms(1) w1(2), of "ucast n"] u by metis
  with w1 show ?thesis by (intro that) (auto simp: file_pread_def exec_simps fe_apply)
qed

lemma file_read_serves:
  assumes "serves ff f bs at" "at (world s) p" "n < 2 ^ 32" "length bs < 2 ^ 32" "f < length (files s)"
    "unat (offset (files s ! f)) \<le> length bs"
  obtains w p' s' where "at (world s') p'" "length (files s') = length (files s)"
    "unat (offset (files s' ! f)) = min (unat (offset (files s ! f)) + unat n) (length bs)"
    "file_read ff f n s = Inr ((of_nat (length (take (unat n) (drop (unat (offset (files s ! f))) bs))),
       take (unat n) (drop (unat (offset (files s ! f))) bs)), s')"
proof -
  let ?o = "offset (files s ! f)" let ?bs = "take (unat n) (drop (unat ?o) bs)"
  note u = unat_ucast_32 [OF assms(3)]
  obtain w1 where w1: "f_lseek ff f ?o (world s) = (0, w1)" "at w1 (unat ?o)"
    using serves_seek [OF assms(1,2,6)] by metis
  obtain w2 where w2: "f_read ff f (ucast n) w1 = ((0, ?bs), w2)" "at w2 (min (unat ?o + unat n) (length bs))"
    using serves_read [OF assms(1) w1(2), of "ucast n"] u by metis
  let ?s = "upd_file f (\<lambda>x. x\<lparr>offset := offset x + of_nat (length ?bs)\<rparr>) (s\<lparr>world := w2\<rparr>)"
  have "file_read ff f n s = Inr ((of_nat (length ?bs), ?bs), ?s)"
    using w1 w2 by (simp add: file_read_def exec_simps fe_apply)
  moreover have l: "unat ?o + length ?bs = min (unat ?o + unat n) (length bs)" using assms(6) by auto
  then have "unat ?o + length ?bs < 2 ^ 32" using assms(4) by linarith
  then have "unat (?o + of_nat (length ?bs)) = unat ?o + length ?bs"
    by (subst unat_add_lem [THEN iffD1]) (simp_all add: unsigned_of_nat take_bit_nat_eq_self)
  then have "unat (offset (files ?s ! f)) = min (unat ?o + unat n) (length bs)" using assms(5) l by simp
  ultimately show ?thesis using w2(2) by (intro that) auto
qed

lemma rops_serve:
  assumes "serves ff f bs at" "length bs < 2 ^ 32"
  shows "at (world s) p \<Longrightarrow> list_all (rop_valid bs) xs \<Longrightarrow> f < length (files s) \<Longrightarrow>
    unat (offset (files s ! f)) \<le> length bs \<Longrightarrow>
    \<exists>s'. rops_do ff f xs s = Inr (rops_spec bs (unat (offset (files s ! f))) xs, s')"
proof (induction xs arbitrary: s p)
  case (Cons x xs)
  show ?case
  proof (cases x)
    case (Read n)
    with Cons.prems have "n < 2 ^ 32" by (simp add: rop_valid_def)
    from file_read_serves [OF assms(1) Cons.prems(1) this assms(2) Cons.prems(3,4)] obtain s1 p1 where
      s1: "at (world s1) p1" "length (files s1) = length (files s)"
        "unat (offset (files s1 ! f)) = min (unat (offset (files s ! f)) + unat n) (length bs)"
        "file_read ff f n s = Inr ((of_nat (length (take (unat n) (drop (unat (offset (files s ! f))) bs))),
           take (unat n) (drop (unat (offset (files s ! f))) bs)), s1)" by metis
    with Cons.prems obtain s2 where
      "rops_do ff f xs s1 = Inr (rops_spec bs (unat (offset (files s1 ! f))) xs, s2)"
      using Cons.IH [OF s1(1)] by auto
    then show ?thesis using Read s1(3,4) by (simp add: exec_simps)
  next
    case (Pread n off)
    with Cons.prems have "n < 2 ^ 32" "unat off \<le> length bs" by (simp_all add: rop_valid_def)
    from file_pread_serves [OF assms(1) Cons.prems(1) this assms(2)] obtain w p1 where
      w: "at w p1" "file_pread ff f n off s = Inr ((of_nat (length (take (unat n) (drop (unat off) bs))),
           take (unat n) (drop (unat off) bs)), s\<lparr>world := w\<rparr>)" by metis
    with Cons.prems obtain s2 where
      "rops_do ff f xs (s\<lparr>world := w\<rparr>) = Inr (rops_spec bs (unat (offset (files s ! f))) xs, s2)"
      using Cons.IH [of "s\<lparr>world := w\<rparr>" p1] by auto
    then show ?thesis using Pread w(2) by (simp add: exec_simps)
  qed
qed (simp add: ret_apply)

text \<open>
  C18 (functional): on a file that FatFs serves as documented, reads return consecutive pieces of the file
  from the offset of the table entry on, whatever positioned reads are made in between, and each positioned
  read returns the bytes at its own offset: the kernel's offset is independent of the pointer of FatFs.
\<close>

theorem reads_interleave:
  assumes "serves ff f bs at" "length bs < 2 ^ 32" "at (world s) p" "list_all (rop_valid bs) xs"
    and "f < length (files s)" "unat (offset (files s ! f)) \<le> length bs"
  shows "\<exists>s'. rops_do ff f xs s = Inr (rops_spec bs (unat (offset (files s ! f))) xs, s')"
  using assms by (intro rops_serve)

theorem reads_interleave_witness:
  "\<exists>s'. rops_do toy_fat 3 [Read 2, Pread 2 0, Read 1, Pread 9 4, Read 7, Read 1] toy_state
     = Inr ([[10, 20], [10, 20], [30], [50], [40, 50], []], s')"
proof -
  let ?xs = "[Read 2, Pread 2 0, Read 1, Pread 9 4, Read 7, Read 1]"
  have 1: "serves toy_fat 3 toy_data (\<lambda>w p. toy_pos w = p)" by (simp add: serves_def toy_fat_def)
  have 2: "length toy_data < 2 ^ 32" "list_all (rop_valid toy_data) ?xs"
    by (simp_all add: toy_data_def rop_valid_def word_less_nat_alt)
  have o: "offset (files toy_state ! 3) = 0" "3 < length (files toy_state)"
    by (simp_all add: toy_state_def file_init_def MAX_FILES_def)
  have "rops_spec toy_data 0 ?xs = [[10, 20], [10, 20], [30], [50], [40, 50], []]"
    by (simp add: toy_data_def)
  with reads_interleave [OF 1 2(1) refl 2(2) o(2)] o show ?thesis by simp
qed

end
