(* ===== verification/Page_Table.thy ===== *)
theory Page_Table
  imports Pk_File
begin

text \<open>
  The page tables of the proxy kernel (\<^verbatim>\<open>fs/mmap.c\<close>, \<^verbatim>\<open>fs/vm.h\<close>): the allocator of physical pages and
  the walk through the three levels of an Sv39 table, with and without creation of missing levels. The
  tables are the 64-bit words of the allocated pages, by address; the theorems relate them to one
  function from page numbers to page table entries.
\<close>

subsection \<open>Constants and entries\<close>

definition RISCV_PGSHIFT :: nat where "RISCV_PGSHIFT = 12"
definition RISCV_PGSIZE :: u64 where "RISCV_PGSIZE = 4096"
definition RISCV_PGLEVEL_BITS :: nat where "RISCV_PGLEVEL_BITS = 9"
definition PTE_PPN_SHIFT :: nat where "PTE_PPN_SHIFT = 10"
definition PTE_V :: u64 where "PTE_V = 1"
definition PTE_R :: u64 where "PTE_R = 2"
definition PTE_W :: u64 where "PTE_W = 4"
definition PTE_X :: u64 where "PTE_X = 8"
definition PTE_U :: u64 where "PTE_U = 16"

lemmas pt_consts = RISCV_PGSHIFT_def RISCV_PGSIZE_def RISCV_PGLEVEL_BITS_def PTE_PPN_SHIFT_def
  PTE_V_def PTE_R_def PTE_W_def PTE_X_def PTE_U_def

definition pte_create :: "u64 \<Rightarrow> u64 \<Rightarrow> u64" where
  "pte_create n type = push_bit PTE_PPN_SHIFT n OR PTE_V OR type"

definition ptd_create :: "u64 \<Rightarrow> u64" where
  "ptd_create n = pte_create n 0"

definition pte_ppn :: "u64 \<Rightarrow> u64" where
  "pte_ppn pte = drop_bit PTE_PPN_SHIFT pte"

definition ppn :: "u64 \<Rightarrow> u64" where
  "ppn addr = drop_bit RISCV_PGSHIFT addr"

definition pt_idx :: "u64 \<Rightarrow> nat \<Rightarrow> u64" where
  "pt_idx addr level = drop_bit (RISCV_PGLEVEL_BITS * level + RISCV_PGSHIFT) addr AND (2 ^ RISCV_PGLEVEL_BITS - 1)"

subsection \<open>Physical pages\<close>

record ptmem =
  pt_words :: "u64 \<Rightarrow> u64"
  root_page_table :: u64
  first_free_page :: u64
  next_free_page :: u64
  free_pages :: u64

definition zero_page :: "u64 \<Rightarrow> (u64 \<Rightarrow> u64) \<Rightarrow> u64 \<Rightarrow> u64" where
  "zero_page a m = (\<lambda>x. if x - a < RISCV_PGSIZE then 0 else m x)"

definition page_alloc :: "('a ptmem_scheme, kexit, u64) comp" where
  "page_alloc s =
     (if next_free_page s = free_pages s then Inl (Panic ''next_free_page != free_pages'')
      else
        (let addr = first_free_page s + RISCV_PGSIZE * next_free_page s
         in Inr (addr, s\<lparr>next_free_page := next_free_page s + 1, pt_words := zero_page addr (pt_words s)\<rparr>)))"

subsection \<open>The walk\<close>

text \<open>
  The loop of \<^verbatim>\<open>__walk_internal\<close> from level \<open>i\<close> with the table at \<open>t\<close>: the address of the entry of the
  last level (\<open>Inr\<close>), or of an entry that is not valid on the way (\<open>Inl\<close>).
\<close>

fun descend :: "(u64 \<Rightarrow> u64) \<Rightarrow> u64 \<Rightarrow> nat \<Rightarrow> u64 \<Rightarrow> u64 + u64" where
  "descend m addr 0 t = Inr (t + 8 * pt_idx addr 0)"
| "descend m addr (Suc i) t =
     (let p = t + 8 * pt_idx addr (Suc i)
      in if m p AND PTE_V = 0 then Inl p
         else descend m addr i (push_bit RISCV_PGSHIFT (pte_ppn (m p))))"

definition set_pte :: "u64 \<Rightarrow> u64 \<Rightarrow> 'a ptmem_scheme \<Rightarrow> 'a ptmem_scheme" where
  "set_pte p x s = s\<lparr>pt_words := (pt_words s)(p := x)\<rparr>"

definition walk :: "u64 \<Rightarrow> 'a ptmem_scheme \<Rightarrow> u64 option" where
  "walk addr s = (case descend (pt_words s) addr 2 (root_page_table s) of Inl _ \<Rightarrow> None | Inr p \<Rightarrow> Some p)"

lemma page_alloc_measure:
  assumes "page_alloc s = Inr (a, s')"
  shows "unat (free_pages (set_pte p x s') - next_free_page (set_pte p x s')) < unat (free_pages s - next_free_page s)"
proof -
  from assms have n: "next_free_page s \<noteq> free_pages s"
    and s': "free_pages s' = free_pages s" "next_free_page s' = next_free_page s + 1"
    by (auto simp: page_alloc_def Let_def split: if_splits)
  then have nz: "free_pages s - next_free_page s \<noteq> 0" by simp
  then have "unat (free_pages s - next_free_page s) \<noteq> 0" using unsigned_eq_0_iff by blast
  moreover have "unat (free_pages s - next_free_page s - 1) = unat (free_pages s - next_free_page s) - 1"
    using nz by (rule unat_minus_one)
  ultimately show ?thesis by (simp add: s' set_pte_def diff_diff_eq)
qed

text \<open>A missing level is created and the walk starts again, as \<^verbatim>\<open>__continue_walk_create\<close> does.\<close>

function walk_create :: "u64 \<Rightarrow> ('a ptmem_scheme, kexit, u64) comp" where
  "walk_create addr s =
     (case descend (pt_words s) addr 2 (root_page_table s) of
        Inr p \<Rightarrow> Inr (p, s)
      | Inl p \<Rightarrow>
          (case page_alloc s of
             Inl e \<Rightarrow> Inl e
           | Inr (a, s') \<Rightarrow> walk_create addr (set_pte p (ptd_create (ppn a)) s')))"
  by pat_completeness auto
termination
  by (relation "measure (\<lambda>(addr, s). unat (free_pages s - next_free_page s))") (auto dest: page_alloc_measure)

declare walk_create.simps [simp del]

definition va_avail :: "u64 \<Rightarrow> 'a ptmem_scheme \<Rightarrow> bool" where
  "va_avail vaddr s = (case walk vaddr s of None \<Rightarrow> True | Some p \<Rightarrow> pt_words s p = 0)"

text \<open>The caller does not test for a missing table, which is then read through a null pointer.\<close>

definition va_trans :: "u64 \<Rightarrow> 'a ptmem_scheme \<Rightarrow> kexit + u64 option" where
  "va_trans vaddr s =
     (case walk vaddr s of
        None \<Rightarrow> Inl Wild_Access
      | Some p \<Rightarrow>
          if pt_words s p AND PTE_V \<noteq> 0
          then Inr (Some (push_bit RISCV_PGSHIFT (pte_ppn (pt_words s p)) + (vaddr AND (RISCV_PGSIZE - 1))))
          else Inr None)"

subsection \<open>Words\<close>

lemma and_511: "(x :: u64) AND 511 = take_bit 9 x"
  by (simp add: take_bit_eq_mask mask_eq_exp_minus_1)

lemma pt_idx_eq: "pt_idx a l = take_bit 9 (drop_bit (9 * l + 12) a)"
  by (simp add: pt_idx_def pt_consts and_511)

lemma pt_idx_less: "pt_idx a l < 512"
  using take_bit_nat_less_exp [of 9 "unat (drop_bit (9 * l + 12) a)"]
  by (simp add: pt_idx_eq word_less_nat_alt unsigned_take_bit_eq)

lemma take_bit_unat_less:
  fixes n :: "'a::len word"
  assumes "unat n < 2 ^ k"
  shows "take_bit k n = n"
proof -
  have "unat (take_bit k n) = unat n" using assms by (simp add: unsigned_take_bit_eq take_bit_nat_eq_self)
  then show ?thesis by (rule unsigned_word_eqI)
qed

lemma pte_ppn_create: "n < 2 ^ 54 \<Longrightarrow> t < 1024 \<Longrightarrow> pte_ppn (pte_create n t) = n"
proof -
  assume "n < 2 ^ 54" "t < 1024"
  then have n: "take_bit 54 n = n" and t: "take_bit 10 t = t"
    by (simp_all add: take_bit_unat_less word_less_nat_alt)
  have bn: "bit n i \<Longrightarrow> i < 54" for i using n by (metis bit_take_bit_iff)
  have bt: "bit t i \<Longrightarrow> i < 10" for i using t by (metis bit_take_bit_iff)
  show ?thesis
    unfolding pte_ppn_def pte_create_def pt_consts
    by (rule bit_word_eqI) (auto simp: bit_simps dest: bn bt)
qed

lemma ppn_less: "ppn a < 2 ^ 52"
proof -
  have "unat (drop_bit 12 a) = unat a div 2 ^ 12" by (simp add: drop_bit_eq_div unat_div_distrib)
  moreover have "unat a < 2 ^ 64" using unsigned_less [where w = a and ?'a = nat] by simp
  ultimately show ?thesis by (simp add: ppn_def pt_consts word_less_nat_alt)
qed

lemma page_of_ppn: "take_bit 12 a = 0 \<Longrightarrow> push_bit 12 (ppn a) = a"
  using bits_ident [of 12 a] by (simp add: ppn_def pt_consts)

lemma child_create:
  assumes "take_bit 12 a = 0"
  shows "push_bit RISCV_PGSHIFT (pte_ppn (ptd_create (ppn a))) = a" "ptd_create (ppn a) AND PTE_V \<noteq> 0"
proof -
  have "ppn a < 2 ^ 54" using ppn_less [of a] by (simp add: word_less_nat_alt)
  then show "push_bit RISCV_PGSHIFT (pte_ppn (ptd_create (ppn a))) = a"
    using assms by (simp add: ptd_create_def pte_ppn_create page_of_ppn RISCV_PGSHIFT_def)
  have "bit (ptd_create (ppn a)) 0" by (simp add: ptd_create_def pte_create_def pt_consts bit_simps)
  then show "ptd_create (ppn a) AND PTE_V \<noteq> 0"
    by (auto simp: PTE_V_def and_one_eq odd_iff_mod_2_eq_one bit_0)
qed

subsection \<open>The tree of tables\<close>

text \<open>
  \<open>child m t i\<close> is the table that entry \<open>i\<close> of table \<open>t\<close> points to, \<open>tbl m t p\<close> the table at the end of a
  path of indices: the empty path leads to the root, paths of length 2 to the tables of the last level.
\<close>

definition child :: "(u64 \<Rightarrow> u64) \<Rightarrow> u64 \<Rightarrow> u64 \<Rightarrow> u64 option" where
  "child m t i =
     (if m (t + 8 * i) AND PTE_V = 0 then None else Some (push_bit RISCV_PGSHIFT (pte_ppn (m (t + 8 * i)))))"

fun tbl :: "(u64 \<Rightarrow> u64) \<Rightarrow> u64 \<Rightarrow> u64 list \<Rightarrow> u64 option" where
  "tbl m t [] = Some t"
| "tbl m t (i # p) = Option.bind (child m t i) (\<lambda>c. tbl m c p)"

lemma tbl_append: "tbl m t (p @ q) = Option.bind (tbl m t p) (\<lambda>c. tbl m c q)"
  by (induction p arbitrary: t) (auto split: Option.bind_split)

lemma descend_tbl:
  "descend m a 2 t =
     (case child m t (pt_idx a 2) of
        None \<Rightarrow> Inl (t + 8 * pt_idx a 2)
      | Some c \<Rightarrow>
          (case child m c (pt_idx a 1) of
             None \<Rightarrow> Inl (c + 8 * pt_idx a 1)
           | Some d \<Rightarrow> Inr (d + 8 * pt_idx a 0)))"
  by (simp add: numeral_2_eq_2 child_def Let_def)

text \<open>The pages that have been given out, and the shape of the area they come from.\<close>

definition pg :: "'a ptmem_scheme \<Rightarrow> nat \<Rightarrow> u64" where
  "pg s k = first_free_page s + RISCV_PGSIZE * of_nat k"

definition alloc_page :: "'a ptmem_scheme \<Rightarrow> u64 \<Rightarrow> bool" where
  "alloc_page s t \<longleftrightarrow> (\<exists>k < unat (next_free_page s). t = pg s k)"

definition pages_ok :: "'a ptmem_scheme \<Rightarrow> bool" where
  "pages_ok s \<longleftrightarrow> unat (first_free_page s) + 4096 * unat (free_pages s) \<le> 2 ^ 64 \<and>
     take_bit 12 (first_free_page s) = 0 \<and> next_free_page s \<le> free_pages s"

lemma pg_unat:
  assumes "pages_ok s" "k < unat (free_pages s)" "d < 4096"
  shows "unat (pg s k + d) = unat (first_free_page s) + 4096 * k + unat d"
proof -
  have d: "unat d < 4096" using assms(3) by (simp add: word_less_nat_alt)
  have f: "unat (first_free_page s) + 4096 * unat (free_pages s) \<le> 2 ^ 64" using assms(1) by (simp add: pages_ok_def)
  have "4096 * k + 4096 \<le> 4096 * unat (free_pages s)" using assms(2) by simp
  then have b: "unat (first_free_page s) + 4096 * k + unat d < 2 ^ 64" using d f by linarith
  then have "k < 2 ^ 64" by linarith
  then have k: "unat (of_nat k :: u64) = k" by (simp add: unsigned_of_nat take_bit_nat_eq_self)
  have p: "unat RISCV_PGSIZE = 4096" by (simp add: RISCV_PGSIZE_def)
  have "unat RISCV_PGSIZE * unat (of_nat k :: u64) < 2 ^ LENGTH(64)" using b unfolding k p by simp
  then have "unat (RISCV_PGSIZE * of_nat k) = unat RISCV_PGSIZE * unat (of_nat k :: u64)" by (rule unat_mult_lem [THEN iffD1])
  then have 1: "unat (RISCV_PGSIZE * of_nat k) = 4096 * k" unfolding k p .
  have 2: "unat (pg s k) = unat (first_free_page s) + 4096 * k"
    unfolding pg_def using b 1 by (subst unat_add_lem [THEN iffD1]) simp_all
  show ?thesis using b 2 by (subst unat_add_lem [THEN iffD1]) simp_all
qed

lemma pg_disjoint:
  assumes "pages_ok s" "j < unat (free_pages s)" "k < unat (free_pages s)" "d < 4096" "e < 4096"
    and "pg s j + d = pg s k + e"
  shows "j = k" "d = e"
proof -
  have "unat d < 4096" "unat e < 4096" using assms(4,5) by (simp_all add: word_less_nat_alt)
  moreover have "4096 * j + unat d = 4096 * k + unat e"
    using pg_unat [OF assms(1,2,4)] pg_unat [OF assms(1,3,5)] assms(6) by simp
  ultimately show "j = k" by (metis div_mult_self4 div_less add.right_neutral zero_neq_numeral)
  with assms(6) show "d = e" by simp
qed

lemma slot_offset: "i < 512 \<Longrightarrow> 8 * (i :: u64) < 4096" "i < 512 \<Longrightarrow> unat (8 * i) = 8 * unat i"
proof -
  assume "i < 512"
  then have i: "unat i < 512" by (simp add: word_less_nat_alt)
  have "unat (8 :: u64) * unat i < 2 ^ LENGTH(64)" using i by simp
  then show u: "unat (8 * i) = 8 * unat i" unfolding unat_mult_lem by simp
  show "8 * i < 4096" using i u by (simp add: word_less_nat_alt)
qed

lemma slot_inj: "i < 512 \<Longrightarrow> j < 512 \<Longrightarrow> 8 * (i :: u64) = 8 * j \<Longrightarrow> i = j"
  using slot_offset(2) by (metis mult_left_cancel unsigned_word_eqI zero_neq_numeral)

lemma pg_aligned:
  assumes "pages_ok s"
  shows "take_bit 12 (pg s k) = 0"
proof -
  have "2 ^ 12 dvd first_free_page s" using assms by (simp add: pages_ok_def take_bit_eq_0_iff)
  moreover have "2 ^ 12 dvd RISCV_PGSIZE * of_nat k" by (simp add: RISCV_PGSIZE_def)
  ultimately show ?thesis by (simp add: pg_def take_bit_eq_0_iff)
qed

lemma pages_ok_next: "pages_ok s \<Longrightarrow> unat (next_free_page s) \<le> unat (free_pages s)"
  by (simp add: pages_ok_def word_le_nat_alt)

lemma alloc_slots_differ:
  assumes "pages_ok s" "alloc_page s t" "alloc_page s u" "i < 512" "j < 512" "t + 8 * i = u + 8 * j"
  shows "t = u" "i = j"
proof -
  from assms(2,3) obtain k l where k: "k < unat (next_free_page s)" "t = pg s k"
    and l: "l < unat (next_free_page s)" "u = pg s l" by (auto simp: alloc_page_def)
  then have "k < unat (free_pages s)" "l < unat (free_pages s)" using pages_ok_next [OF assms(1)] by auto
  from pg_disjoint [OF assms(1) this slot_offset(1) [OF assms(4)] slot_offset(1) [OF assms(5)]] k l assms(6)
  have "k = l" "8 * i = 8 * j" by auto
  then show "t = u" "i = j" using k l slot_inj assms(4,5) by auto
qed

text \<open>
  The tables are well formed when every table is an allocated page and no table is reached in two ways.
\<close>

definition path_ok :: "u64 list \<Rightarrow> bool" where
  "path_ok p \<longleftrightarrow> length p \<le> 2 \<and> (\<forall>i \<in> set p. i < 512)"

definition pt_wf :: "'a ptmem_scheme \<Rightarrow> bool" where
  "pt_wf s \<longleftrightarrow> pages_ok s \<and>
     (\<forall>p t. path_ok p \<longrightarrow> tbl (pt_words s) (root_page_table s) p = Some t \<longrightarrow> alloc_page s t) \<and>
     (\<forall>p q t. path_ok p \<longrightarrow> path_ok q \<longrightarrow> tbl (pt_words s) (root_page_table s) p = Some t \<longrightarrow>
        tbl (pt_words s) (root_page_table s) q = Some t \<longrightarrow> p = q)"

lemma pt_wf_alloc:
  "pt_wf s \<Longrightarrow> path_ok p \<Longrightarrow> tbl (pt_words s) (root_page_table s) p = Some t \<Longrightarrow> alloc_page s t"
  by (simp add: pt_wf_def)

lemma pt_wf_inj:
  "pt_wf s \<Longrightarrow> path_ok p \<Longrightarrow> path_ok q \<Longrightarrow> tbl (pt_words s) (root_page_table s) p = Some t \<Longrightarrow>
     tbl (pt_words s) (root_page_table s) q = Some t \<Longrightarrow> p = q"
  unfolding pt_wf_def by blast

lemma pt_wf_pages: "pt_wf s \<Longrightarrow> pages_ok s"
  by (simp add: pt_wf_def)

lemma path_ok_snoc: "path_ok (p @ [i]) \<Longrightarrow> path_ok p \<and> i < 512"
  by (simp add: path_ok_def)

text \<open>The table of the last level for an address, its page number, and the entry for it.\<close>

definition leaf_path :: "u64 \<Rightarrow> u64 list" where
  "leaf_path a = [pt_idx a 2, pt_idx a 1]"

definition vpn :: "u64 \<Rightarrow> u64" where
  "vpn a = take_bit 27 (drop_bit 12 a)"

definition pte_of :: "'a ptmem_scheme \<Rightarrow> u64 \<Rightarrow> u64" where
  "pte_of s a = (case walk a s of None \<Rightarrow> 0 | Some p \<Rightarrow> pt_words s p)"

lemma leaf_path_ok: "path_ok (leaf_path a)"
  by (simp add: path_ok_def leaf_path_def pt_idx_less)

lemma walk_tbl:
  "walk a s = map_option (\<lambda>t. t + 8 * pt_idx a 0) (tbl (pt_words s) (root_page_table s) (leaf_path a))"
  by (simp add: walk_def descend_tbl leaf_path_def split: option.split)

lemma vpn_split: "vpn a = push_bit 18 (pt_idx a 2) OR push_bit 9 (pt_idx a 1) OR pt_idx a 0"
  by (rule bit_word_eqI) (auto simp: vpn_def pt_idx_eq bit_simps less_diff_conv2 not_less add.commute
      intro: ccontr)

lemma pt_idx_vpn:
  "pt_idx a 0 = take_bit 9 (vpn a)" "pt_idx a 1 = take_bit 9 (drop_bit 9 (vpn a))"
  "pt_idx a 2 = take_bit 9 (drop_bit 18 (vpn a))"
  by (rule bit_word_eqI, auto simp: vpn_def pt_idx_eq bit_simps)+

lemma vpn_eq_iff: "vpn a = vpn b \<longleftrightarrow> leaf_path a = leaf_path b \<and> pt_idx a 0 = pt_idx b 0"
  using vpn_split [of a] vpn_split [of b] pt_idx_vpn [of a] pt_idx_vpn [of b]
  by (auto simp: leaf_path_def)

subsubsection \<open>Writing an entry of the last level\<close>

lemma tbl_frame:
  assumes "\<And>q t'. length q < length p \<Longrightarrow> take (length q) p = q \<Longrightarrow> tbl m t q = Some t' \<Longrightarrow>
      m' (t' + 8 * p ! length q) = m (t' + 8 * p ! length q)"
  shows "tbl m' t p = tbl m t p"
  using assms
proof (induction p arbitrary: t)
  case (Cons i p)
  have c: "child m' t i = child m t i" using Cons.prems [of "[]" t] by (simp add: child_def)
  show ?case
  proof (cases "child m t i")
    case None
    then show ?thesis using c by simp
  next
    case (Some u)
    have "tbl m' u p = tbl m u p"
    proof (rule Cons.IH)
      fix q t' assume "length q < length p" "take (length q) p = q" "tbl m u q = Some t'"
      then show "m' (t' + 8 * p ! length q) = m (t' + 8 * p ! length q)"
        using Cons.prems [of "i # q" t'] Some by simp
    qed
    then show ?thesis using c Some by simp
  qed
qed simp

lemma leaf_write:
  assumes wf: "pt_wf s" and t: "tbl (pt_words s) (root_page_table s) (leaf_path a) = Some t" and i: "i < 512"
    and p: "path_ok p"
  shows "tbl ((pt_words s)(t + 8 * i := x)) (root_page_table s) p = tbl (pt_words s) (root_page_table s) p"
proof (rule tbl_frame)
  fix q u assume q: "length q < length p" "take (length q) p = q" "tbl (pt_words s) (root_page_table s) q = Some u"
  have qp: "path_ok q" using p q(1,2) by (metis path_ok_def in_set_takeD le_trans less_imp_le)
  have "p ! length q < 512" using p q(1) by (simp add: path_ok_def)
  moreover have "alloc_page s u" "alloc_page s t" using pt_wf_alloc [OF wf] qp q(3) leaf_path_ok t by blast+
  moreover have "u \<noteq> t"
    using pt_wf_inj [OF wf qp leaf_path_ok [of a]] q t p by (auto simp: leaf_path_def path_ok_def)
  ultimately have "u + 8 * p ! length q \<noteq> t + 8 * i"
    using alloc_slots_differ(1) [OF pt_wf_pages [OF wf]] i by blast
  then show "((pt_words s)(t + 8 * i := x)) (u + 8 * p ! length q) = pt_words s (u + 8 * p ! length q)" by simp
qed

lemma pt_wf_cong:
  assumes "pt_wf s" "pages_ok s'" "\<And>t. alloc_page s t \<Longrightarrow> alloc_page s' t" "root_page_table s' = root_page_table s"
    and "\<And>p. path_ok p \<Longrightarrow> tbl (pt_words s') (root_page_table s) p = tbl (pt_words s) (root_page_table s) p"
  shows "pt_wf s'"
  using assms unfolding pt_wf_def by (metis (no_types))

lemma set_pte_frame [simp]:
  "root_page_table (set_pte p x s) = root_page_table s" "first_free_page (set_pte p x s) = first_free_page s"
  "next_free_page (set_pte p x s) = next_free_page s" "free_pages (set_pte p x s) = free_pages s"
  "ptmem.more (set_pte p x s) = ptmem.more s" "pt_words (set_pte p x s) = (pt_words s)(p := x)"
  "pages_ok (set_pte p x s) = pages_ok s" "alloc_page (set_pte p x s) = alloc_page s"
  by (simp_all add: set_pte_def pages_ok_def alloc_page_def pg_def fun_eq_iff)

theorem set_pte_correct:
  assumes "pt_wf s" "walk a s = Some p"
  shows "pt_wf (set_pte p x s)" "walk b (set_pte p x s) = walk b s"
    "pte_of (set_pte p x s) b = (if vpn b = vpn a then x else pte_of s b)"
proof -
  obtain t where t: "tbl (pt_words s) (root_page_table s) (leaf_path a) = Some t" "p = t + 8 * pt_idx a 0"
    using assms(2) by (auto simp: walk_tbl)
  note w = leaf_write [OF assms(1) t(1) pt_idx_less [of a 0]]
  show "pt_wf (set_pte p x s)"
    using assms(1) pt_wf_pages [OF assms(1)] w t(2) by (intro pt_wf_cong [OF assms(1)]) auto
  show wb: "walk b (set_pte p x s) = walk b s"
    using w [OF leaf_path_ok [of b]] t(2) by (simp add: walk_tbl)
  show "pte_of (set_pte p x s) b = (if vpn b = vpn a then x else pte_of s b)"
  proof (cases "tbl (pt_words s) (root_page_table s) (leaf_path b)")
    case None
    then show ?thesis using wb t(1) by (auto simp: pte_of_def walk_tbl vpn_eq_iff)
  next
    case (Some u)
    have al: "alloc_page s t" "alloc_page s u" using pt_wf_alloc [OF assms(1) leaf_path_ok] t(1) Some by blast+
    have "u + 8 * pt_idx b 0 = t + 8 * pt_idx a 0 \<longleftrightarrow> vpn b = vpn a"
      using alloc_slots_differ [OF pt_wf_pages [OF assms(1)] al(2,1) pt_idx_less pt_idx_less, of b 0 a 0]
        pt_wf_inj [OF assms(1) leaf_path_ok [of b] leaf_path_ok [of a]] t(1) Some by (auto simp: vpn_eq_iff)
    then show ?thesis using wb Some t(2) by (auto simp: pte_of_def walk_tbl)
  qed
qed

subsubsection \<open>Creating a level\<close>

lemma page_alloc_ok:
  assumes "pages_ok s" "page_alloc s = Inr (c, s')"
  shows "pages_ok s'" "c = pg s (unat (next_free_page s))" "unat (next_free_page s) < unat (free_pages s)"
    "unat (next_free_page s') = Suc (unat (next_free_page s))" "alloc_page s' c"
    "\<And>t. alloc_page s t \<Longrightarrow> alloc_page s' t" "pt_words s' = zero_page c (pt_words s)"
    "root_page_table s' = root_page_table s" "free_pages s' = free_pages s"
    "first_free_page s' = first_free_page s" "ptmem.more s' = ptmem.more s"
proof -
  from assms(2) have ne: "next_free_page s \<noteq> free_pages s"
    and s': "s' = s\<lparr>next_free_page := next_free_page s + 1, pt_words := zero_page c (pt_words s)\<rparr>"
    and c: "c = first_free_page s + RISCV_PGSIZE * next_free_page s"
    by (auto simp: page_alloc_def Let_def split: if_splits)
  show "c = pg s (unat (next_free_page s))" by (simp add: c pg_def)
  have "unat (next_free_page s) \<noteq> unat (free_pages s)" using ne by (auto dest: unsigned_word_eqI)
  with pages_ok_next [OF assms(1)] show lt: "unat (next_free_page s) < unat (free_pages s)" by simp
  moreover have "unat (free_pages s) < 2 ^ 64" using unsigned_less [where w = "free_pages s" and ?'a = nat] by simp
  ultimately have "unat (next_free_page s) + unat (1 :: u64) < 2 ^ LENGTH(64)" by simp
  then have "unat (next_free_page s + 1) = unat (next_free_page s) + unat (1 :: u64)" by (rule unat_add_lem [THEN iffD1])
  then have n: "unat (next_free_page s + 1) = Suc (unat (next_free_page s))" by simp
  then show n': "unat (next_free_page s') = Suc (unat (next_free_page s))" by (simp add: s')
  show "pages_ok s'" using assms(1) lt n by (simp add: s' pages_ok_def word_le_nat_alt)
  show "\<And>t. alloc_page s t \<Longrightarrow> alloc_page s' t" using n by (auto simp: s' alloc_page_def pg_def less_Suc_eq)
  show "alloc_page s' c" unfolding alloc_page_def n' by (rule exI [of _ "unat (next_free_page s)"]) (simp add: pg_def c s')
qed (use assms in \<open>auto simp: page_alloc_def Let_def split: if_splits\<close>)

lemma zero_page_slot:
  assumes "pages_ok s" "page_alloc s = Inr (c, s')" "i < 512"
  shows "zero_page c m (c + 8 * i) = 0" "alloc_page s t \<Longrightarrow> zero_page c m (t + 8 * i) = m (t + 8 * i)"
    "alloc_page s t \<Longrightarrow> j < 512 \<Longrightarrow> c + 8 * i \<noteq> t + 8 * j"
proof -
  note a = page_alloc_ok [OF assms(1,2)]
  show "zero_page c m (c + 8 * i) = 0" using slot_offset(1) [OF assms(3)] by (simp add: zero_page_def RISCV_PGSIZE_def)
  assume "alloc_page s t"
  then obtain k where k: "k < unat (next_free_page s)" "t = pg s k" by (auto simp: alloc_page_def)
  have ne: "t + 8 * j \<noteq> c + d" if "j < 512" "d < 4096" for j d
    using pg_disjoint(1) [OF assms(1) _ a(3) slot_offset(1) [OF that(1)] that(2), of k] k a(2,3) by auto
  show "zero_page c m (t + 8 * i) = m (t + 8 * i)"
    using ne [OF assms(3), of "t + 8 * i - c"] by (auto simp: zero_page_def RISCV_PGSIZE_def)
  show "j < 512 \<Longrightarrow> c + 8 * i \<noteq> t + 8 * j" using ne [of j "8 * i"] slot_offset(1) [OF assms(3)] by auto
qed

text \<open>
  \<open>grown s p i c\<close> is the state after the page \<open>c\<close> has been entered as table \<open>i\<close> below the table at \<open>p\<close>.
\<close>

lemma tbl_grow:
  assumes wf: "pt_wf s" and al: "page_alloc s = Inr (c, s')" and p: "path_ok (p @ [i])"
    and t: "tbl (pt_words s) (root_page_table s) p = Some t" and n: "child (pt_words s) t i = None"
    and q: "path_ok q"
  shows "tbl ((pt_words s')(t + 8 * i := ptd_create (ppn c))) (root_page_table s) q =
     (if q = p @ [i] then Some c
      else if take (length p + 1) q = p @ [i] then None
      else tbl (pt_words s) (root_page_table s) q)"
proof -
  define m where "m = pt_words s"
  define m' where "m' = (pt_words s')(t + 8 * i := ptd_create (ppn c))"
  define r where "r = root_page_table s"
  note a = page_alloc_ok [OF pt_wf_pages [OF wf] al]
  note z = zero_page_slot [OF pt_wf_pages [OF wf] al]
  have i: "path_ok p" "i < 512" using path_ok_snoc p by auto
  have at: "alloc_page s t" using pt_wf_alloc [OF wf i(1) t] .
  have c0: "child m' c j = None" if "j < 512" for j
    using z(1,3) that i(2) at by (simp add: child_def a(7) m'_def)
  have ci: "child m' t i = Some c"
    using child_create [of c] pg_aligned [OF pt_wf_pages [OF wf]] a(2) by (simp add: child_def m'_def)
  have cu: "child m' u j = child m u j" if "alloc_page s u" "j < 512" "u + 8 * j \<noteq> t + 8 * i" for u j
    using z(2) [OF that(2,1)] that(3) by (simp add: child_def a(7) m'_def m_def)
  have step: "tbl m r (q @ [j]) = Option.bind (tbl m r q) (\<lambda>u. child m u j)" for m q j
    by (simp add: tbl_append bind_split)
  have "path_ok q \<Longrightarrow> tbl m' r q =
     (if q = p @ [i] then Some c else if take (length p + 1) q = p @ [i] then None else tbl m r q)"
  proof (induction q rule: rev_induct)
    case (snoc j q)
    have q: "path_ok q" "j < 512" using path_ok_snoc snoc.prems by auto
    note IH = snoc.IH [OF q(1)]
    consider "take (length p + 1) q = p @ [i]" | "q = p" "j = i"
      | "take (length p + 1) q \<noteq> p @ [i]" "q \<noteq> p \<or> j \<noteq> i" by blast
    then show ?case
    proof cases
      case 1
      then have "length p + 1 \<le> length q" by (metis length_append_singleton length_take min.cobounded1 Suc_eq_plus1)
      then show ?thesis using 1 IH c0 [OF q(2)] unfolding step by (cases "q = p @ [i]") auto
    next
      case 2
      then show ?thesis using IH ci t unfolding step by (simp add: m_def r_def)
    next
      case 3
      then have ne: "q @ [j] \<noteq> p @ [i]" "take (length p + 1) (q @ [j]) \<noteq> p @ [i]" "q \<noteq> p @ [i]"
        by (auto simp: take_Cons' dest: arg_cong [where f = length])
      have "child m' u j = child m u j" if u: "tbl m r q = Some u" for u
      proof -
        have tu: "tbl (pt_words s) (root_page_table s) q = Some u" using u by (simp add: m_def r_def)
        have au: "alloc_page s u" by (rule pt_wf_alloc [OF wf q(1) tu])
        have "u + 8 * j \<noteq> t + 8 * i"
        proof
          assume "u + 8 * j = t + 8 * i"
          from alloc_slots_differ [OF pt_wf_pages [OF wf] au at q(2) i(2) this] have "u = t" "j = i" .
          with pt_wf_inj [OF wf q(1) i(1) tu] t 3(2) show False by blast
        qed
        then show ?thesis by (rule cu [OF au q(2)])
      qed
      then show ?thesis using 3(1) ne IH unfolding step by (auto split: Option.bind_split)
    qed
  qed simp
  then show ?thesis using q unfolding m_def m'_def r_def by blast
qed

lemma tbl_prefix_None: "tbl m r (take n q) = None \<Longrightarrow> tbl m r q = None"
  using tbl_append [of m r "take n q" "drop n q"] by simp

lemma grow_correct:
  assumes wf: "pt_wf s" and al: "page_alloc s = Inr (c, s')" and p: "path_ok (p @ [i])"
    and t: "tbl (pt_words s) (root_page_table s) p = Some t" and n: "child (pt_words s) t i = None"
  defines "s1 \<equiv> set_pte (t + 8 * i) (ptd_create (ppn c)) s'"
  shows "pt_wf s1" "pte_of s1 b = pte_of s b"
    "tbl (pt_words s1) (root_page_table s1) (p @ [i]) = Some c"
proof -
  note a = page_alloc_ok [OF pt_wf_pages [OF wf] al]
  note z = zero_page_slot [OF pt_wf_pages [OF wf] al]
  note g = tbl_grow [OF wf al p t n]
  have r1: "root_page_table s1 = root_page_table s" by (simp add: s1_def a)
  have w1: "pt_words s1 = (pt_words s')(t + 8 * i := ptd_create (ppn c))" by (simp add: s1_def)
  have i: "path_ok p" "i < 512" using path_ok_snoc p by auto
  have at: "alloc_page s t" using pt_wf_alloc [OF wf i(1) t] .
  have fresh: "u \<noteq> c" if "alloc_page s u" for u using z(3) [of 0 u 0] that by auto
  show "tbl (pt_words s1) (root_page_table s1) (p @ [i]) = Some c" using g [OF p] by (simp add: r1 w1)
  show "pt_wf s1"
    unfolding pt_wf_def r1 w1
  proof (intro conjI allI impI)
    show "pages_ok s1" using a(1) by (simp add: s1_def)
  next
    fix q u assume "path_ok q" "tbl ((pt_words s')(t + 8 * i := ptd_create (ppn c))) (root_page_table s) q = Some u"
    with g [of q] pt_wf_alloc [OF wf, of q u] a(5,6) show "alloc_page s1 u"
      by (auto simp: s1_def split: if_splits)
  next
    fix q q' u assume q: "path_ok q" "path_ok q'"
      "tbl ((pt_words s')(t + 8 * i := ptd_create (ppn c))) (root_page_table s) q = Some u"
      "tbl ((pt_words s')(t + 8 * i := ptd_create (ppn c))) (root_page_table s) q' = Some u"
    with g [of q] g [of q'] pt_wf_alloc [OF wf] pt_wf_inj [OF wf q(1,2)] fresh show "q = q'"
      by (metis option.distinct(1) option.inject)
  qed
  have L: "length (leaf_path b) = 2" by (simp add: leaf_path_def)
  have e0: "tbl (pt_words s) (root_page_table s) (p @ [i]) = None" using t n by (simp add: tbl_append)
  consider "leaf_path b = p @ [i]" | "leaf_path b \<noteq> p @ [i]" "take (length p + 1) (leaf_path b) = p @ [i]"
    | "leaf_path b \<noteq> p @ [i]" "take (length p + 1) (leaf_path b) \<noteq> p @ [i]" by blast
  then show "pte_of s1 b = pte_of s b"
  proof cases
    case 1
    then show ?thesis
      using g [OF leaf_path_ok [of b]] e0 z(1,3) [OF pt_idx_less [of b 0]] at i(2)
      by (simp add: pte_of_def walk_tbl r1 w1 a(7))
  next
    case 2
    then show ?thesis
      using g [OF leaf_path_ok [of b]] tbl_prefix_None [of _ _ "length p + 1" "leaf_path b"] e0
      by (simp add: pte_of_def walk_tbl r1 w1)
  next
    case 3
    have "u + 8 * pt_idx b 0 \<noteq> t + 8 * i" "alloc_page s u"
      if u: "tbl (pt_words s) (root_page_table s) (leaf_path b) = Some u" for u
    proof -
      show au: "alloc_page s u" by (rule pt_wf_alloc [OF wf leaf_path_ok u])
      have "p \<noteq> leaf_path b" using p L by (auto simp: path_ok_def)
      then show "u + 8 * pt_idx b 0 \<noteq> t + 8 * i"
        using alloc_slots_differ(1) [OF pt_wf_pages [OF wf] au at pt_idx_less i(2)] pt_wf_inj [OF wf i(1) leaf_path_ok t] u
        by blast
    qed
    then show ?thesis
      using 3 g [OF leaf_path_ok [of b]] z(2) [OF pt_idx_less [of b 0]]
      by (auto simp: pte_of_def walk_tbl r1 w1 a(7) split: option.split)
  qed
qed

text \<open>A page that is allocated for another purpose does not disturb the tables.\<close>

lemma page_alloc_wf:
  assumes wf: "pt_wf s" and al: "page_alloc s = Inr (c, s')"
  shows "pt_wf s'" "pte_of s' b = pte_of s b" "walk b s' = walk b s"
proof -
  note a = page_alloc_ok [OF pt_wf_pages [OF wf] al]
  note z = zero_page_slot(2) [OF pt_wf_pages [OF wf] al]
  have t: "tbl (pt_words s') (root_page_table s) p = tbl (pt_words s) (root_page_table s) p" if p: "path_ok p" for p
  proof (rule tbl_frame)
    fix q u assume q: "length q < length p" "take (length q) p = q" "tbl (pt_words s) (root_page_table s) q = Some u"
    have "path_ok q" using p q(1,2) by (metis path_ok_def in_set_takeD le_trans less_imp_le)
    then have "alloc_page s u" using pt_wf_alloc [OF wf] q(3) by blast
    moreover have "p ! length q < 512" using p q(1) by (simp add: path_ok_def)
    ultimately show "pt_words s' (u + 8 * p ! length q) = pt_words s (u + 8 * p ! length q)"
      using z by (simp add: a(7))
  qed
  show "pt_wf s'" using t a(1,6,8) by (intro pt_wf_cong [OF wf]) auto
  show w: "walk b s' = walk b s" using t [OF leaf_path_ok [of b]] a(8) by (simp add: walk_tbl)
  show "pte_of s' b = pte_of s b"
  proof (cases "tbl (pt_words s) (root_page_table s) (leaf_path b)")
    case None
    then show ?thesis using w by (simp add: pte_of_def walk_tbl)
  next
    case (Some u)
    then have "alloc_page s u" using pt_wf_alloc [OF wf leaf_path_ok] by blast
    then show ?thesis using w Some z [OF pt_idx_less [of b 0]] by (simp add: pte_of_def walk_tbl a(7))
  qed
qed

text \<open>
  What \<^verbatim>\<open>__walk_create\<close> promises: the entries are unchanged, and the address returned is that of the
  entry for \<open>a\<close>. \<open>same_rest\<close> says that nothing but the tables and the number of pages given out differs.
\<close>

definition same_rest :: "'a ptmem_scheme \<Rightarrow> 'a ptmem_scheme \<Rightarrow> bool" where
  "same_rest s s' \<longleftrightarrow> root_page_table s' = root_page_table s \<and> first_free_page s' = first_free_page s \<and>
     free_pages s' = free_pages s \<and> ptmem.more s' = ptmem.more s"

definition walk_ok :: "u64 \<Rightarrow> 'a ptmem_scheme \<Rightarrow> u64 \<Rightarrow> 'a ptmem_scheme \<Rightarrow> bool" where
  "walk_ok a s p s' \<longleftrightarrow> pt_wf s' \<and> walk a s' = Some p \<and> (\<forall>b. pte_of s' b = pte_of s b) \<and> same_rest s s' \<and>
     next_free_page s \<le> next_free_page s' \<and> (\<forall>t. alloc_page s t \<longrightarrow> alloc_page s' t)"

lemma descend_Inl:
  assumes "descend (pt_words s) a 2 (root_page_table s) = Inl x"
  obtains p i t where "p @ [i] = take (Suc (length p)) (leaf_path a)" "path_ok (p @ [i])" "length p < 2"
    "tbl (pt_words s) (root_page_table s) p = Some t" "child (pt_words s) t i = None" "x = t + 8 * i"
proof (cases "child (pt_words s) (root_page_table s) (pt_idx a 2)")
  case None
  then show ?thesis
    using assms that [of "[]" "pt_idx a 2" "root_page_table s"]
    by (simp add: descend_tbl leaf_path_def path_ok_def pt_idx_less)
next
  case (Some c)
  then show ?thesis
    using assms that [of "[pt_idx a 2]" "pt_idx a 1" c]
    by (simp add: descend_tbl leaf_path_def path_ok_def pt_idx_less split: option.splits)
qed

lemma walk_create_spec:
  assumes "pt_wf s" "walk_create a s = Inr (p, s')"
  shows "walk_ok a s p s'"
  using assms
proof (induction a s rule: walk_create.induct)
  case (1 a s)
  show ?case
  proof (cases "descend (pt_words s) a 2 (root_page_table s)")
    case (Inr q)
    then have "p = q" "s' = s" using 1(3) by (simp_all add: walk_create.simps)
    then show ?thesis using 1(2) Inr by (simp add: walk_ok_def walk_def same_rest_def)
  next
    case (Inl x)
    then obtain q i t where q: "path_ok (q @ [i])" "tbl (pt_words s) (root_page_table s) q = Some t"
        "child (pt_words s) t i = None" "x = t + 8 * i" by (rule descend_Inl)
    obtain c s2 where c: "page_alloc s = Inr (c, s2)"
      using 1(3) Inl by (auto simp: walk_create.simps split: sum.splits)
    note a = page_alloc_ok [OF pt_wf_pages [OF 1(2)] c]
    note g = grow_correct [OF 1(2) c q(1-3)]
    have "walk_create a (set_pte x (ptd_create (ppn c)) s2) = Inr (p, s')"
      using 1(3) Inl c by (simp add: walk_create.simps [of a s])
    then have "walk_ok a (set_pte x (ptd_create (ppn c)) s2) p s'"
      using 1(1) [OF Inl c refl] g(1) q(4) by simp
    then show ?thesis
      using g(2) q(4) a(4,6,8-11) by (auto simp: walk_ok_def same_rest_def word_le_nat_alt)
  qed
qed

text \<open>It does not run out of pages when two are left: the walk starts again at most twice.\<close>

lemma walk_create_total:
  assumes "pt_wf s" "unat (next_free_page s) + n \<le> unat (free_pages s)"
    and "case tbl (pt_words s) (root_page_table s) [pt_idx a 2] of None \<Rightarrow> n = 2 | Some _ \<Rightarrow> n = 1"
  shows "\<exists>p s'. walk_create a s = Inr (p, s') \<and> unat (next_free_page s') \<le> unat (next_free_page s) + n"
  using assms
proof (induction n arbitrary: s)
  case (Suc n)
  show ?case
  proof (cases "descend (pt_words s) a 2 (root_page_table s)")
    case (Inr q)
    then show ?thesis by (simp add: walk_create.simps)
  next
    case (Inl x)
    then obtain q i t where q: "q @ [i] = take (Suc (length q)) (leaf_path a)" "path_ok (q @ [i])" "length q < 2"
        "tbl (pt_words s) (root_page_table s) q = Some t" "child (pt_words s) t i = None" "x = t + 8 * i"
      by (rule descend_Inl)
    have "next_free_page s \<noteq> free_pages s" using Suc.prems(2) by auto
    then obtain c s2 where c: "page_alloc s = Inr (c, s2)" by (auto simp: page_alloc_def Let_def)
    let ?s = "set_pte x (ptd_create (ppn c)) s2"
    note a = page_alloc_ok [OF pt_wf_pages [OF Suc.prems(1)] c]
    note g = grow_correct [OF Suc.prems(1) c q(2,4,5), folded q(6)]
    have w: "walk_create a s = walk_create a ?s" using Inl c by (simp add: walk_create.simps [of a s])
    consider "q = []" "i = pt_idx a 2" | "q = [pt_idx a 2]" "i = pt_idx a 1"
      using q(1,3) by (cases q) (auto simp: leaf_path_def)
    then show ?thesis
    proof cases
      case 1
      then have "n = 1" using Suc.prems(3) q(4,5) by simp
      moreover have t: "tbl (pt_words ?s) (root_page_table ?s) [pt_idx a 2] = Some c" using g(3) unfolding 1 append_Nil .
      ultimately have "case tbl (pt_words ?s) (root_page_table ?s) [pt_idx a 2] of None \<Rightarrow> n = 2 | Some _ \<Rightarrow> n = 1"
        unfolding t by simp
      moreover have "unat (next_free_page ?s) + n \<le> unat (free_pages ?s)" using Suc.prems(2) a(4,9) by simp
      ultimately have "\<exists>p s'. walk_create a ?s = Inr (p, s') \<and> unat (next_free_page s') \<le> unat (next_free_page ?s) + n"
        using g(1) by (intro Suc.IH)
      then show ?thesis using w a(4) by auto
    next
      case 2
      have "descend (pt_words ?s) a 2 (root_page_table ?s) = Inr (c + 8 * pt_idx a 0)"
        using g(3) 2 by (auto simp: descend_tbl split: option.splits Option.bind_splits)
      then show ?thesis using w a(4) Suc.prems(3) by (auto simp: walk_create.simps [of a ?s])
    qed
  qed
qed (auto split: option.splits)

subsection \<open>The interface of the page tables\<close>

text \<open>
  What the rest of the memory manager relies on: the tables are a function from addresses to entries that
  depends on the page number \<open>key\<close> only, \<open>slot\<close> finds where the entry for an address is kept, \<open>create\<close>
  makes room for it without changing any entry, and \<open>put\<close> changes exactly one entry.
\<close>

locale pte_map =
  fixes inv :: "'s \<Rightarrow> bool" and key :: "'a \<Rightarrow> 'k" and get :: "'s \<Rightarrow> 'a \<Rightarrow> 'v::zero"
    and slot :: "'a \<Rightarrow> 's \<Rightarrow> 'p option" and create :: "'a \<Rightarrow> 's \<Rightarrow> 'e + 'p \<times> 's" and put :: "'p \<Rightarrow> 'v \<Rightarrow> 's \<Rightarrow> 's"
  assumes finite_keys: "finite (range key)"
    and get_key: "key a = key b \<Longrightarrow> get s a = get s b"
    and slot_None: "slot a s = None \<Longrightarrow> get s a = 0"
    and put_inv: "inv s \<Longrightarrow> slot a s = Some p \<Longrightarrow> inv (put p x s)"
    and put_slot: "inv s \<Longrightarrow> slot a s = Some p \<Longrightarrow> slot b (put p x s) = slot b s"
    and put_get: "inv s \<Longrightarrow> slot a s = Some p \<Longrightarrow> get (put p x s) b = (if key b = key a then x else get s b)"
    and create_inv: "inv s \<Longrightarrow> create a s = Inr (p, s') \<Longrightarrow> inv s'"
    and create_slot: "inv s \<Longrightarrow> create a s = Inr (p, s') \<Longrightarrow> slot a s' = Some p"
    and create_get: "inv s \<Longrightarrow> create a s = Inr (p, s') \<Longrightarrow> get s' b = get s b"
begin

text \<open>The number of pages whose entry is \<open>v\<close>.\<close>

definition occ :: "'s \<Rightarrow> 'v \<Rightarrow> nat" where
  "occ s v = card {key a | a. get s a = v}"

lemma create_put:
  assumes "inv s" "create a s = Inr (p, s')"
  shows "inv (put p x s')" "get (put p x s') b = (if key b = key a then x else get s b)"
    "slot a (put p x s') = Some p"
  using assms put_inv put_get put_slot create_inv create_slot create_get by metis+

lemma occ_cong: "(\<And>b. get s' b = get s b) \<Longrightarrow> occ s' v = occ s v"
  by (simp add: occ_def)

lemma occ_pos_iff: "occ s v > 0 \<longleftrightarrow> (\<exists>a. get s a = v)"
proof -
  have "finite {key a | a. get s a = v}" by (rule finite_subset [OF _ finite_keys]) auto
  then show ?thesis by (auto simp: occ_def card_gt_0_iff)
qed

lemma occ_update:
  assumes "\<And>b. get s' b = (if key b = key a then x else get s b)"
  shows "occ s' v + of_bool (get s a = v) = occ s v + of_bool (x = v)"
proof -
  let ?O = "{key b | b. get s b = v \<and> key b \<noteq> key a}"
  have fin: "finite ?O" by (rule finite_subset [OF _ finite_keys]) auto
  have "{key b | b. get s' b = v} = (if x = v then insert (key a) ?O else ?O)"
    using assms by auto
  then have 1: "occ s' v = card ?O + of_bool (x = v)"
    using fin by (simp add: occ_def)
  have "key b \<noteq> key a" if "get s b = v" "get s a \<noteq> v" for b using that get_key by metis
  then have "{key b | b. get s b = v} = (if get s a = v then insert (key a) ?O else ?O)" by auto
  then have "occ s v = card ?O + of_bool (get s a = v)"
    using fin by (simp add: occ_def)
  with 1 show ?thesis by simp
qed

end

lemma pte_of_vpn: "vpn a = vpn b \<Longrightarrow> pte_of s a = pte_of s b"
  by (simp add: vpn_eq_iff pte_of_def walk_tbl split: option.split)

lemma pte_of_None: "walk a s = None \<Longrightarrow> pte_of s a = 0"
  by (simp add: pte_of_def)

interpretation pt: pte_map pt_wf vpn pte_of walk walk_create set_pte
proof unfold_locales
  show "finite (range vpn)" by (rule finite_subset [OF subset_UNIV finite])
qed (auto dest: set_pte_correct walk_create_spec pte_of_vpn pte_of_None simp: set_pte_correct walk_ok_def)

text \<open>
  C5 (refinement): with two free pages left, \<^verbatim>\<open>__walk_create\<close> returns the address of an entry such that a
  write through it changes the entry of exactly one page of the address space and keeps the tables well
  formed, whatever levels had to be created on the way.
\<close>

theorem walk_create_refines:
  assumes "pt_wf s" "unat (next_free_page s) + 2 \<le> unat (free_pages s)"
  shows "\<exists>p s'. walk_create a s = Inr (p, s') \<and> pt_wf (set_pte p x s') \<and>
    (\<forall>b. pte_of (set_pte p x s') b = (if vpn b = vpn a then x else pte_of s b))"
proof -
  obtain n :: nat where n: "case tbl (pt_words s) (root_page_table s) [pt_idx a 2] of None \<Rightarrow> n = 2 | Some _ \<Rightarrow> n = 1"
    "n \<le> 2" by (cases "tbl (pt_words s) (root_page_table s) [pt_idx a 2]") auto
  then obtain p s' where w: "walk_create a s = Inr (p, s')"
    using walk_create_total [OF assms(1) _ n(1)] assms(2) by fastforce
  then show ?thesis using pt.create_put [OF assms(1) w] by blast
qed

text \<open>An empty root table in the first of eight pages.\<close>

definition pt_demo :: ptmem where
  "pt_demo = \<lparr>pt_words = (\<lambda>_. 0), root_page_table = 0x80000000, first_free_page = 0x80000000,
     next_free_page = 1, free_pages = 8\<rparr>"

lemma pt_empty_wf:
  assumes "pages_ok s" "alloc_page s (root_page_table s)" "\<And>i. i < 512 \<Longrightarrow> pt_words s (root_page_table s + 8 * i) = 0"
  shows "pt_wf s"
proof -
  have "tbl (pt_words s) (root_page_table s) p = (if p = [] then Some (root_page_table s) else None)" if "path_ok p" for p
    using that assms(3) by (cases p) (auto simp: child_def path_ok_def)
  then show ?thesis using assms by (auto simp: pt_wf_def split: if_splits)
qed

lemma pt_demo_wf: "pt_wf pt_demo"
  by (rule pt_empty_wf) (auto simp: pt_demo_def pages_ok_def alloc_page_def pg_def)

theorem walk_create_refines_witness:
  "\<exists>p s'. walk_create 0x12345678 pt_demo = Inr (p, s') \<and> pt_wf (set_pte p 7 s') \<and>
    (\<forall>b. pte_of (set_pte p 7 s') b = (if vpn b = vpn 0x12345678 then 7 else pte_of pt_demo b))"
  using walk_create_refines [OF pt_demo_wf] by (simp add: pt_demo_def)

end
