(* ===== verification/Vm.thy ===== *)
theory Vm
  imports Page_Table
begin

text \<open>
  The memory manager of the proxy kernel (\<^verbatim>\<open>fs/mmap.c\<close>): regions (\<^verbatim>\<open>vmr_t\<close>) that a page table entry points to
  until its page is first touched, the page fault handler that fills the page, and \<^verbatim>\<open>mmap\<close>, \<^verbatim>\<open>munmap\<close>, \<^verbatim>\<open>brk\<close>
  and \<^verbatim>\<open>mprotect\<close>. The 64-bit words of the tables are in \<^verbatim>\<open>Page_Table\<close>; the region descriptors are a list
  that lies in one page from \<open>vmr_base\<close> on, 40 bytes each, and the pages of the program are bytes by
  physical address. The tables, the descriptors and the program's pages never overlap: the first two are
  distinct pages of the allocator, the last lie above its area. The kernel runs on one hart, so that its
  locks are free when they are taken; the TLB is flushed after every change and is left out.
\<close>

subsection \<open>State\<close>

record vmr =
  v_addr :: u64
  v_length :: u64
  v_file :: "nat option"
  v_offset :: u64
  v_refcnt :: u32
  v_prot :: u32

record 'w vm = ptmem +
  vmr_base :: u64
  vmrs :: "vmr list"
  cur_brk_min :: u64
  cur_brk :: u64
  cur_brk_max :: u64
  cur_mmap_max :: u64
  cur_stack_top :: u64
  first_free_paddr :: u64
  mem_size :: u64
  have_vm :: bool
  ram :: "u64 \<Rightarrow> u8"
  fs :: "'w fstate"

type_synonym ('w, 'a) vexec = "('w vm, kexit, 'a) comp"

definition SIZEOF_VMR :: u64 where "SIZEOF_VMR = 40"
definition MAX_VMR :: nat where "MAX_VMR = 102"

definition vwild :: "('w, 'a) vexec" where
  "vwild s = Inl Wild_Access"

definition kassert :: "bool \<Rightarrow> string \<Rightarrow> ('w, unit) vexec" where
  "kassert b msg s = (if b then Inr ((), s) else Inl (Panic msg))"

text \<open>A call of the file layer.\<close>

definition on_fs :: "('w, 'a) kexec \<Rightarrow> ('w, 'a) vexec" where
  "on_fs m s = (case m (fs s) of Inl e \<Rightarrow> Inl e | Inr (r, f) \<Rightarrow> Inr (r, s\<lparr>fs := f\<rparr>))"

subsection \<open>Regions\<close>

definition vmr_ptr :: "'w vm \<Rightarrow> nat \<Rightarrow> u64" where
  "vmr_ptr s i = vmr_base s + SIZEOF_VMR * of_nat i"

text \<open>The descriptor that a pointer refers to.\<close>

definition vmr_index :: "'w vm \<Rightarrow> u64 \<Rightarrow> nat option" where
  "vmr_index s p = find (\<lambda>i. vmr_ptr s i = p) [0..<MAX_VMR]"

definition upd_vmr :: "nat \<Rightarrow> (vmr \<Rightarrow> vmr) \<Rightarrow> 'w vm \<Rightarrow> 'w vm" where
  "upd_vmr i f s = s\<lparr>vmrs := (vmrs s)[i := f (vmrs s ! i)]\<rparr>"

definition zero_vmr :: vmr where
  "zero_vmr = \<lparr>v_addr = 0, v_length = 0, v_file = None, v_offset = 0, v_refcnt = 0, v_prot = 0\<rparr>"

text \<open>The page for the descriptors is allocated on the first call; a page of zeroes is an empty table.\<close>

definition vmr_table :: "('w, unit) vexec" where
  "vmr_table =
     ebind (gets vmr_base) (\<lambda>b.
       if b \<noteq> 0 then ret ()
       else ebind page_alloc (\<lambda>a. modify (\<lambda>s. s\<lparr>vmr_base := a, vmrs := replicate MAX_VMR zero_vmr\<rparr>)))"

definition vmr_alloc ::
  "u64 \<Rightarrow> u64 \<Rightarrow> nat option \<Rightarrow> u64 \<Rightarrow> u32 \<Rightarrow> u32 \<Rightarrow> ('w, nat option) vexec" where
  "vmr_alloc addr len f off rc prot =
     ebind vmr_table (\<lambda>_.
     ebind (gets (\<lambda>s. find (\<lambda>i. v_refcnt (vmrs s ! i) = 0) [0..<MAX_VMR])) (\<lambda>r.
       case r of
         None \<Rightarrow> ret None
       | Some i \<Rightarrow>
           ebind (case f of None \<Rightarrow> ret () | Some x \<Rightarrow> on_fs (file_incref x)) (\<lambda>_.
           ebind (modify (upd_vmr i (\<lambda>_. \<lparr>v_addr = addr, v_length = len, v_file = f, v_offset = off,
             v_refcnt = rc, v_prot = prot\<rparr>))) (\<lambda>_. ret (Some i)))))"

definition vmr_decref :: "'w fatfs \<Rightarrow> nat \<Rightarrow> u32 \<Rightarrow> ('w, unit) vexec" where
  "vmr_decref ff i dec =
     ebind (modify (upd_vmr i (\<lambda>v. v\<lparr>v_refcnt := v_refcnt v - dec\<rparr>))) (\<lambda>_.
     ebind (gets (\<lambda>s. vmrs s ! i)) (\<lambda>v.
       if v_refcnt v = 0
       then (case v_file v of None \<Rightarrow> ret () | Some x \<Rightarrow> on_fs (file_decref ff x))
       else ret ()))"

subsection \<open>Protection\<close>

definition PROT_READ :: u32 where "PROT_READ = 1"
definition PROT_WRITE :: u32 where "PROT_WRITE = 2"
definition PROT_EXEC :: u32 where "PROT_EXEC = 4"
definition MAP_PRIVATE :: u32 where "MAP_PRIVATE = 2"
definition MAP_FIXED :: u32 where "MAP_FIXED = 0x10"
definition MAP_ANONYMOUS :: u32 where "MAP_ANONYMOUS = 0x20"
definition MAP_POPULATE :: u32 where "MAP_POPULATE = 0x8000"

lemmas vm_consts = PROT_READ_def PROT_WRITE_def PROT_EXEC_def MAP_PRIVATE_def MAP_FIXED_def MAP_ANONYMOUS_def
  MAP_POPULATE_def

definition prot_to_type :: "u32 \<Rightarrow> bool \<Rightarrow> u64" where
  "prot_to_type prot user =
     (let p1 = (if prot AND PROT_READ \<noteq> 0 then PTE_R else 0);
          p2 = (if prot AND PROT_WRITE \<noteq> 0 then p1 OR PTE_W else p1);
          p3 = (if prot AND PROT_EXEC \<noteq> 0 then p2 OR PTE_X else p2);
          p4 = (if p3 = 0 then PTE_R else p3)
      in if user then p4 OR PTE_U else p4)"

definition valid_user_range :: "u64 \<Rightarrow> u64 \<Rightarrow> 'w vm \<Rightarrow> bool" where
  "valid_user_range vaddr len s = (\<not> vaddr + len < vaddr \<and> vaddr + len \<le> cur_mmap_max s)"

subsection \<open>Page faults\<close>

definition write_ram :: "u64 \<Rightarrow> u8 list \<Rightarrow> 'w vm \<Rightarrow> 'w vm" where
  "write_ram a bs s = s\<lparr>ram := (\<lambda>x. if unat (x - a) < length bs then bs ! unat (x - a) else ram s x)\<rparr>"

definition clear_ram :: "u64 \<Rightarrow> u64 \<Rightarrow> 'w vm \<Rightarrow> 'w vm" where
  "clear_ram a n s = s\<lparr>ram := (\<lambda>x. if x - a < n then 0 else ram s x)\<rparr>"

text \<open>
  The part of \<^verbatim>\<open>__handle_page_fault\<close> that fills a page. The kernel writes through the address \<open>vaddr\<close>,
  which at this point is mapped to the physical page \<open>pn\<close>.
\<close>

definition fill_page :: "'w fatfs \<Rightarrow> u64 \<Rightarrow> u64 \<Rightarrow> vmr \<Rightarrow> ('w, unit) vexec" where
  "fill_page ff vaddr pn v =
     (let pa = push_bit RISCV_PGSHIFT pn in
      case v_file v of
        Some f \<Rightarrow>
          let flen = min RISCV_PGSIZE (v_length v - (vaddr - v_addr v)) in
          ebind (on_fs (file_pread ff f flen (vaddr - v_addr v + v_offset v))) (\<lambda>(n, bs).
          ebind (modify (write_ram pa bs)) (\<lambda>_.
          ebind (kassert (n > 0) ''ret > 0'') (\<lambda>_.
            if n < 4096 then modify (clear_ram (pa + ucast n) (RISCV_PGSIZE - ucast n)) else ret ())))
      | None \<Rightarrow> modify (clear_ram pa RISCV_PGSIZE))"

definition resolve_page :: "'w fatfs \<Rightarrow> u64 \<Rightarrow> u64 \<Rightarrow> ('w, unit) vexec" where
  "resolve_page ff vaddr p =
     ebind (gets (\<lambda>s. (ppn vaddr + first_free_paddr s div RISCV_PGSIZE, vmr_index s (pt_words s p)))) (\<lambda>(pn, vi).
       case vi of
         None \<Rightarrow> vwild
       | Some i \<Rightarrow>
           ebind (gets (\<lambda>s. vmrs s ! i)) (\<lambda>v.
           ebind (modify (set_pte p (pte_create pn (prot_to_type (PROT_READ OR PROT_WRITE) False)))) (\<lambda>_.
           ebind (fill_page ff vaddr pn v) (\<lambda>_.
           ebind (vmr_decref ff i 1) (\<lambda>_.
             modify (\<lambda>s. set_pte p (pte_create pn (prot_to_type (v_prot (vmrs s ! i)) True)) s))))))"

definition handle_page_fault :: "'w fatfs \<Rightarrow> u64 \<Rightarrow> u32 \<Rightarrow> ('w, int) vexec" where
  "handle_page_fault ff addr prot =
     (let vaddr = push_bit RISCV_PGSHIFT (ppn addr) in
      ebind (gets (\<lambda>s. (walk vaddr s, valid_user_range vaddr 1 s))) (\<lambda>(w, valid).
        case w of
          None \<Rightarrow> ret (- 1)
        | Some p \<Rightarrow>
            ebind (gets (\<lambda>s. pt_words s p)) (\<lambda>x.
              if x = 0 \<or> \<not> valid then ret (- 1)
              else
                ebind (if x AND PTE_V = 0 then resolve_page ff vaddr p else ret ()) (\<lambda>_.
                ebind (gets (\<lambda>s. pt_words s p)) (\<lambda>y.
                  let perms = pte_create 0 (prot_to_type prot True)
                  in ret (if y AND perms \<noteq> perms then - 1 else 0))))))"

subsection \<open>Loops over pages\<close>

text \<open>
  \<^verbatim>\<open>for (a = addr; a < end; a += RISCV_PGSIZE)\<close>; the body may leave the loop with a result. A loop that
  would wrap around the address space is not followed further.
\<close>

function for_pages :: "u64 \<Rightarrow> u64 \<Rightarrow> (u64 \<Rightarrow> ('s, kexit, 'r option) comp) \<Rightarrow> ('s, kexit, 'r option) comp" where
  "for_pages a e f =
     (if a < e
      then ebind (f a) (\<lambda>r.
        case r of
          Some x \<Rightarrow> ret (Some x)
        | None \<Rightarrow> if a + RISCV_PGSIZE < a then (\<lambda>_. Inl Wild_Access) else for_pages (a + RISCV_PGSIZE) e f)
      else ret None)"
  by pat_completeness auto
termination
proof (relation "measure (\<lambda>(a, e, f). 2 ^ 64 - unat a)")
  fix a e :: u64 and r :: "'r option" and f :: "u64 \<Rightarrow> ('s, kexit, 'r option) comp"
  assume "\<not> a + RISCV_PGSIZE < a"
  then have "unat a \<le> unat (a + RISCV_PGSIZE)" "a + RISCV_PGSIZE \<noteq> a"
    by (simp_all add: word_less_nat_alt RISCV_PGSIZE_def)
  then have "unat a < unat (a + RISCV_PGSIZE)" by (metis le_neq_implies_less unsigned_word_eqI)
  moreover have "unat (a + RISCV_PGSIZE) < 2 ^ 64" using unsigned_less [where w = "a + RISCV_PGSIZE" and ?'a = nat] by simp
  ultimately show "((a + RISCV_PGSIZE, e, f), a, e, f) \<in> measure (\<lambda>(a, e, f). 2 ^ 64 - unat a)" by simp
qed simp

declare for_pages.simps [simp del]

subsection \<open>Mapping and unmapping\<close>

definition unmap_page :: "'w fatfs \<Rightarrow> u64 \<Rightarrow> ('w, 'r option) vexec" where
  "unmap_page ff a =
     ebind (gets (walk a)) (\<lambda>w.
       case w of
         None \<Rightarrow> ret None
       | Some p \<Rightarrow>
           ebind (gets (\<lambda>s. (pt_words s p, vmr_index s (pt_words s p)))) (\<lambda>(x, vi).
             if x = 0 then ret None
             else
               ebind
                 (if x AND PTE_V = 0 then (case vi of None \<Rightarrow> vwild | Some i \<Rightarrow> vmr_decref ff i 1) else ret ())
                 (\<lambda>_. ebind (modify (set_pte p 0)) (\<lambda>_. ret None))))"

definition do_munmap_pages :: "'w fatfs \<Rightarrow> u64 \<Rightarrow> u64 \<Rightarrow> ('w, unit) vexec" where
  "do_munmap_pages ff addr len =
     ebind (for_pages addr (addr + len) (unmap_page ff)) (\<lambda>_ :: unit option. ret ())"

definition do_munmap :: "'w fatfs \<Rightarrow> u64 \<Rightarrow> u64 \<Rightarrow> ('w, int) vexec" where
  "do_munmap ff addr len =
     ebind (gets (valid_user_range addr len)) (\<lambda>valid.
       if addr AND (RISCV_PGSIZE - 1) \<noteq> 0 \<or> \<not> valid then ret (- 22)
       else ebind (do_munmap_pages ff addr len) (\<lambda>_. ret 0))"

text \<open>
  \<^verbatim>\<open>__vm_alloc\<close>: \<open>probe\<close> is the inner loop, down from the last page of a candidate; a page in use makes the
  search go on behind it. The loops need not end when the sizes wrap around; the result is then \<open>None\<close>.
\<close>

partial_function (option) probe :: "(u64 \<Rightarrow> bool) \<Rightarrow> u64 \<Rightarrow> u64 \<Rightarrow> u64 option" where
  "probe avail first a = (if a > first \<and> avail a then probe avail first (a - RISCV_PGSIZE) else Some a)"

partial_function (option) vm_search :: "(u64 \<Rightarrow> bool) \<Rightarrow> u64 \<Rightarrow> u64 \<Rightarrow> u64 \<Rightarrow> u64 option" where
  "vm_search avail npage e a =
     (if a \<le> e
      then
        (if \<not> avail a then vm_search avail npage e (a + RISCV_PGSIZE)
         else
           Option.bind (probe avail a (a + (npage - 1) * RISCV_PGSIZE)) (\<lambda>a'.
             if a' > a then vm_search avail npage e (a' + RISCV_PGSIZE) else Some a'))
      else Some 0)"

definition vm_alloc :: "u64 \<Rightarrow> ('w, u64) vexec" where
  "vm_alloc npage s =
     (case vm_search (\<lambda>a. va_avail a s) npage (cur_mmap_max s - npage * RISCV_PGSIZE) (cur_brk s) of
        None \<Rightarrow> Inl Wild_Access
      | Some a \<Rightarrow> Inr (a, s))"

definition map_page :: "'w fatfs \<Rightarrow> nat \<Rightarrow> u64 \<Rightarrow> ('w, 'r option) vexec" where
  "map_page ff i a =
     ebind (walk_create a) (\<lambda>p.
     ebind (gets (\<lambda>s. pt_words s p)) (\<lambda>x.
     ebind (if x \<noteq> 0 then do_munmap_pages ff a RISCV_PGSIZE else ret ()) (\<lambda>_.
     ebind (modify (\<lambda>s. set_pte p (vmr_ptr s i) s)) (\<lambda>_. ret None))))"

definition populate_page :: "'w fatfs \<Rightarrow> u32 \<Rightarrow> u64 \<Rightarrow> ('w, 'r option) vexec" where
  "populate_page ff prot a =
     ebind (handle_page_fault ff a prot) (\<lambda>r.
     ebind (kassert (r = 0) ''__handle_page_fault(a, prot) == 0'') (\<lambda>_. ret None))"

text \<open>The address at which a mapping is to be placed, if there is one.\<close>

definition choose_addr :: "u64 \<Rightarrow> u64 \<Rightarrow> u64 \<Rightarrow> u32 \<Rightarrow> ('w, u64 option) vexec" where
  "choose_addr addr len npage flags =
     (if flags AND MAP_FIXED \<noteq> 0
      then ebind (gets (valid_user_range addr len)) (\<lambda>valid.
        ret (if addr AND (RISCV_PGSIZE - 1) \<noteq> 0 \<or> \<not> valid then None else Some addr))
      else ebind (vm_alloc npage) (\<lambda>a. ret (if a = 0 then None else Some a)))"

definition do_mmap_region ::
  "'w fatfs \<Rightarrow> u64 \<Rightarrow> u64 \<Rightarrow> u32 \<Rightarrow> u32 \<Rightarrow> nat option \<Rightarrow> u64 \<Rightarrow> ('w, u64) vexec" where
  "do_mmap_region ff addr0 len prot flags f off =
     (let npage = (len - 1) div RISCV_PGSIZE + 1 in
      ebind (choose_addr addr0 len npage flags) (\<lambda>ao.
        case ao of
          None \<Rightarrow> ret (- 1)
        | Some addr \<Rightarrow>
            ebind (vmr_alloc addr len f off (ucast npage) prot) (\<lambda>vo.
              case vo of
                None \<Rightarrow> ret (- 1)
              | Some i \<Rightarrow>
                  ebind (for_pages addr (addr + len) (map_page ff i)) (\<lambda>_ :: unit option.
                  ebind (gets have_vm) (\<lambda>hv.
                    if \<not> hv \<or> flags AND MAP_POPULATE \<noteq> 0
                    then ebind (for_pages addr (addr + len) (populate_page ff prot)) (\<lambda>_ :: unit option. ret addr)
                    else ret addr)))))"

definition do_mmap :: "'w fatfs \<Rightarrow> u64 \<Rightarrow> u64 \<Rightarrow> u32 \<Rightarrow> u32 \<Rightarrow> int \<Rightarrow> u64 \<Rightarrow> ('w, u64) vexec" where
  "do_mmap ff addr len prot flags fd off =
     (if flags AND MAP_PRIVATE = 0 \<or> len = 0 \<or> off AND (RISCV_PGSIZE - 1) \<noteq> 0 then ret (- 22)
      else
        ebind (if flags AND MAP_ANONYMOUS = 0 then on_fs (file_get fd) else ret None) (\<lambda>f.
          if flags AND MAP_ANONYMOUS = 0 \<and> f = None then ret (- 9)
          else
            ebind (do_mmap_region ff addr len prot flags f off) (\<lambda>a.
            ebind (modify (\<lambda>s. if a < cur_brk_max s then s\<lparr>cur_brk_max := a\<rparr> else s)) (\<lambda>_.
            ebind (case f of None \<Rightarrow> ret () | Some x \<Rightarrow> on_fs (file_decref ff x)) (\<lambda>_. ret a)))))"

definition ROUNDUP :: "u64 \<Rightarrow> u64 \<Rightarrow> u64" where
  "ROUNDUP a b = ((a - 1) div b + 1) * b"

definition do_brk :: "'w fatfs \<Rightarrow> u64 \<Rightarrow> ('w, u64) vexec" where
  "do_brk ff addr =
     ebind (gets (\<lambda>s. if addr < cur_brk_min s then cur_brk_min s
                      else if addr > cur_brk_max s then cur_brk_max s else addr)) (\<lambda>newbrk.
     ebind (modify (\<lambda>s. if cur_brk s = 0 then s\<lparr>cur_brk := ROUNDUP (cur_brk_min s) RISCV_PGSIZE\<rparr> else s)) (\<lambda>_.
     let newbrk_page = ROUNDUP newbrk RISCV_PGSIZE in
     ebind (gets cur_brk) (\<lambda>b.
     ebind
       (if b > newbrk_page then do_munmap_pages ff newbrk_page (b - newbrk_page)
        else if b < newbrk_page then
          ebind (do_mmap_region ff b (newbrk_page - b) (- 1) (MAP_FIXED OR MAP_PRIVATE OR MAP_ANONYMOUS) None 0)
            (\<lambda>r. kassert (r = b) ''__do_mmap(...) == current.brk'')
        else ret ())
       (\<lambda>_. ebind (modify (\<lambda>s. s\<lparr>cur_brk := newbrk_page\<rparr>)) (\<lambda>_. ret newbrk)))))"

definition do_mremap :: "('w, u64) vexec" where
  "do_mremap = ret (- 88)"

definition protect_page :: "u32 \<Rightarrow> u64 \<Rightarrow> ('w, int option) vexec" where
  "protect_page prot a =
     ebind (gets (walk a)) (\<lambda>w.
       case w of
         None \<Rightarrow> ret (Some (- 12))
       | Some p \<Rightarrow>
           ebind (gets (\<lambda>s. (pt_words s p, vmr_index s (pt_words s p)))) (\<lambda>(x, vi).
             if x = 0 then ret (Some (- 12))
             else if x AND PTE_V = 0 then
               (case vi of
                  None \<Rightarrow> vwild
                | Some i \<Rightarrow>
                    ebind (gets (\<lambda>s. v_prot (vmrs s ! i))) (\<lambda>vp.
                      if (vp XOR prot) AND NOT vp \<noteq> 0 then ret (Some (- 13))
                      else ebind (modify (upd_vmr i (\<lambda>v. v\<lparr>v_prot := prot\<rparr>))) (\<lambda>_. ret None)))
             else if x AND PTE_U = 0 \<or> (prot AND PROT_READ \<noteq> 0 \<and> x AND PTE_R = 0) \<or>
                 (prot AND PROT_WRITE \<noteq> 0 \<and> x AND PTE_W = 0) \<or> (prot AND PROT_EXEC \<noteq> 0 \<and> x AND PTE_X = 0)
             then ret (Some (- 13))
             else ebind (modify (set_pte p (pte_create (pte_ppn x) (prot_to_type prot True)))) (\<lambda>_. ret None)))"

definition do_mprotect :: "u64 \<Rightarrow> u64 \<Rightarrow> u32 \<Rightarrow> ('w, int) vexec" where
  "do_mprotect addr len prot =
     (if addr AND (RISCV_PGSIZE - 1) \<noteq> 0 then ret (- 22)
      else ebind (for_pages addr (addr + len) (protect_page prot)) (\<lambda>r. ret (case r of None \<Rightarrow> 0 | Some e \<Rightarrow> e)))"

subsection \<open>Start-up\<close>

text \<open>\<^verbatim>\<open>i\<close> counts the pages, \<open>a\<close> is their address.\<close>

fun map_kernel_loop :: "nat \<Rightarrow> u64 \<Rightarrow> u64 \<Rightarrow> u32 \<Rightarrow> ('w, unit) vexec" where
  "map_kernel_loop 0 a off prot = ret ()"
| "map_kernel_loop (Suc n) a off prot =
     ebind (walk_create a) (\<lambda>p.
     ebind (modify (set_pte p (pte_create (ppn (a + off)) (prot_to_type prot False)))) (\<lambda>_.
       map_kernel_loop n (a + RISCV_PGSIZE) off prot))"

definition map_kernel_range :: "u64 \<Rightarrow> u64 \<Rightarrow> u64 \<Rightarrow> u32 \<Rightarrow> ('w, unit) vexec" where
  "map_kernel_range vaddr paddr len prot =
     map_kernel_loop (unat (ROUNDUP len RISCV_PGSIZE div RISCV_PGSIZE)) vaddr (paddr - vaddr) prot"

text \<open>
  The addresses of the memory map (\<^verbatim>\<open>dev_map.h\<close>, generated) and of the SBI code (linker) are arguments.
\<close>

definition vm_init :: "u64 \<Rightarrow> u64 \<Rightarrow> u64 \<Rightarrow> u64 \<Rightarrow> u64 \<Rightarrow> u64 \<Rightarrow> ('w, unit) vexec" where
  "vm_init DRAM_BASE mem_MASK bram_BASE bram_MASK sbi_start sbi_term =
     ebind (modify (\<lambda>s. s\<lparr>free_pages := max 8 (drop_bit (RISCV_PGLEVEL_BITS - 1) (drop_bit RISCV_PGSHIFT (mem_size s)))\<rparr>)) (\<lambda>_.
     ebind (modify (\<lambda>s. s\<lparr>first_free_page := first_free_paddr s\<rparr>)) (\<lambda>_.
     ebind (modify (\<lambda>s. s\<lparr>first_free_paddr := first_free_paddr s + free_pages s * RISCV_PGSIZE\<rparr>)) (\<lambda>_.
     ebind page_alloc (\<lambda>root.
     ebind (modify (\<lambda>s. s\<lparr>root_page_table := root\<rparr>)) (\<lambda>_.
     ebind (gets first_free_paddr) (\<lambda>ffp.
     ebind (map_kernel_range DRAM_BASE DRAM_BASE (ffp - DRAM_BASE) (PROT_READ OR PROT_WRITE OR PROT_EXEC)) (\<lambda>_.
     ebind (modify (\<lambda>s. let m = min DRAM_BASE (mem_size s - (first_free_paddr s - DRAM_BASE))
                        in s\<lparr>cur_brk_max := m, cur_mmap_max := m\<rparr>)) (\<lambda>_.
     ebind (map_kernel_range (push_bit RISCV_PGSHIFT (mem_MASK + 1) - (sbi_term - sbi_start)) sbi_start
              (sbi_term - sbi_start) (PROT_READ OR PROT_EXEC)) (\<lambda>_.
       map_kernel_range bram_BASE bram_BASE (bram_MASK + 1) (PROT_READ OR PROT_WRITE OR PROT_EXEC))))))))))"

definition pk_vm_init :: "'w fatfs \<Rightarrow> ('w, u64) vexec" where
  "pk_vm_init ff =
     (let stack_size = RISCV_PGSIZE * 1024 in
      ebind (gets cur_mmap_max) (\<lambda>m.
      ebind (do_mmap_region ff (m - stack_size) stack_size (PROT_READ OR PROT_WRITE OR PROT_EXEC)
               (MAP_PRIVATE OR MAP_ANONYMOUS OR MAP_FIXED) None 0) (\<lambda>stack_bottom.
      ebind (kassert (stack_bottom \<noteq> - 1) ''stack_bottom != (uintptr_t)-1'') (\<lambda>_.
      ebind (modify (\<lambda>s. s\<lparr>cur_stack_top := stack_bottom + stack_size\<rparr>)) (\<lambda>_.
      ebind page_alloc (\<lambda>a. ret (a + RISCV_PGSIZE)))))))"

end
