(* ===== verification/Vm_Invariant.thy ===== *)
theory Vm_Invariant
  imports Vm
begin

text \<open>
  The invariant of the memory manager and that every operation of it keeps it: rules for partial correctness,
  what an entry of the page tables can be, the reference counts of the regions, and one specification per
  operation, from the elementary updates up to \<^verbatim>\<open>mmap\<close> and \<^verbatim>\<open>brk\<close>.
\<close>

subsection \<open>Partial correctness\<close>

definition ensures :: "('s \<Rightarrow> bool) \<Rightarrow> ('s, 'e, 'a) comp \<Rightarrow> ('a \<Rightarrow> 's \<Rightarrow> bool) \<Rightarrow> bool" where
  "ensures P m Q \<longleftrightarrow> (\<forall>s r s'. P s \<longrightarrow> m s = Inr (r, s') \<longrightarrow> Q r s')"

lemma ensuresI: "(\<And>s r s'. P s \<Longrightarrow> m s = Inr (r, s') \<Longrightarrow> Q r s') \<Longrightarrow> ensures P m Q"
  by (simp add: ensures_def)

lemma ensuresD: "ensures P m Q \<Longrightarrow> P s \<Longrightarrow> m s = Inr (r, s') \<Longrightarrow> Q r s'"
  by (simp add: ensures_def)

lemma ens_weaken: "ensures P m Q \<Longrightarrow> (\<And>s. P' s \<Longrightarrow> P s) \<Longrightarrow> (\<And>r s. Q r s \<Longrightarrow> Q' r s) \<Longrightarrow> ensures P' m Q'"
  unfolding ensures_def by blast

lemma ens_ret: "(\<And>s. P s \<Longrightarrow> Q x s) \<Longrightarrow> ensures P (ret x) Q"
  by (auto simp: ensures_def ret_apply)

lemma ens_bind: "ensures P m R \<Longrightarrow> (\<And>x. ensures (R x) (f x) Q) \<Longrightarrow> ensures P (ebind m f) Q"
  by (auto simp: ensures_def ebind_apply split: sum.splits)

lemma ens_gets: "(\<And>x. ensures (\<lambda>s. P s \<and> x = g s) (f x) Q) \<Longrightarrow> ensures P (ebind (gets g) f) Q"
  by (auto simp: ensures_def exec_simps)

lemma ens_modify: "(\<And>s. P s \<Longrightarrow> Q () (g s)) \<Longrightarrow> ensures P (modify g) Q"
  by (auto simp: ensures_def exec_simps)

lemma ens_if: "(b \<Longrightarrow> ensures P m Q) \<Longrightarrow> (\<not> b \<Longrightarrow> ensures P n Q) \<Longrightarrow> ensures P (if b then m else n) Q"
  by simp

lemma ens_option:
  "(x = None \<Longrightarrow> ensures P m Q) \<Longrightarrow> (\<And>y. x = Some y \<Longrightarrow> ensures P (f y) Q) \<Longrightarrow>
     ensures P (case x of None \<Rightarrow> m | Some y \<Rightarrow> f y) Q"
  by (cases x) simp_all

lemma ens_kassert: "(\<And>s. P s \<Longrightarrow> b \<Longrightarrow> Q () s) \<Longrightarrow> ensures P (kassert b msg) Q"
  by (auto simp: ensures_def kassert_def split: if_splits)

lemma ens_wild: "ensures P vwild Q"
  by (simp add: ensures_def vwild_def)

lemma ens_pages:
  fixes e :: u64 and f :: "u64 \<Rightarrow> ('s, kexit, 'r option) comp"
  assumes step: "\<And>a. a < e \<Longrightarrow> ensures (I a) (f a)
      (\<lambda>r s. case r of None \<Rightarrow> a \<le> a + RISCV_PGSIZE \<longrightarrow> I (a + RISCV_PGSIZE) s | Some x \<Rightarrow> Q (Some x) s)"
    and fin: "\<And>a s. I a s \<Longrightarrow> e \<le> a \<Longrightarrow> Q None s"
  shows "ensures (I a) (for_pages a e f) Q"
  using assms
proof (induction a e f rule: for_pages.induct)
  case (1 a e f)
  show ?case
  proof (cases "a < e")
    case True
    have "ensures (I a) (ebind (f a) (\<lambda>r. case r of Some x \<Rightarrow> ret (Some x)
        | None \<Rightarrow> if a + RISCV_PGSIZE < a then (\<lambda>_. Inl Wild_Access) else for_pages (a + RISCV_PGSIZE) e f)) Q"
    proof (rule ens_bind [OF 1(2) [OF True]], rule ens_option, rule ens_if)
      fix x :: "'r option" assume "x = None" "\<not> a + RISCV_PGSIZE < a"
      then show "ensures (\<lambda>s. case x of None \<Rightarrow> a \<le> a + RISCV_PGSIZE \<longrightarrow> I (a + RISCV_PGSIZE) s | Some x \<Rightarrow> Q (Some x) s)
          (for_pages (a + RISCV_PGSIZE) e f) Q"
        using 1(1) [OF True] 1(2,3) by (simp add: not_less)
    qed (auto simp: ensures_def ret_apply)
    then show ?thesis using True by (simp add: for_pages.simps [of a])
  next
    case False
    then show ?thesis using 1(3) by (subst for_pages.simps) (auto intro: ens_ret)
  qed
qed

subsection \<open>What each step leaves alone\<close>

lemma on_fs_frame: "on_fs m s = Inr (r, s') \<Longrightarrow> \<exists>f. s' = s\<lparr>fs := f\<rparr>"
  by (auto simp: on_fs_def split: sum.splits)

lemma clear_ram_eq: "clear_ram a n s = write_ram a (replicate (unat n) 0) s"
  by (simp add: clear_ram_def write_ram_def word_less_nat_alt fun_eq_iff)

lemma unat_page [simp]: "unat RISCV_PGSIZE = 4096"
  by (simp add: RISCV_PGSIZE_def)

lemma unat_rest: "(n :: u32) < 4096 \<Longrightarrow> unat (RISCV_PGSIZE - ucast n) = 4096 - unat n"
proof -
  assume "n < 4096"
  then have "unat n < 4096" by (simp add: word_less_nat_alt)
  then have "unat (ucast n :: u64) = unat n" by (simp add: unsigned_ucast_eq take_bit_nat_eq_self)
  then show ?thesis using \<open>unat n < 4096\<close> by (subst unat_diff_u64) (simp_all add: RISCV_PGSIZE_def)
qed

lemma fill_page_frame:
  assumes "fill_page ff vaddr pn v s = Inr (r, s')"
  shows "\<exists>m f. s' = s\<lparr>ram := m, fs := f\<rparr>"
proof (cases "v_file v")
  case None
  then have "s' = s\<lparr>ram := ram s', fs := fs s\<rparr>"
    using assms by (auto simp: fill_page_def Let_def exec_simps clear_ram_def)
  then show ?thesis by blast
next
  case (Some f)
  then obtain n bs s1 where s1: "on_fs (file_pread ff f (min RISCV_PGSIZE (v_length v - (vaddr - v_addr v)))
      (vaddr - v_addr v + v_offset v)) s = Inr ((n, bs), s1)"
    using assms by (auto simp: fill_page_def Let_def ebind_apply split: sum.splits)
  obtain g where "s1 = s\<lparr>fs := g\<rparr>" using on_fs_frame [OF s1] by blast
  then have "s' = s\<lparr>ram := ram s', fs := g\<rparr>"
    using assms Some s1 by (auto simp: fill_page_def Let_def exec_simps write_ram_def clear_ram_def kassert_def split: if_splits)
  then show ?thesis by blast
qed

lemma vmr_decref_frame:
  assumes "vmr_decref ff i n s = Inr (r, s')"
  shows "\<exists>f. s' = (upd_vmr i (\<lambda>v. v\<lparr>v_refcnt := v_refcnt v - n\<rparr>) s)\<lparr>fs := f\<rparr>"
proof -
  let ?s = "upd_vmr i (\<lambda>v. v\<lparr>v_refcnt := v_refcnt v - n\<rparr>) s"
  have "s' = ?s \<or> (\<exists>x. on_fs (file_decref ff x) ?s = Inr ((), s'))"
    using assms by (auto simp: vmr_decref_def exec_simps split: if_splits option.splits)
  then show ?thesis
  proof
    assume "s' = ?s"
    then have "s' = ?s\<lparr>fs := fs ?s\<rparr>" by simp
    then show ?thesis by blast
  qed (auto dest: on_fs_frame)
qed

subsection \<open>The invariant\<close>

text \<open>The shape of the address space and of the physical memory.\<close>

definition vm_geom :: "'w vm \<Rightarrow> bool" where
  "vm_geom s \<longleftrightarrow>
     unat (cur_mmap_max s) \<le> 2 ^ 38 \<and> 4096 dvd unat (cur_mmap_max s) \<and>
     4096 dvd unat (cur_brk s) \<and> cur_brk s \<le> cur_mmap_max s \<and>
     cur_brk_max s \<le> cur_mmap_max s \<and> cur_brk_min s \<le> cur_mmap_max s \<and>
     first_free_page s \<noteq> 0 \<and> length (vmrs s) = MAX_VMR \<and>
     (vmr_base s \<noteq> 0 \<longrightarrow> alloc_page s (vmr_base s)) \<and> 4096 dvd unat (first_free_paddr s) \<and>
     unat (first_free_page s) + 4096 * unat (free_pages s) \<le> unat (first_free_paddr s) \<and>
     unat (first_free_paddr s) + unat (cur_mmap_max s) < 2 ^ 64"

definition in_user :: "'w vm \<Rightarrow> u64 \<Rightarrow> bool" where
  "in_user s a \<longleftrightarrow> 4096 * unat (vpn a) < unat (cur_mmap_max s)"

text \<open>
  What an entry can be: empty; for a page of the program, a pointer to a region descriptor, or a mapping to
  the page's own place in the physical memory of the program; for any other page a mapping that the
  program cannot use.
\<close>

definition entry_ok :: "'w vm \<Rightarrow> u64 \<Rightarrow> u64 \<Rightarrow> bool" where
  "entry_ok s a x \<longleftrightarrow>
     (if x AND PTE_V \<noteq> 0
      then
        (if in_user s a then x AND PTE_U \<noteq> 0 \<and> pte_ppn x = vpn a + first_free_paddr s div RISCV_PGSIZE
         else x AND PTE_U = 0)
      else x = 0 \<or> (in_user s a \<and> vmr_base s \<noteq> 0 \<and> (\<exists>i < MAX_VMR. x = vmr_ptr s i)))"

text \<open>
  The reference count of a region is the number of entries that point to it plus \<open>d i\<close>, where \<open>d\<close> is zero
  except in the middle of an operation.
\<close>

definition refs_ok :: "(nat \<Rightarrow> int) \<Rightarrow> 'w vm \<Rightarrow> bool" where
  "refs_ok d s \<longleftrightarrow>
     (\<forall>i < MAX_VMR. int (unat (v_refcnt (vmrs s ! i))) =
        (if vmr_base s = 0 then 0 else int (pt.occ s (vmr_ptr s i)) + d i))"

definition vm_inv :: "(nat \<Rightarrow> int) \<Rightarrow> 'w vm \<Rightarrow> bool" where
  "vm_inv d s \<longleftrightarrow> pt_wf s \<and> vm_geom s \<and> (\<forall>a. entry_ok s a (pte_of s a)) \<and> refs_ok d s"

lemma vm_invD:
  assumes "vm_inv d s"
  shows "pt_wf s" "vm_geom s" "entry_ok s a (pte_of s a)" "refs_ok d s"
  using assms by (simp_all add: vm_inv_def)

subsubsection \<open>Pointers to descriptors\<close>

lemma vmr_ptr_unat:
  assumes "vm_inv d s" "vmr_base s \<noteq> 0" "i < MAX_VMR"
  obtains k where "unat (vmr_ptr s i) = unat (first_free_page s) + 4096 * k + 40 * i" "k < unat (free_pages s)"
    "vmr_base s = pg s k"
proof -
  from assms(1,2) obtain k where k: "k < unat (next_free_page s)" "vmr_base s = pg s k"
    by (auto simp: vm_inv_def vm_geom_def alloc_page_def)
  have p: "pages_ok s" using assms(1) by (simp add: vm_inv_def pt_wf_pages)
  have kf: "k < unat (free_pages s)" using k(1) pages_ok_next [OF p] by simp
  have "unat (of_nat i :: u64) = i" using assms(3) by (simp add: MAX_VMR_def unsigned_of_nat take_bit_nat_eq_self)
  then have "unat SIZEOF_VMR * unat (of_nat i :: u64) < 2 ^ LENGTH(64)" using assms(3) by (simp add: SIZEOF_VMR_def MAX_VMR_def)
  then have "unat (SIZEOF_VMR * of_nat i) = unat SIZEOF_VMR * unat (of_nat i :: u64)" by (rule unat_mult_lem [THEN iffD1])
  then have m: "unat (SIZEOF_VMR * of_nat i) = 40 * i"
    using \<open>unat (of_nat i :: u64) = i\<close> by (simp add: SIZEOF_VMR_def)
  then have "SIZEOF_VMR * of_nat i < (4096 :: u64)" using assms(3) by (simp add: word_less_nat_alt MAX_VMR_def)
  from pg_unat [OF p kf this] m k(2) show ?thesis using that kf by (auto simp: vmr_ptr_def)
qed

lemma vmr_ptr_inj:
  assumes "vm_inv d s" "vmr_base s \<noteq> 0" "i < MAX_VMR" "j < MAX_VMR" "vmr_ptr s i = vmr_ptr s j"
  shows "i = j"
proof -
  have p: "pages_ok s" using assms(1) by (simp add: vm_inv_def pt_wf_pages)
  obtain k where k: "unat (vmr_ptr s i) = unat (first_free_page s) + 4096 * k + 40 * i" "k < unat (free_pages s)"
    "vmr_base s = pg s k" by (rule vmr_ptr_unat [OF assms(1-3)])
  obtain l where l: "unat (vmr_ptr s j) = unat (first_free_page s) + 4096 * l + 40 * j" "l < unat (free_pages s)"
    "vmr_base s = pg s l" by (rule vmr_ptr_unat [OF assms(1,2,4)])
  have "pg s k + 0 = pg s l + 0" using k(3) l(3) by simp
  then have "k = l" using pg_disjoint(1) [where d = 0 and e = 0, OF p k(2) l(2)] by auto
  with k(1) l(1) show ?thesis unfolding assms(5) by linarith
qed

lemma vmr_ptr_invalid:
  assumes "vm_inv d s" "vmr_base s \<noteq> 0" "i < MAX_VMR"
  shows "vmr_ptr s i AND PTE_V = 0" "vmr_ptr s i \<noteq> 0"
proof -
  have g: "first_free_page s \<noteq> 0" "pages_ok s" using assms(1) by (simp_all add: vm_inv_def vm_geom_def pt_wf_pages)
  obtain k where k: "unat (vmr_ptr s i) = unat (first_free_page s) + 4096 * k + 40 * i" "k < unat (free_pages s)"
    "vmr_base s = pg s k" by (rule vmr_ptr_unat [OF assms])
  have "unat (first_free_page s) \<noteq> 0" using g(1) unsigned_eq_0_iff by blast
  then show "vmr_ptr s i \<noteq> 0" using k(1) by (metis add_is_0 unsigned_0)
  have "2 ^ 12 dvd unat (first_free_page s)" using g(2) pg_unat [OF g(2), of 0 0] k(2)
    by (metis pages_ok_def take_bit_eq_0_iff unsigned_take_bit_eq unsigned_0)
  then have "even (unat (first_free_page s))" by (meson dvd_trans dvd_power zero_less_numeral)
  then have "even (unat (vmr_ptr s i))" by (simp add: k(1))
  then have "unat (vmr_ptr s i mod 2) = 0" by (simp add: unat_mod_distrib)
  then show "vmr_ptr s i AND PTE_V = 0" unfolding PTE_V_def and_one_eq by (metis unsigned_eq_0_iff)
qed

lemma vmr_index_ptr:
  assumes "vm_inv d s" "vmr_base s \<noteq> 0" "i < MAX_VMR"
  shows "vmr_index s (vmr_ptr s i) = Some i"
proof -
  have "vmr_ptr s j \<noteq> vmr_ptr s i" if "j < i" for j
    using vmr_ptr_inj [OF assms(1,2) _ assms(3), of j] assms(3) that by auto
  then show ?thesis using assms(3) by (auto simp: vmr_index_def find_Some_iff intro!: exI [of _ i])
qed

lemma vmr_indexD: "vmr_index s x = Some i \<Longrightarrow> i < MAX_VMR \<and> x = vmr_ptr s i"
  by (auto simp: vmr_index_def find_Some_iff)

text \<open>An entry that is neither empty nor valid leads to its region, which is referenced.\<close>

lemma pending_entry:
  assumes "vm_inv d s" "pte_of s a \<noteq> 0" "pte_of s a AND PTE_V = 0"
  obtains i where "i < MAX_VMR" "pte_of s a = vmr_ptr s i" "vmr_index s (pte_of s a) = Some i" "vmr_base s \<noteq> 0"
    "in_user s a" "pt.occ s (vmr_ptr s i) > 0"
proof -
  from assms vm_invD(3) [OF assms(1), of a] obtain i where i: "i < MAX_VMR" "pte_of s a = vmr_ptr s i"
      "vmr_base s \<noteq> 0" "in_user s a"
    by (auto simp: entry_ok_def)
  have "pt.occ s (vmr_ptr s i) > 0" using i(2) by (auto simp: pt.occ_pos_iff)
  with i vmr_index_ptr [OF assms(1) i(3,1)] show ?thesis by (intro that) auto
qed

subsubsection \<open>Elementary updates\<close>

lemma walk_cong: "pt_words s' = pt_words s \<Longrightarrow> root_page_table s' = root_page_table s \<Longrightarrow> walk a s' = walk a s"
  by (simp add: walk_def)

lemma pt_frame [simp]:
  "pt_wf (s\<lparr>ram := m\<rparr>) = pt_wf s" "pt_wf (s\<lparr>fs := f\<rparr>) = pt_wf s" "pt_wf (s\<lparr>vmrs := vs\<rparr>) = pt_wf s"
  "pt_wf (s\<lparr>cur_brk := b\<rparr>) = pt_wf s" "pt_wf (s\<lparr>cur_brk_max := b\<rparr>) = pt_wf s" "pt_wf (s\<lparr>vmr_base := b\<rparr>) = pt_wf s"
  "pte_of (s\<lparr>ram := m\<rparr>) a = pte_of s a" "pte_of (s\<lparr>fs := f\<rparr>) a = pte_of s a" "pte_of (s\<lparr>vmrs := vs\<rparr>) a = pte_of s a"
  "pte_of (s\<lparr>cur_brk := b\<rparr>) a = pte_of s a" "pte_of (s\<lparr>cur_brk_max := b\<rparr>) a = pte_of s a"
  "pte_of (s\<lparr>vmr_base := b\<rparr>) a = pte_of s a"
  by (simp_all add: pt_wf_def pages_ok_def alloc_page_def pg_def pte_of_def walk_def split: sum.split)

lemma alloc_page_frame [simp]:
  "alloc_page (s\<lparr>ram := m\<rparr>) = alloc_page s" "alloc_page (s\<lparr>fs := f\<rparr>) = alloc_page s"
  "alloc_page (s\<lparr>vmrs := vs\<rparr>) = alloc_page s" "alloc_page (s\<lparr>cur_brk := b\<rparr>) = alloc_page s"
  "alloc_page (s\<lparr>cur_brk_max := b\<rparr>) = alloc_page s" "alloc_page (s\<lparr>vmr_base := b\<rparr>) = alloc_page s"
  by (simp_all add: alloc_page_def pg_def fun_eq_iff)

lemma entry_ok_cong:
  assumes "vmr_base s' = vmr_base s" "cur_mmap_max s' = cur_mmap_max s" "first_free_paddr s' = first_free_paddr s"
  shows "entry_ok s' a x = entry_ok s a x"
  using assms by (simp add: entry_ok_def in_user_def vmr_ptr_def)

lemma refs_ok_cong:
  fixes s s' :: "'w vm"
  assumes "vmr_base s' = vmr_base s" "vmrs s' = vmrs s" "\<And>a. pte_of s' a = pte_of s a"
  shows "refs_ok d s' = refs_ok d s"
  using assms by (simp add: refs_ok_def pt.occ_cong [of s' s] vmr_ptr_def)

lemma vm_inv_frame [simp]:
  "vm_inv d (s\<lparr>ram := m\<rparr>) = vm_inv d s" "vm_inv d (s\<lparr>fs := f\<rparr>) = vm_inv d s"
  using entry_ok_cong [of "s\<lparr>ram := m\<rparr>" s] entry_ok_cong [of "s\<lparr>fs := f\<rparr>" s]
    refs_ok_cong [of "s\<lparr>ram := m\<rparr>" s d] refs_ok_cong [of "s\<lparr>fs := f\<rparr>" s d]
  by (simp_all add: vm_inv_def vm_geom_def)

lemma set_pte_vm [simp]:
  "vmr_base (set_pte p x s) = vmr_base s" "vmrs (set_pte p x s) = vmrs s" "cur_brk (set_pte p x s) = cur_brk s"
  "cur_brk_min (set_pte p x s) = cur_brk_min s" "cur_brk_max (set_pte p x s) = cur_brk_max s"
  "cur_mmap_max (set_pte p x s) = cur_mmap_max s" "first_free_paddr (set_pte p x s) = first_free_paddr s"
  "ram (set_pte p x s) = ram s" "fs (set_pte p x s) = fs s" "have_vm (set_pte p x s) = have_vm s"
  "vmr_ptr (set_pte p x s) = vmr_ptr s"
  by (simp_all add: set_pte_def vmr_ptr_def fun_eq_iff)

lemma upd_vmr_vm [simp]:
  "pt_words (upd_vmr i f s) = pt_words s" "vmr_base (upd_vmr i f s) = vmr_base s" "walk a (upd_vmr i f s) = walk a s"
  "pte_of (upd_vmr i f s) a = pte_of s a" "vmr_ptr (upd_vmr i f s) = vmr_ptr s" "pt_wf (upd_vmr i f s) = pt_wf s"
  "cur_mmap_max (upd_vmr i f s) = cur_mmap_max s" "first_free_paddr (upd_vmr i f s) = first_free_paddr s"
  "vmrs (upd_vmr i f s) = (vmrs s)[i := f (vmrs s ! i)]"
  by (simp_all add: upd_vmr_def vmr_ptr_def walk_def fun_eq_iff)

lemma set_entry:
  assumes "vm_inv d s" "walk a s = Some p" "entry_ok s a x"
  shows "vm_inv (\<lambda>i. d i + of_bool (pte_of s a = vmr_ptr s i) - of_bool (x = vmr_ptr s i)) (set_pte p x s)"
proof -
  note wf = vm_invD(1) [OF assms(1)]
  note get = pt.put_get [OF wf assms(2)]
  have "vm_geom (set_pte p x s)" using vm_invD(2) [OF assms(1)] by (simp add: vm_geom_def)
  moreover have "entry_ok (set_pte p x s) b (pte_of (set_pte p x s) b)" for b
  proof -
    have "entry_ok s b x" if "vpn b = vpn a" using assms(3) that by (simp only: entry_ok_def in_user_def)
    then show ?thesis using vm_invD(3) [OF assms(1), of b] get [of x b] entry_ok_cong [of "set_pte p x s" s] by simp
  qed
  moreover have "refs_ok (\<lambda>i. d i + of_bool (pte_of s a = vmr_ptr s i) - of_bool (x = vmr_ptr s i)) (set_pte p x s)"
    unfolding refs_ok_def
  proof (intro allI impI)
    fix i assume "i < MAX_VMR"
    with vm_invD(4) [OF assms(1)] have "int (unat (v_refcnt (vmrs s ! i))) =
        (if vmr_base s = 0 then 0 else int (pt.occ s (vmr_ptr s i)) + d i)" by (simp add: refs_ok_def)
    moreover have "int (pt.occ (set_pte p x s) (vmr_ptr s i) + of_bool (pte_of s a = vmr_ptr s i)) =
        int (pt.occ s (vmr_ptr s i) + of_bool (x = vmr_ptr s i))"
      by (rule arg_cong [OF pt.occ_update [OF get [of x]]])
    then have "int (pt.occ (set_pte p x s) (vmr_ptr s i)) + of_bool (pte_of s a = vmr_ptr s i) =
        int (pt.occ s (vmr_ptr s i)) + of_bool (x = vmr_ptr s i)"
      by (simp only: of_nat_add of_nat_of_bool)
    ultimately show "int (unat (v_refcnt (vmrs (set_pte p x s) ! i))) =
        (if vmr_base (set_pte p x s) = 0 then 0
         else int (pt.occ (set_pte p x s) (vmr_ptr (set_pte p x s) i)) +
           (d i + of_bool (pte_of s a = vmr_ptr s i) - of_bool (x = vmr_ptr s i)))" by simp
  qed
  ultimately show ?thesis using pt.put_inv [OF wf assms(2)] by (simp add: vm_inv_def)
qed

lemma set_refcnt:
  assumes "vm_inv d s" "vmr_base s \<noteq> 0" "i < MAX_VMR"
  shows "vm_inv (d(i := d i + int (unat (v_refcnt (f (vmrs s ! i)))) - int (unat (v_refcnt (vmrs s ! i))))) (upd_vmr i f s)"
proof -
  have "vm_geom (upd_vmr i f s)" using vm_invD(2) [OF assms(1)] by (simp add: vm_geom_def upd_vmr_def)
  moreover have "refs_ok (d(i := d i + int (unat (v_refcnt (f (vmrs s ! i)))) - int (unat (v_refcnt (vmrs s ! i))))) (upd_vmr i f s)"
    using vm_invD(2,4) [OF assms(1)] assms(2,3)
    by (auto simp: refs_ok_def vm_geom_def nth_list_update pt.occ_cong [of "upd_vmr i f s" s])
  moreover have "entry_ok (upd_vmr i f s) a (pte_of (upd_vmr i f s) a)" for a
    using vm_invD(3) [OF assms(1), of a] entry_ok_cong [of "upd_vmr i f s" s] by simp
  ultimately show ?thesis using vm_invD(1) [OF assms(1)] by (simp add: vm_inv_def)
qed

lemma vm_inv_cong: "vm_inv d s \<Longrightarrow> (\<And>i. i < MAX_VMR \<Longrightarrow> vmr_base s \<noteq> 0 \<Longrightarrow> d i = d' i) \<Longrightarrow> vm_inv d' s"
  by (auto simp: vm_inv_def refs_ok_def)

text \<open>Dropping a reference that an entry holds.\<close>

definition drop_ref :: "vmr \<Rightarrow> vmr" where
  "drop_ref v = v\<lparr>v_refcnt := v_refcnt v - 1\<rparr>"

lemma drop_ref_inv:
  assumes "vm_inv d s" "pte_of s a = vmr_ptr s i" "vmr_base s \<noteq> 0" "i < MAX_VMR" "d i \<ge> 0"
  shows "vm_inv (d(i := d i - 1)) (upd_vmr i drop_ref s)"
proof -
  let ?c = "v_refcnt (vmrs s ! i)"
  have "pt.occ s (vmr_ptr s i) > 0" using assms(2) by (auto simp: pt.occ_pos_iff)
  moreover have "int (unat ?c) = int (pt.occ s (vmr_ptr s i)) + d i"
    using vm_invD(4) [OF assms(1)] assms(3,4) by (simp add: refs_ok_def)
  ultimately have u: "unat ?c \<noteq> 0" using assms(5) by linarith
  then have "?c \<noteq> 0" by auto
  then have "unat (?c - 1) = unat ?c - 1" by (rule unat_minus_one)
  with u have "d i + int (unat (?c - 1)) - int (unat ?c) = d i - 1" by simp
  moreover have "v_refcnt (drop_ref (vmrs s ! i)) = ?c - 1" by (simp add: drop_ref_def)
  ultimately show ?thesis using set_refcnt [OF assms(1,3,4), of drop_ref] by metis
qed

lemma vmr_decref_drop: "vmr_decref ff i 1 s = Inr (r, s') \<Longrightarrow> \<exists>f. s' = (upd_vmr i drop_ref s)\<lparr>fs := f\<rparr>"
  using vmr_decref_frame [of ff i 1 s r s'] by (simp add: drop_ref_def [abs_def])

text \<open>Replacing an entry, by what it was and what it becomes.\<close>

definition plain :: "u64 \<Rightarrow> bool" where
  "plain x \<longleftrightarrow> x = 0 \<or> x AND PTE_V \<noteq> 0"

lemma plain_not_ptr: "vm_inv d s \<Longrightarrow> vmr_base s \<noteq> 0 \<Longrightarrow> i < MAX_VMR \<Longrightarrow> plain x \<Longrightarrow> x \<noteq> vmr_ptr s i"
  using vmr_ptr_invalid [of d s i] by (auto simp: plain_def)

lemma replace_plain:
  assumes "vm_inv d s" "walk a s = Some p" "entry_ok s a x" "plain (pte_of s a)" "plain x"
  shows "vm_inv d (set_pte p x s)"
  by (rule vm_inv_cong [OF set_entry [OF assms(1-3)]]) (use plain_not_ptr [OF assms(1)] assms(4,5) in simp)

lemma replace_pending:
  assumes "vm_inv d s" "walk a s = Some p" "entry_ok s a x" "pte_of s a = vmr_ptr s i" "i < MAX_VMR" "plain x"
  shows "vm_inv (d(i := d i + 1)) (set_pte p x s)"
proof (rule vm_inv_cong [OF set_entry [OF assms(1-3)]])
  fix j assume j: "j < MAX_VMR" "vmr_base (set_pte p x s) \<noteq> 0"
  then have "vmr_ptr s i = vmr_ptr s j \<longleftrightarrow> i = j" using vmr_ptr_inj [OF assms(1)] assms(5) by auto
  moreover have "x \<noteq> vmr_ptr s j" using plain_not_ptr [OF assms(1)] j assms(6) by simp
  ultimately show "d j + of_bool (pte_of s a = vmr_ptr s j) - of_bool (x = vmr_ptr s j) = (d(i := d i + 1)) j"
    using assms(4) by simp
qed

lemma point_entry:
  assumes "vm_inv d s" "walk a s = Some p" "plain (pte_of s a)" "i < MAX_VMR" "vmr_base s \<noteq> 0" "in_user s a"
  shows "vm_inv (d(i := d i - 1)) (set_pte p (vmr_ptr s i) s)"
proof -
  have "entry_ok s a (vmr_ptr s i)" using assms(4-6) vmr_ptr_invalid [OF assms(1,5,4)] by (auto simp: entry_ok_def)
  then show ?thesis
  proof (rule vm_inv_cong [OF set_entry [OF assms(1,2)]])
    fix j assume j: "j < MAX_VMR" "vmr_base (set_pte p (vmr_ptr s i) s) \<noteq> 0"
    then have "vmr_ptr s i = vmr_ptr s j \<longleftrightarrow> i = j" using vmr_ptr_inj [OF assms(1)] assms(4) by auto
    moreover have "pte_of s a \<noteq> vmr_ptr s j" using plain_not_ptr [OF assms(1)] j assms(3) by simp
    ultimately show "d j + of_bool (pte_of s a = vmr_ptr s j) - of_bool (vmr_ptr s i = vmr_ptr s j) = (d(i := d i - 1)) j"
      by simp
  qed
qed

subsection \<open>Every operation keeps the invariant\<close>

text \<open>What no operation but \<^verbatim>\<open>brk\<close> and \<^verbatim>\<open>mmap\<close> of the calls changes.\<close>

definition same_cfg :: "'w vm \<Rightarrow> 'w vm \<Rightarrow> bool" where
  "same_cfg s s' \<longleftrightarrow> vmr_base s' = vmr_base s \<and> cur_mmap_max s' = cur_mmap_max s \<and> cur_brk s' = cur_brk s \<and>
     cur_brk_max s' = cur_brk_max s \<and> cur_brk_min s' = cur_brk_min s \<and> first_free_paddr s' = first_free_paddr s \<and>
     first_free_page s' = first_free_page s \<and> free_pages s' = free_pages s \<and> have_vm s' = have_vm s"

lemma same_cfg_refl [simp]: "same_cfg s s"
  by (simp add: same_cfg_def)

lemma same_cfg_trans [trans]: "same_cfg s t \<Longrightarrow> same_cfg t u \<Longrightarrow> same_cfg s u"
  by (simp add: same_cfg_def)

lemma pte_of_walk: "walk a s = Some p \<Longrightarrow> pt_words s p = pte_of s a"
  by (simp add: pte_of_def)

lemma walk_frame [simp]:
  "walk a (s\<lparr>fs := f\<rparr>) = walk a s" "walk a (s\<lparr>ram := m\<rparr>) = walk a s" "vmr_ptr (s\<lparr>fs := f\<rparr>) = vmr_ptr s"
  "vmr_ptr (s\<lparr>ram := m\<rparr>) = vmr_ptr s"
  by (simp_all add: walk_def vmr_ptr_def fun_eq_iff)

lemma entry_ok_0: "entry_ok s a 0"
  by (simp add: entry_ok_def)

lemma pending_cases:
  assumes "vm_inv d s"
  obtains (plain) "plain (pte_of s a)"
  | (pending) i where "i < MAX_VMR" "pte_of s a = vmr_ptr s i" "vmr_index s (pte_of s a) = Some i" "vmr_base s \<noteq> 0"
      "in_user s a" "pte_of s a \<noteq> 0" "pte_of s a AND PTE_V = 0"
proof (cases "plain (pte_of s a)")
  case False
  then have "pte_of s a \<noteq> 0" "pte_of s a AND PTE_V = 0" by (auto simp: plain_def)
  then show ?thesis by (rule pending_entry [OF assms]) (use \<open>pte_of s a \<noteq> 0\<close> \<open>pte_of s a AND PTE_V = 0\<close> pending in blast)
qed (use plain in blast)

lemma unmap_page_spec:
  assumes "vm_inv d s" "\<And>i. d i \<ge> 0" "unmap_page ff a s = Inr (r, s')"
  shows "vm_inv d s'" "same_cfg s s'" "r = None" "walk b s' = walk b s"
    "pte_of s' b = (if vpn b = vpn a then 0 else pte_of s b)"
proof -
  have "vm_inv d s' \<and> same_cfg s s' \<and> r = None \<and> (\<forall>b. walk b s' = walk b s) \<and>
    (\<forall>b. pte_of s' b = (if vpn b = vpn a then 0 else pte_of s b))"
  proof (cases "walk a s")
    case None
    then show ?thesis
      using assms(1,3) pt.slot_None [OF None] pte_of_vpn [of _ a s] by (auto simp: unmap_page_def exec_simps)
  next
    case (Some p)
    note x = pte_of_walk [OF Some]
    note put = pt.put_get [OF vm_invD(1) [OF assms(1)] Some] pt.put_slot [OF vm_invD(1) [OF assms(1)] Some]
    show ?thesis
    proof (cases "pte_of s a = 0")
      case True
      then have "pte_of s b = 0" if "vpn b = vpn a" for b using pte_of_vpn [OF that, of s] by simp
      moreover have "s' = s" "r = None" using True assms(3) Some x by (simp_all add: unmap_page_def exec_simps)
      ultimately show ?thesis using assms(1) by simp
    next
      case nz: False
      from assms(1) show ?thesis
      proof (cases rule: pending_cases [of d s a])
        case plain
        then have "s' = set_pte p 0 s" "r = None"
          using assms(3) Some x nz by (auto simp: unmap_page_def exec_simps plain_def)
        then show ?thesis
          using replace_plain [OF assms(1) Some entry_ok_0 plain] put by (simp add: plain_def same_cfg_def)
      next
        case (pending i)
        obtain s1 where s1: "vmr_decref ff i 1 s = Inr ((), s1)" "s' = set_pte p 0 s1" "r = None"
          using assms(3) Some x pending by (auto simp: unmap_page_def exec_simps split: sum.splits)
        then obtain f where f: "s1 = (upd_vmr i drop_ref s)\<lparr>fs := f\<rparr>" using vmr_decref_drop by blast
        have "vm_inv (d(i := d i - 1)) s1"
          using drop_ref_inv [OF assms(1) pending(2,4,1) assms(2)] by (simp add: f)
        from replace_pending [OF this, of a p 0 i] have "vm_inv d s'"
          using Some pending(1,2) s1(2) by (simp add: f entry_ok_0 plain_def)
        moreover have "pt_wf s1" "walk a s1 = Some p" using vm_invD(1) [OF assms(1)] Some by (simp_all add: f)
        note put1 = pt.put_get [OF this] pt.put_slot [OF this]
        moreover have "pte_of s1 b = pte_of s b" "walk b s1 = walk b s" for b by (simp_all add: f)
        moreover have "same_cfg s (set_pte p 0 s1)" by (simp add: f same_cfg_def upd_vmr_def)
        ultimately show ?thesis using s1(2,3) put1 by simp
      qed
    qed
  qed
  then show "vm_inv d s'" "same_cfg s s'" "r = None" "walk b s' = walk b s"
    "pte_of s' b = (if vpn b = vpn a then 0 else pte_of s b)" by blast+
qed

subsubsection \<open>Loops over the pages of a range\<close>

text \<open>
  \<open>in_pages addr n b\<close>: address \<open>b\<close> lies in one of the \<open>n\<close> pages from \<open>addr\<close> on. \<open>pages_of len\<close> is the number of pages
  that \<open>len\<close> bytes from the start of a page touch.
\<close>

definition in_pages :: "u64 \<Rightarrow> nat \<Rightarrow> u64 \<Rightarrow> bool" where
  "in_pages addr n b \<longleftrightarrow> unat addr \<le> 4096 * unat (vpn b) \<and> 4096 * unat (vpn b) < unat addr + 4096 * n"

definition pages_of :: "u64 \<Rightarrow> nat" where
  "pages_of len = (unat len + 4095) div 4096"

lemma vpn_unat: "unat a < 2 ^ 39 \<Longrightarrow> unat (vpn a) = unat a div 4096"
proof -
  assume "unat a < 2 ^ 39"
  then have "unat a div 4096 < 2 ^ 27" by (simp add: less_mult_imp_div_less)
  moreover have "unat (drop_bit 12 a) = unat a div 4096" by (simp add: drop_bit_eq_div unat_div_distrib)
  ultimately show ?thesis by (simp add: vpn_def unsigned_take_bit_eq take_bit_nat_eq_self)
qed

lemma vpn_page:
  assumes "unat a < 2 ^ 39" "4096 dvd unat a"
  shows "vpn b = vpn a \<longleftrightarrow> 4096 * unat (vpn b) = unat a"
proof -
  have "4096 * unat (vpn a) = unat a" using assms by (simp add: vpn_unat)
  then show ?thesis by (metis mult_left_cancel unsigned_word_eqI zero_neq_numeral)
qed

lemma in_pages_Suc:
  assumes "4096 dvd unat addr" "unat a = unat addr + 4096 * n" "unat a < 2 ^ 39"
  shows "in_pages addr (Suc n) b \<longleftrightarrow> in_pages addr n b \<or> vpn b = vpn a"
proof -
  have "4096 dvd unat a" using assms(1,2) by simp
  note v = vpn_page [OF assms(3) this, of b]
  obtain m where m: "unat addr = 4096 * m" using assms(1) by (rule dvdE)
  have "4096 * m + 4096 * k = 4096 * (m + k)" for k by simp
  then show ?thesis unfolding in_pages_def v assms(2) m by (simp only: nat_mult_less_cancel_disj nat_mult_le_cancel_disj
        nat_mult_eq_cancel_disj) auto
qed

lemma page_add: "unat (a :: u64) < 2 ^ 39 \<Longrightarrow> unat (a + RISCV_PGSIZE) = unat a + 4096"
  using unat_add_lem [of a RISCV_PGSIZE] by (simp add: RISCV_PGSIZE_def)

lemma ens_page_range:
  fixes f :: "u64 \<Rightarrow> ('s, kexit, 'r option) comp"
  assumes step: "\<And>a n. a < e \<Longrightarrow> unat a = unat addr + 4096 * n \<Longrightarrow> ensures (J n) (f a) (\<lambda>r s. r = None \<and> J (Suc n) s)"
    and e: "unat e = unat addr + unat len" "unat e \<le> 2 ^ 38"
  shows "ensures (J 0) (for_pages addr e f) (\<lambda>r s. r = None \<and> J (pages_of len) s)"
proof -
  define I :: "u64 \<Rightarrow> 's \<Rightarrow> bool" where "I a s \<longleftrightarrow> (\<exists>n. unat a = unat addr + 4096 * n \<and> unat a < unat e + 4096 \<and> J n s)" for a s
  have "ensures (I addr) (for_pages addr e f) (\<lambda>r s. r = None \<and> J (pages_of len) s)"
  proof (rule ens_pages)
    fix a assume a: "a < e"
    then have l: "unat a < unat e" by (simp add: word_less_nat_alt)
    then have p: "unat (a + RISCV_PGSIZE) = unat a + 4096" using e(2) by (intro page_add) simp
    show "ensures (I a) (f a) (\<lambda>r s. case r of None \<Rightarrow> a \<le> a + RISCV_PGSIZE \<longrightarrow> I (a + RISCV_PGSIZE) s
        | Some x \<Rightarrow> Some x = None \<and> J (pages_of len) s)"
    proof (rule ensuresI)
      fix s r s' assume "I a s" and r: "f a s = Inr (r, s')"
      then obtain n where n: "unat a = unat addr + 4096 * n" "J n s" by (auto simp: I_def)
      from ensuresD [OF step [OF a n(1)] n(2) r] have "r = None" "J (Suc n) s'" by auto
      then show "case r of None \<Rightarrow> a \<le> a + RISCV_PGSIZE \<longrightarrow> I (a + RISCV_PGSIZE) s'
          | Some x \<Rightarrow> Some x = None \<and> J (pages_of len) s'"
        using n(1) p l by (auto simp: I_def intro!: exI [of _ "Suc n"])
    qed
  next
    fix a s assume "I a s" "e \<le> a"
    then obtain n where n: "unat a = unat addr + 4096 * n" "unat a < unat e + 4096" "unat e \<le> unat a" "J n s"
      by (auto simp: I_def word_le_nat_alt)
    then have "n = pages_of len" using e(1) unfolding pages_of_def by linarith
    then show "None = None \<and> J (pages_of len) s" using n(4) by simp
  qed
  then show ?thesis
  proof (rule ens_weaken)
    fix s assume "J 0 s"
    then show "I addr s" using e(1) by (auto simp: I_def intro!: exI [of _ 0])
  qed
qed

lemma range_end:
  assumes "\<not> addr + len < addr"
  shows "unat (addr + len) = unat addr + unat (len :: u64)"
proof (rule ccontr)
  assume "\<not> ?thesis"
  then have "unat (addr + len) = unat addr + unat len - 2 ^ 64" "unat addr + unat len \<ge> 2 ^ 64"
    by (auto simp: unat_plus_if' split: if_splits)
  moreover have "unat len < 2 ^ 64" using unsigned_less [where w = len and ?'a = nat] by simp
  ultimately have "unat (addr + len) < unat addr" by linarith
  then show False using assms by (simp add: word_less_nat_alt)
qed

lemma valid_range:
  assumes "valid_user_range addr len s" "vm_inv d s"
  shows "unat (addr + len) = unat addr + unat len" "unat (addr + len) \<le> unat (cur_mmap_max s)" "unat (addr + len) \<le> 2 ^ 38"
proof -
  show 1: "unat (addr + len) = unat addr + unat len" by (rule range_end) (use assms(1) in \<open>simp add: valid_user_range_def\<close>)
  show "unat (addr + len) \<le> unat (cur_mmap_max s)" using assms(1) by (simp add: valid_user_range_def word_le_nat_alt)
  then show "unat (addr + len) \<le> 2 ^ 38" using vm_invD(2) [OF assms(2)] by (simp add: vm_geom_def)
qed

lemma aligned_dvd: "(a :: u64) AND (RISCV_PGSIZE - 1) = 0 \<longleftrightarrow> 4096 dvd unat a"
proof -
  have "a AND (RISCV_PGSIZE - 1) = take_bit 12 a"
    by (simp add: RISCV_PGSIZE_def take_bit_eq_mask mask_eq_exp_minus_1)
  moreover have "unat (take_bit 12 a) = unat a mod 4096" by (simp add: take_bit_eq_mod unat_mod_distrib)
  ultimately show ?thesis by (metis dvd_eq_mod_eq_0 unsigned_0 unsigned_word_eqI)
qed

lemma munmap_pages_spec:
  assumes "vm_inv d s" "\<And>i. d i \<ge> 0" "4096 dvd unat addr" "unat (addr + len) = unat addr + unat len"
    "unat (addr + len) \<le> 2 ^ 38" "do_munmap_pages ff addr len s = Inr (r, s')"
  shows "vm_inv d s'" "same_cfg s s'" "pte_of s' b = (if in_pages addr (pages_of len) b then 0 else pte_of s b)"
    "walk b s' = walk b s"
proof -
  define J where "J n t \<longleftrightarrow> vm_inv d t \<and> same_cfg s t \<and> (\<forall>b. walk b t = walk b s) \<and>
    (\<forall>b. pte_of t b = (if in_pages addr n b then 0 else pte_of s b))" for n t
  have "ensures (J 0) (for_pages addr (addr + len) (unmap_page ff)) (\<lambda>r s. (r :: unit option) = None \<and> J (pages_of len) s)"
  proof (rule ens_page_range [OF _ assms(4,5)], rule ensuresI)
    fix a n t t' and r :: "unit option"
    assume a: "a < addr + len" "unat a = unat addr + 4096 * n" and J: "J n t" and u: "unmap_page ff a t = Inr (r, t')"
    have a39: "unat a < 2 ^ 39" using a(1) assms(5) by (simp add: word_less_nat_alt)
    from J have t: "vm_inv d t" "same_cfg s t" by (auto simp: J_def)
    note sp = unmap_page_spec [OF t(1) assms(2) u]
    have "pte_of t' b = (if in_pages addr (Suc n) b then 0 else pte_of s b)" for b
      using sp(5) [of b] J in_pages_Suc [OF assms(3) a(2) a39, of b] by (simp add: J_def)
    then show "r = None \<and> J (Suc n) t'"
      using sp(1,3) same_cfg_trans [OF t(2) sp(2)] J sp(4) by (simp add: J_def)
  qed
  moreover obtain q where "for_pages addr (addr + len) (unmap_page ff) s = Inr (q :: unit option, s')"
    using assms(6) by (auto simp: do_munmap_pages_def exec_simps split: sum.splits)
  moreover have "J 0 s" using assms(1) by (auto simp: J_def in_pages_def)
  ultimately have "J (pages_of len) s'" by (auto dest: ensuresD)
  then show "vm_inv d s'" "same_cfg s s'" "pte_of s' b = (if in_pages addr (pages_of len) b then 0 else pte_of s b)"
    "walk b s' = walk b s" by (simp_all add: J_def)
qed

subsubsection \<open>Entries of the last level\<close>

lemma prot_to_type_less: "prot_to_type prot user < 1024"
  by (simp add: prot_to_type_def Let_def pt_consts)

lemma prot_to_type_user: "prot_to_type prot True AND PTE_U \<noteq> 0" "prot_to_type prot False AND PTE_U = 0"
  by (simp_all add: prot_to_type_def Let_def pt_consts)

lemma pte_create_V: "pte_create n t AND PTE_V \<noteq> 0"
proof -
  have "bit (pte_create n t) 0" by (simp add: pte_create_def pt_consts bit_simps)
  then show ?thesis by (auto simp: PTE_V_def and_one_eq odd_iff_mod_2_eq_one bit_0)
qed

lemma and_PTE_U: "x AND PTE_U = 0 \<longleftrightarrow> \<not> bit x 4"
proof -
  have "(16 :: u64) = 2 ^ 4" by simp
  then have "x AND PTE_U = 0 \<longleftrightarrow> \<not> bit x 4" unfolding PTE_U_def by (metis bit_iff_and_push_bit_not_eq_0 push_bit_of_1 push_bit_eq_mult mult_1)
  then show ?thesis .
qed

lemma pte_create_U: "pte_create n t AND PTE_U = 0 \<longleftrightarrow> t AND PTE_U = 0"
  unfolding and_PTE_U pte_create_def PTE_PPN_SHIFT_def PTE_V_def by (simp add: bit_simps)

lemma pte_ppn_less: "pte_ppn x < 2 ^ 54"
proof -
  have "unat (drop_bit 10 x) = unat x div 2 ^ 10" by (simp add: drop_bit_eq_div unat_div_distrib)
  moreover have "unat x < 2 ^ 64" using unsigned_less [where w = x and ?'a = nat] by simp
  ultimately show ?thesis by (simp add: pte_ppn_def pt_consts word_less_nat_alt)
qed

lemma plain_create: "plain (pte_create n t)"
  by (simp add: plain_def pte_create_V)

lemma user_entry_ok:
  assumes "in_user s a" "n = vpn a + first_free_paddr s div RISCV_PGSIZE" "n < 2 ^ 54"
  shows "entry_ok s a (pte_create n (prot_to_type prot True))"
  using assms pte_ppn_create [OF assms(3) prot_to_type_less] prot_to_type_user(1)
  by (simp add: entry_ok_def pte_create_V pte_create_U)

lemma user_ppn_less:
  assumes "vm_inv d s" "in_user s a"
  shows "vpn a + first_free_paddr s div RISCV_PGSIZE < 2 ^ 54"
proof -
  have "unat (first_free_paddr s) < 2 ^ 64" using unsigned_less [where w = "first_free_paddr s" and ?'a = nat] by simp
  then have "unat (first_free_paddr s) div 4096 < 2 ^ 52" by (simp add: less_mult_imp_div_less)
  then have f: "unat (first_free_paddr s div RISCV_PGSIZE) < 2 ^ 52" by (simp add: unat_div_distrib RISCV_PGSIZE_def)
  have "4096 * unat (vpn a) < 2 ^ 38" using assms by (auto simp: in_user_def vm_inv_def vm_geom_def)
  then have "unat (vpn a) < 2 ^ 27" by simp
  then have "unat (vpn a) + unat (first_free_paddr s div RISCV_PGSIZE) < 2 ^ 54" using f by simp
  moreover from this have "unat (vpn a + first_free_paddr s div RISCV_PGSIZE) = unat (vpn a) + unat (first_free_paddr s div RISCV_PGSIZE)"
    by (intro unat_add_lem [THEN iffD1]) simp
  ultimately show ?thesis by (simp add: word_less_nat_alt)
qed

subsubsection \<open>Page faults\<close>

lemma valid_page:
  assumes "vm_inv d s" "valid_user_range (push_bit RISCV_PGSHIFT (ppn addr)) 1 s"
  shows "in_user s (push_bit RISCV_PGSHIFT (ppn addr))"
    "ppn (push_bit RISCV_PGSHIFT (ppn addr)) = vpn (push_bit RISCV_PGSHIFT (ppn addr))"
proof -
  let ?v = "push_bit RISCV_PGSHIFT (ppn addr)"
  note r = valid_range [OF assms(2,1)]
  from r have l: "unat ?v < unat (cur_mmap_max s)" "unat ?v < 2 ^ 39" by simp_all
  then show "in_user s ?v" by (simp add: in_user_def vpn_unat)
  have "unat (drop_bit 12 ?v) = unat ?v div 4096" by (simp add: drop_bit_eq_div unat_div_distrib)
  then show "ppn ?v = vpn ?v" using vpn_unat [OF l(2)] by (metis ppn_def RISCV_PGSHIFT_def unsigned_word_eqI)
qed

lemma set_pte_set_pte: "set_pte p y (set_pte p x s) = set_pte p y s"
  by (simp add: set_pte_def)

lemma resolve_page_spec:
  assumes "vm_inv d s" "\<And>i. d i \<ge> 0" "walk a s = Some p" "in_user s a" "ppn a = vpn a"
    and x: "pte_of s a \<noteq> 0" "pte_of s a AND PTE_V = 0" and r: "resolve_page ff a p s = Inr (r, s')"
  obtains i m f where "i < MAX_VMR" "vmr_index s (pte_of s a) = Some i"
    "s' = set_pte p (pte_create (vpn a + first_free_paddr s div RISCV_PGSIZE) (prot_to_type (v_prot (vmrs s ! i)) True))
       ((upd_vmr i drop_ref s)\<lparr>ram := m, fs := f\<rparr>)"
    "vm_inv d s'"
proof -
  let ?pn = "vpn a + first_free_paddr s div RISCV_PGSIZE"
  obtain i where i: "i < MAX_VMR" "pte_of s a = vmr_ptr s i" "vmr_index s (pte_of s a) = Some i" "vmr_base s \<noteq> 0"
    by (rule pending_entry [OF assms(1) x])
  let ?s1 = "set_pte p (pte_create ?pn (prot_to_type (PROT_READ OR PROT_WRITE) False)) s"
  let ?x = "pte_create ?pn (prot_to_type (v_prot (vmrs s ! i)) True)"
  obtain s2 where s2: "fill_page ff a ?pn (vmrs s ! i) ?s1 = Inr ((), s2)"
    using r i(3) assms(5) pte_of_walk [OF assms(3)] by (auto simp: resolve_page_def exec_simps split: sum.splits)
  obtain m f where f: "s2 = ?s1\<lparr>ram := m, fs := f\<rparr>" using fill_page_frame [OF s2] by blast
  obtain s3 where s3: "vmr_decref ff i 1 s2 = Inr ((), s3)"
      "s' = set_pte p (pte_create ?pn (prot_to_type (v_prot (vmrs s3 ! i)) True)) s3"
    using r i(3) assms(5) s2 pte_of_walk [OF assms(3)] by (auto simp: resolve_page_def exec_simps split: sum.splits)
  obtain g where g: "s3 = (upd_vmr i drop_ref s2)\<lparr>fs := g\<rparr>" using vmr_decref_drop [OF s3(1)] by blast
  have len: "i < length (vmrs s)" using i(1) vm_invD(2) [OF assms(1)] by (simp add: vm_geom_def)
  have pr: "v_prot (vmrs s3 ! i) = v_prot (vmrs s ! i)" using len by (simp add: g f drop_ref_def)
  have s': "s' = set_pte p ?x ((upd_vmr i drop_ref s)\<lparr>ram := m, fs := g\<rparr>)"
    unfolding s3(2) pr by (simp add: g f set_pte_def upd_vmr_def)
  let ?t = "(upd_vmr i drop_ref s)\<lparr>ram := m, fs := g\<rparr>"
  have t: "vm_inv (d(i := d i - 1)) ?t"
    using drop_ref_inv [OF assms(1) i(2,4,1) assms(2)] by simp
  have e: "entry_ok ?t a ?x"
    using user_entry_ok [OF assms(4) refl user_ppn_less [OF assms(1,4)]] entry_ok_cong [of ?t s] by simp
  have "walk a ?t = Some p" "pte_of ?t a = vmr_ptr ?t i" using assms(3) i(2) by simp_all
  from replace_pending [OF t this(1) e this(2) i(1) plain_create]
  have "vm_inv d s'" by (simp add: s')
  then show ?thesis using that i(1,3) s' by blast
qed

lemma page_fault_spec:
  assumes "vm_inv d s" "\<And>i. d i \<ge> 0" "handle_page_fault ff addr prot s = Inr (r, s')"
  shows "vm_inv d s' \<and> same_cfg s s' \<and> (r = 0 \<longrightarrow> in_user s (push_bit RISCV_PGSHIFT (ppn addr)))"
proof -
  let ?v = "push_bit RISCV_PGSHIFT (ppn addr)"
  show ?thesis
  proof (cases "walk ?v s")
    case None
    then show ?thesis using assms by (auto simp: handle_page_fault_def Let_def exec_simps)
  next
    case (Some p)
    note x = pte_of_walk [OF Some]
    show ?thesis
    proof (cases "pte_of s ?v = 0 \<or> \<not> valid_user_range ?v 1 s")
      case True
      then show ?thesis using assms Some x by (auto simp: handle_page_fault_def Let_def exec_simps)
    next
      case ok: False
      note v = valid_page [OF assms(1), of addr]
      show ?thesis
      proof (cases "pte_of s ?v AND PTE_V = 0")
        case False
        then show ?thesis using assms Some x ok v(1) by (auto simp: handle_page_fault_def Let_def exec_simps)
      next
        case True
        then have "resolve_page ff ?v p s = Inr ((), s')"
          using assms(3) Some x ok by (auto simp: handle_page_fault_def Let_def exec_simps split: sum.splits)
        moreover have u: "in_user s ?v" "ppn ?v = vpn ?v" using v ok by auto
        ultimately obtain i m f y where "s' = set_pte p y ((upd_vmr i drop_ref s)\<lparr>ram := m, fs := f\<rparr>)" "vm_inv d s'"
          using resolve_page_spec [OF assms(1,2) Some u] ok True by metis
        then show ?thesis using u(1) by (simp add: same_cfg_def upd_vmr_def)
      qed
    qed
  qed
qed

subsubsection \<open>Protection\<close>

lemma set_prot_inv:
  assumes "vm_inv d s" "vmr_base s \<noteq> 0" "i < MAX_VMR"
  shows "vm_inv d (upd_vmr i (\<lambda>v. v\<lparr>v_prot := prot\<rparr>) s)"
  using set_refcnt [OF assms, of "\<lambda>v. v\<lparr>v_prot := prot\<rparr>"] by simp

lemma protect_page_spec:
  assumes "vm_inv d s" "protect_page prot a s = Inr (r, s')"
  shows "vm_inv d s' \<and> same_cfg s s'"
proof (cases "walk a s")
  case None
  then show ?thesis using assms by (auto simp: protect_page_def exec_simps)
next
  case (Some p)
  note x = pte_of_walk [OF Some]
  from assms(1) show ?thesis
  proof (cases rule: pending_cases [of d s a])
    case (pending i)
    have "s' = s \<or> s' = upd_vmr i (\<lambda>v. v\<lparr>v_prot := prot\<rparr>) s"
      using assms(2) Some x pending by (auto simp: protect_page_def exec_simps split: if_splits)
    then show ?thesis
      using assms(1) set_prot_inv [OF assms(1) pending(4,1)] by (auto simp: same_cfg_def upd_vmr_def)
  next
    case plain
    let ?y = "pte_create (pte_ppn (pte_of s a)) (prot_to_type prot True)"
    have "s' = s \<or> s' = set_pte p ?y s \<and> pte_of s a AND PTE_V \<noteq> 0 \<and> pte_of s a AND PTE_U \<noteq> 0"
      using assms(2) Some x plain by (auto simp: protect_page_def plain_def exec_simps split: if_splits)
    then show ?thesis
    proof
      assume s': "s' = set_pte p ?y s \<and> pte_of s a AND PTE_V \<noteq> 0 \<and> pte_of s a AND PTE_U \<noteq> 0"
      then have "in_user s a" "pte_ppn (pte_of s a) = vpn a + first_free_paddr s div RISCV_PGSIZE"
        using vm_invD(3) [OF assms(1), of a] by (auto simp: entry_ok_def split: if_splits)
      then have "entry_ok s a ?y" using user_entry_ok pte_ppn_less by metis
      then have "vm_inv d (set_pte p ?y s)" by (rule replace_plain [OF assms(1) Some _ plain plain_create])
      then show ?thesis using s' by (simp add: same_cfg_def)
    qed (use assms(1) in simp)
  qed
qed

lemma mprotect_inv: "ensures (\<lambda>s. vm_inv d s \<and> same_cfg s0 s) (do_mprotect addr len prot) (\<lambda>r s. vm_inv d s \<and> same_cfg s0 s)"
  unfolding do_mprotect_def
proof (rule ens_if; (rule ens_ret; simp)?)
  have "ensures (\<lambda>s. vm_inv d s \<and> same_cfg s0 s) (for_pages addr (addr + len) (protect_page prot)) (\<lambda>r s. vm_inv d s \<and> same_cfg s0 s)"
    by (rule ens_pages, rule ensuresI) (auto dest: protect_page_spec intro: same_cfg_trans split: option.split)
  then show "ensures (\<lambda>s. vm_inv d s \<and> same_cfg s0 s)
      (ebind (for_pages addr (addr + len) (protect_page prot)) (\<lambda>r. ret (case r of None \<Rightarrow> 0 | Some e \<Rightarrow> e)))
      (\<lambda>r s. vm_inv d s \<and> same_cfg s0 s)"
    by (rule ens_bind) (rule ens_ret)
qed

subsubsection \<open>Mapping\<close>

lemma walk_create_vm:
  fixes s :: "'w vm"
  assumes "vm_inv d s" "walk_create a s = Inr (p, s')"
  shows "vm_inv d s'" "same_cfg s s'" "walk a s' = Some p" "pte_of s' b = pte_of s b"
proof -
  note w = walk_create_spec [OF vm_invD(1) [OF assms(1)] assms(2)]
  have m: "ptmem.more s' = ptmem.more s" "first_free_page s' = first_free_page s" "free_pages s' = free_pages s"
    using w by (simp_all add: walk_ok_def same_rest_def)
  have f: "vmr_base s' = vmr_base s" "vmrs s' = vmrs s" "cur_mmap_max s' = cur_mmap_max s" "cur_brk s' = cur_brk s"
    "cur_brk_max s' = cur_brk_max s" "cur_brk_min s' = cur_brk_min s" "first_free_paddr s' = first_free_paddr s"
    "have_vm s' = have_vm s"
    using m(1) by (cases s; cases s'; simp)+
  show cfg: "same_cfg s s'" using f m by (simp add: same_cfg_def)
  show g: "pte_of s' b = pte_of s b" for b using w by (simp add: walk_ok_def)
  show "walk a s' = Some p" using w by (simp add: walk_ok_def)
  have "vm_geom s'"
    using vm_invD(2) [OF assms(1)] f m w unfolding vm_geom_def walk_ok_def by simp
  moreover have "entry_ok s' b (pte_of s' b)" for b
    using vm_invD(3) [OF assms(1), of b] entry_ok_cong [OF f(1,3,7)] g by simp
  moreover have "refs_ok d s'" using vm_invD(4) [OF assms(1)] refs_ok_cong [OF f(1,2) g] by simp
  ultimately show "vm_inv d s'" using w by (simp add: vm_inv_def walk_ok_def)
qed

lemma map_page_spec:
  assumes "vm_inv d s" "\<And>i. d i \<ge> 0" "vmr_base s \<noteq> 0" "i < MAX_VMR" "in_user s a" "4096 dvd unat a" "unat a < 2 ^ 38"
    "map_page ff i a s = Inr (r, s')"
  shows "r = None" "vm_inv (d(i := d i - 1)) s'" "same_cfg s s'"
    "pte_of s' b = (if vpn b = vpn a then vmr_ptr s i else pte_of s b)"
proof -
  obtain p s1 where s1: "walk_create a s = Inr (p, s1)"
    using assms(8) by (auto simp: map_page_def ebind_apply split: sum.splits)
  note w = walk_create_vm [OF assms(1) s1]
  obtain s2 where s2: "(if pte_of s1 a \<noteq> 0 then do_munmap_pages ff a RISCV_PGSIZE else ret ()) s1 = Inr ((), s2)"
      "s' = set_pte p (vmr_ptr s2 i) s2" "r = None"
    using assms(8) s1 pte_of_walk [OF w(3)] by (auto simp: map_page_def exec_simps split: sum.splits if_splits)
  have e: "unat (a + RISCV_PGSIZE) = unat a + unat RISCV_PGSIZE" "unat (a + RISCV_PGSIZE) \<le> 2 ^ 38"
    using page_add [of a] assms(6,7) by (auto simp: RISCV_PGSIZE_def elim!: dvdE)
  have 1: "vm_inv d s2 \<and> same_cfg s1 s2 \<and> walk a s2 = Some p \<and> (\<forall>b. pte_of s2 b = (if vpn b = vpn a then 0 else pte_of s1 b))"
  proof (cases "pte_of s1 a = 0")
    case True
    then have "pte_of s1 b = 0" if "vpn b = vpn a" for b using pte_of_vpn [OF that, of s1] by simp
    then show ?thesis using True s2(1) w(1,3) by (simp add: ret_apply)
  next
    case False
    then have "do_munmap_pages ff a RISCV_PGSIZE s1 = Inr ((), s2)" using s2(1) by simp
    note m = munmap_pages_spec [OF w(1) assms(2,6) e this]
    have "in_pages a (pages_of RISCV_PGSIZE) b \<longleftrightarrow> vpn b = vpn a" for b
      using in_pages_Suc [of a a 0 b] assms(6,7) by (auto simp: pages_of_def RISCV_PGSIZE_def in_pages_def)
    then show ?thesis using m w(3) by simp
  qed
  then have cfg: "same_cfg s s2" using w(2) same_cfg_trans by blast
  then have ptr: "vmr_ptr s2 = vmr_ptr s" by (simp add: same_cfg_def vmr_ptr_def fun_eq_iff)
  have "vm_inv (d(i := d i - 1)) (set_pte p (vmr_ptr s2 i) s2)"
    using 1 assms(3-5) cfg by (intro point_entry) (simp_all add: plain_def same_cfg_def in_user_def)
  then show "vm_inv (d(i := d i - 1)) s'" by (simp add: s2(2))
  show "same_cfg s s'" using cfg by (simp add: s2(2) same_cfg_def)
  show "r = None" by (rule s2(3))
  have "pt_wf s2" "walk a s2 = Some p" using 1 by (auto simp: vm_inv_def)
  from pt.put_get [OF this] show "pte_of s' b = (if vpn b = vpn a then vmr_ptr s i else pte_of s b)"
    using 1 w(4) ptr by (simp add: s2(2))
qed

text \<open>The search for free address space ends, and what it finds is free.\<close>

definition free_range :: "(u64 \<Rightarrow> bool) \<Rightarrow> u64 \<Rightarrow> u64 \<Rightarrow> bool" where
  "free_range avail a b \<longleftrightarrow> (\<forall>x. a \<le> x \<and> x \<le> b \<and> 4096 dvd unat x \<longrightarrow> avail x)"

lemma page_sub:
  assumes "4096 dvd unat a" "4096 dvd unat first" "first < (a :: u64)"
  shows "unat (a - RISCV_PGSIZE) = unat a - 4096" "first \<le> a - RISCV_PGSIZE" "4096 \<le> unat a"
proof -
  have l: "unat first < unat a" using assms(3) by (simp add: word_less_nat_alt)
  with assms(1,2) have d: "unat first + 4096 \<le> unat a" by (auto elim!: dvdE)
  then show "4096 \<le> unat a" by simp
  with d show u: "unat (a - RISCV_PGSIZE) = unat a - 4096" by (simp add: unat_sub_if_size RISCV_PGSIZE_def)
  show "first \<le> a - RISCV_PGSIZE" using d u by (simp add: word_le_nat_alt)
qed

lemma probe_total:
  assumes "first \<le> a" "4096 dvd unat a" "4096 dvd unat first"
  shows "\<exists>r. probe avail first a = Some r \<and> first \<le> r \<and> r \<le> a \<and> 4096 dvd unat r \<and>
    (r = first \<longrightarrow> (\<forall>x. first < x \<and> x \<le> a \<and> 4096 dvd unat x \<longrightarrow> avail x))"
  using assms(1,2)
proof (induction "unat a" arbitrary: a rule: less_induct)
  case less
  show ?case
  proof (cases "a > first \<and> avail a")
    case True
    then have gt: "first < a" by simp
    note b = page_sub [OF less.prems(2) assms(3) gt]
    have "unat (a - RISCV_PGSIZE) < unat a" using b by simp
    moreover have "4096 dvd unat (a - RISCV_PGSIZE)" using b(1,3) less.prems(2) by (simp add: dvd_diff_nat)
    ultimately obtain r where r: "probe avail first (a - RISCV_PGSIZE) = Some r" "first \<le> r" "r \<le> a - RISCV_PGSIZE"
        "4096 dvd unat r" "r = first \<Longrightarrow> \<forall>x. first < x \<and> x \<le> a - RISCV_PGSIZE \<and> 4096 dvd unat x \<longrightarrow> avail x"
      using less.hyps [OF _ b(2)] by blast
    have "r \<le> a" using r(3) b(1) by (simp add: word_le_nat_alt)
    moreover have "x \<le> a - RISCV_PGSIZE \<or> x = a" if "x \<le> a" "4096 dvd unat x" for x
    proof (cases "x = a")
      case False
      with that have "x < a" by simp
      from page_sub(2) [OF less.prems(2) that(2) this] show ?thesis by simp
    qed simp
    ultimately show ?thesis
      using r True by (subst probe.simps) (auto 4 3)
  next
    case False
    then have "probe avail first a = Some a" by (subst probe.simps) auto
    then show ?thesis using less.prems by auto
  qed
qed

lemma last_page:
  assumes "unat a \<le> unat e" "unat e + unat npage * 4096 \<le> 2 ^ 38" "npage \<noteq> 0"
  shows "unat (a + (npage - 1) * RISCV_PGSIZE) = unat a + (unat npage - 1) * 4096"
proof -
  have n: "unat (npage - 1) = unat npage - 1" by (rule unat_minus_one [OF assms(3)])
  have "(unat npage - 1) * 4096 \<le> 2 ^ 38" using assms(2) by simp
  then have "unat (npage - 1) * unat RISCV_PGSIZE < 2 ^ LENGTH(64)" by (simp add: n RISCV_PGSIZE_def)
  then have "unat ((npage - 1) * RISCV_PGSIZE) = unat (npage - 1) * unat RISCV_PGSIZE" by (rule unat_mult_lem [THEN iffD1])
  then have m: "unat ((npage - 1) * RISCV_PGSIZE) = (unat npage - 1) * 4096" by (simp add: n RISCV_PGSIZE_def)
  have "unat a + unat ((npage - 1) * RISCV_PGSIZE) < 2 ^ LENGTH(64)" using assms(1,2) m by simp
  then have "unat (a + (npage - 1) * RISCV_PGSIZE) = unat a + unat ((npage - 1) * RISCV_PGSIZE)" by (rule unat_add_lem [THEN iffD1])
  then show ?thesis by (simp add: m)
qed

lemma vm_search_total:
  assumes e: "unat e + unat npage * 4096 \<le> 2 ^ 38" and np: "npage \<noteq> 0"
  shows "4096 dvd unat a \<Longrightarrow> unat a < 2 ^ 39 \<Longrightarrow> \<exists>r. vm_search avail npage e a = Some r \<and>
    (r = 0 \<or> a \<le> r \<and> r \<le> e \<and> 4096 dvd unat r \<and> free_range avail r (r + (npage - 1) * RISCV_PGSIZE))"
proof (induction "2 ^ 40 - unat a" arbitrary: a rule: less_induct)
  case less
  show ?case
  proof (cases "a \<le> e")
    case False
    then show ?thesis by (subst vm_search.simps) simp
  next
    case True
    then have ae: "unat a \<le> unat e" by (simp add: word_le_nat_alt)
    have step: ?thesis if b: "unat a \<le> unat b" "unat b \<le> 2 ^ 38" "4096 dvd unat b"
        and "vm_search avail npage e a = vm_search avail npage e (b + RISCV_PGSIZE)" for b
    proof -
      have u: "unat (b + RISCV_PGSIZE) = unat b + 4096" using b(2) by (intro page_add) simp
      have "2 ^ 40 - unat (b + RISCV_PGSIZE) < 2 ^ 40 - unat a" using b(1,2) u by simp
      moreover have "4096 dvd unat (b + RISCV_PGSIZE)" "unat (b + RISCV_PGSIZE) < 2 ^ 39" using b(2,3) u by simp_all
      moreover have "a \<le> x" if "b + RISCV_PGSIZE \<le> x" for x using that b(1) u by (simp add: word_le_nat_alt)
      ultimately show ?thesis using less.hyps [of "b + RISCV_PGSIZE"] that(4) by metis
    qed
    show ?thesis
    proof (cases "avail a")
      case False
      then have "vm_search avail npage e a = vm_search avail npage e (a + RISCV_PGSIZE)"
        using True by (subst vm_search.simps) simp
      then show ?thesis using step [of a] less.prems(1) ae e by simp
    next
      case av: True
      let ?l = "a + (npage - 1) * RISCV_PGSIZE"
      have l: "unat ?l = unat a + (unat npage - 1) * 4096" by (rule last_page [OF ae e np])
      have "unat npage \<noteq> 0" using np unsigned_eq_0_iff by blast
      then have l38: "unat ?l \<le> 2 ^ 38" using l ae e by (simp add: diff_mult_distrib)
      have "a \<le> ?l" "4096 dvd unat ?l" using l less.prems(1) by (simp_all add: word_le_nat_alt)
      then obtain r where r: "probe avail a ?l = Some r" "a \<le> r" "r \<le> ?l" "4096 dvd unat r"
          "r = a \<Longrightarrow> \<forall>x. a < x \<and> x \<le> ?l \<and> 4096 dvd unat x \<longrightarrow> avail x"
        using probe_total [OF _ _ less.prems(1), of ?l avail] by blast
      show ?thesis
      proof (cases "r > a")
        case gt: True
        then have "vm_search avail npage e a = vm_search avail npage e (r + RISCV_PGSIZE)"
          using True av r(1) by (subst vm_search.simps) simp
        then show ?thesis using step [of r] r(2-4) l38 by (simp add: word_le_nat_alt)
      next
        case False
        with r(2) have ra: "r = a" by simp
        then have "vm_search avail npage e a = Some a"
          using True av r(1) by (subst vm_search.simps) simp
        moreover have "free_range avail a ?l" using r(5) [OF ra] av by (auto simp: free_range_def le_less)
        ultimately show ?thesis using True less.prems(1) by auto
      qed
    qed
  qed
qed

lemma va_avail_pte: "va_avail a s \<longleftrightarrow> pte_of s a = 0"
  by (simp add: va_avail_def pte_of_def split: option.split)

lemma unat_of_nat64: "n < 2 ^ 64 \<Longrightarrow> unat (of_nat n :: u64) = n"
  by (simp add: unsigned_of_nat take_bit_nat_eq_self)

lemma vm_alloc_spec:
  assumes "vm_inv d s" "npage \<noteq> 0" "unat npage * 4096 \<le> unat (cur_mmap_max s)"
  obtains a where "vm_alloc npage s = Inr (a, s)"
    "a = 0 \<or> cur_brk s \<le> a \<and> unat a + unat npage * 4096 \<le> unat (cur_mmap_max s) \<and> 4096 dvd unat a \<and>
       (\<forall>b. in_pages a (unat npage) b \<longrightarrow> pte_of s b = 0)"
proof -
  have g: "unat (cur_mmap_max s) \<le> 2 ^ 38" "4096 dvd unat (cur_brk s)" "unat (cur_brk s) \<le> unat (cur_mmap_max s)"
    using vm_invD(2) [OF assms(1)] by (simp_all add: vm_geom_def word_le_nat_alt)
  let ?e = "cur_mmap_max s - npage * RISCV_PGSIZE"
  have "unat npage * unat RISCV_PGSIZE < 2 ^ LENGTH(64)" using assms(3) g(1) by (simp add: RISCV_PGSIZE_def)
  then have "unat (npage * RISCV_PGSIZE) = unat npage * unat RISCV_PGSIZE" by (rule unat_mult_lem [THEN iffD1])
  then have m: "unat (npage * RISCV_PGSIZE) = unat npage * 4096" by (simp add: RISCV_PGSIZE_def)
  then have e: "unat ?e = unat (cur_mmap_max s) - unat npage * 4096" using assms(3) by (simp add: unat_sub_if_size)
  then have e2: "unat ?e + unat npage * 4096 \<le> 2 ^ 38" using assms(3) g(1) by simp
  have "unat (cur_brk s) < 2 ^ 39" using g by simp
  then obtain a where a: "vm_search (\<lambda>a. va_avail a s) npage ?e (cur_brk s) = Some a"
      "a = 0 \<or> cur_brk s \<le> a \<and> a \<le> ?e \<and> 4096 dvd unat a \<and>
         free_range (\<lambda>a. va_avail a s) a (a + (npage - 1) * RISCV_PGSIZE)"
    using vm_search_total [OF e2 assms(2) g(2)] by blast
  have "pte_of s b = 0" if nz: "a \<noteq> 0" and b: "in_pages a (unat npage) b" for b
  proof -
    have ae: "unat a \<le> unat ?e" using a(2) nz by (simp add: word_le_nat_alt)
    define x :: u64 where "x = of_nat (4096 * unat (vpn b))"
    have b': "unat a \<le> 4096 * unat (vpn b)" "4096 * unat (vpn b) < unat a + 4096 * unat npage"
      using b by (simp_all add: in_pages_def)
    then have l38: "4096 * unat (vpn b) < 2 ^ 38" using ae e2 by linarith
    then have "4096 * unat (vpn b) < 2 ^ 64" by simp
    then have x: "unat x = 4096 * unat (vpn b)" unfolding x_def by (rule unat_of_nat64)
    then have x39: "unat x < 2 ^ 39" using l38 by simp
    have v: "vpn b = vpn x" using vpn_page [OF x39, of b] x by simp
    have "4096 dvd unat a" using a(2) nz by simp
    then obtain k where k: "unat a = 4096 * k" by (rule dvdE)
    then have "4096 * unat (vpn b) < 4096 * (k + unat npage)" using b'(2) by simp
    then have "unat (vpn b) < k + unat npage" by (simp only: nat_mult_less_cancel_disj)
    then have "unat (vpn b) \<le> k + (unat npage - 1)" by linarith
    then have "4096 * unat (vpn b) \<le> 4096 * (k + (unat npage - 1))" by (rule mult_le_mono2)
    then have "4096 * unat (vpn b) \<le> unat a + (unat npage - 1) * 4096" using k by (simp add: distrib_left)
    then have "a \<le> x \<and> x \<le> a + (npage - 1) * RISCV_PGSIZE \<and> 4096 dvd unat x"
      using b'(1) x last_page [OF ae e2 assms(2)] by (simp add: word_le_nat_alt)
    then have "va_avail x s" using a(2) nz by (simp add: free_range_def)
    then show ?thesis using pte_of_vpn [OF v, of s] by (simp add: va_avail_pte)
  qed
  moreover have "unat a + unat npage * 4096 \<le> unat (cur_mmap_max s)" if "a \<noteq> 0"
  proof -
    have "unat a \<le> unat ?e" using a(2) that by (simp add: word_le_nat_alt)
    then show ?thesis unfolding e using assms(3) by linarith
  qed
  ultimately show ?thesis using a by (intro that [of a]) (auto simp: vm_alloc_def)
qed

definition same_lim :: "'w vm \<Rightarrow> 'w vm \<Rightarrow> bool" where
  "same_lim s s' \<longleftrightarrow> cur_mmap_max s' = cur_mmap_max s \<and> cur_brk s' = cur_brk s \<and>
     cur_brk_max s' = cur_brk_max s \<and> cur_brk_min s' = cur_brk_min s \<and> first_free_paddr s' = first_free_paddr s \<and>
     first_free_page s' = first_free_page s \<and> free_pages s' = free_pages s \<and> have_vm s' = have_vm s"

lemma same_cfg_lim: "same_cfg s s' \<Longrightarrow> same_lim s s'"
  by (simp add: same_cfg_def same_lim_def)

lemma same_lim_refl [simp]: "same_lim s s"
  by (simp add: same_lim_def)

lemma same_lim_trans [trans]: "same_lim s t \<Longrightarrow> same_lim t u \<Longrightarrow> same_lim s u"
  by (simp add: same_lim_def)

text \<open>The table of the descriptors: with \<open>d\<close> chosen to fit, the invariant holds as soon as the rest does.\<close>

lemma vmr_table_spec:
  fixes s :: "'w vm"
  assumes "vm_inv (\<lambda>_. 0) s" "vmr_table s = Inr (r, s')"
  shows "vm_inv (\<lambda>_. 0) s'" "vmr_base s' \<noteq> 0" "same_lim s s'" "pte_of s' b = pte_of s b"
proof -
  have "vm_inv (\<lambda>_. 0) s' \<and> vmr_base s' \<noteq> 0 \<and> same_lim s s' \<and> (\<forall>b. pte_of s' b = pte_of s b)"
  proof (cases "vmr_base s = 0")
    case False
    then show ?thesis using assms by (simp add: vmr_table_def exec_simps)
  next
    case True
    then obtain c s1 where al: "page_alloc s = Inr (c, s1)"
        and s': "s' = s1\<lparr>vmr_base := c, vmrs := replicate MAX_VMR zero_vmr\<rparr>"
      using assms(2) by (auto simp: vmr_table_def exec_simps split: sum.splits)
    note wf = vm_invD(1) [OF assms(1)]
    note a = page_alloc_ok [OF pt_wf_pages [OF wf] al] and w = page_alloc_wf [OF wf al]
    have f: "cur_mmap_max s1 = cur_mmap_max s" "cur_brk s1 = cur_brk s" "cur_brk_max s1 = cur_brk_max s"
      "cur_brk_min s1 = cur_brk_min s" "first_free_paddr s1 = first_free_paddr s" "have_vm s1 = have_vm s"
      using a(11) by (cases s; cases s1; simp)+
    have "first_free_page s \<noteq> 0" using vm_invD(2) [OF assms(1)] by (simp add: vm_geom_def)
    then have "unat (first_free_page s) \<noteq> 0" using unsigned_eq_0_iff by blast
    then have "unat (pg s (unat (next_free_page s)) + 0) \<noteq> 0"
      using pg_unat [OF pt_wf_pages [OF wf] a(3), of 0] by simp
    then have c: "c \<noteq> 0" using a(2) by auto
    have pl: "plain (pte_of s b)" for b using vm_invD(3) [OF assms(1), of b] True by (auto simp: entry_ok_def plain_def)
    define d where "d i = - int (pt.occ s' (vmr_ptr s' i))" for i
    have "entry_ok s' b (pte_of s' b)" for b
      using vm_invD(3) [OF assms(1), of b] pl [of b] w(2) [of b]
      by (auto simp: s' entry_ok_def in_user_def plain_def f)
    moreover have "vm_geom s'"
      using vm_invD(2) [OF assms(1)] a(5) unfolding vm_geom_def by (simp add: s' f a(9,10))
    ultimately have inv: "vm_inv d s'"
      using w(1) unfolding vm_inv_def by (simp add: s' refs_ok_def d_def zero_vmr_def)
    have "pt.occ s' (vmr_ptr s' i) = 0" if "i < MAX_VMR" for i
      using pt.occ_pos_iff [of s' "vmr_ptr s' i"] plain_not_ptr [OF inv _ that] pl w(2) c by (fastforce simp: s')
    then have "vm_inv (\<lambda>_. 0) s'" by (intro vm_inv_cong [OF inv]) (simp add: d_def)
    then show ?thesis using c w(2) by (simp add: s' same_lim_def f a(9,10))
  qed
  then show "vm_inv (\<lambda>_. 0) s'" "vmr_base s' \<noteq> 0" "same_lim s s'" "pte_of s' b = pte_of s b" by auto
qed

lemma vmr_alloc_spec:
  assumes "vm_inv (\<lambda>_. 0) s" "vmr_alloc addr len f off rc prot s = Inr (r, s')"
  shows "same_lim s s'" "pte_of s' b = pte_of s b" "r = None \<Longrightarrow> vm_inv (\<lambda>_. 0) s'"
    "r = Some i \<Longrightarrow> i < MAX_VMR \<and> vmr_base s' \<noteq> 0 \<and> vm_inv ((\<lambda>_. 0)(i := int (unat rc))) s' \<and>
       vmrs s' ! i = \<lparr>v_addr = addr, v_length = len, v_file = f, v_offset = off, v_refcnt = rc, v_prot = prot\<rparr>"
proof -
  obtain s1 where s1: "vmr_table s = Inr ((), s1)"
    using assms(2) by (auto simp: vmr_alloc_def ebind_apply split: sum.splits)
  note t = vmr_table_spec [OF assms(1) s1]
  let ?v = "\<lparr>v_addr = addr, v_length = len, v_file = f, v_offset = off, v_refcnt = rc, v_prot = prot\<rparr>"
  have len: "length (vmrs s1) = MAX_VMR" using vm_invD(2) [OF t(1)] by (simp add: vm_geom_def)
  have "(r = None \<and> s' = s1) \<or> (\<exists>i g. r = Some i \<and> i < MAX_VMR \<and> v_refcnt (vmrs s1 ! i) = 0 \<and>
      s' = (upd_vmr i (\<lambda>_. ?v) s1)\<lparr>fs := g\<rparr>)"
  proof (cases "find (\<lambda>i. v_refcnt (vmrs s1 ! i) = 0) [0..<MAX_VMR]")
    case None
    then show ?thesis using assms(2) s1 by (simp add: vmr_alloc_def exec_simps)
  next
    case (Some i)
    then have i: "i < MAX_VMR" "v_refcnt (vmrs s1 ! i) = 0" by (auto simp: find_Some_iff)
    obtain s2 where s2: "(case f of None \<Rightarrow> ret () | Some x \<Rightarrow> on_fs (file_incref x)) s1 = Inr ((), s2)"
        "r = Some i" "s' = upd_vmr i (\<lambda>_. ?v) s2"
      using assms(2) s1 Some by (auto simp: vmr_alloc_def exec_simps split: sum.splits option.splits)
    then obtain g where "s2 = s1\<lparr>fs := g\<rparr>"
      by (cases f) (auto simp: ret_apply dest: on_fs_frame intro: that [of "fs s1"])
    then have "s' = (upd_vmr i (\<lambda>_. ?v) s1)\<lparr>fs := g\<rparr>" unfolding s2(3) by (cases s1) (simp add: upd_vmr_def)
    then show ?thesis using i s2(2) by auto
  qed
  then show "same_lim s s'" "pte_of s' b = pte_of s b" "r = None \<Longrightarrow> vm_inv (\<lambda>_. 0) s'"
    "r = Some i \<Longrightarrow> i < MAX_VMR \<and> vmr_base s' \<noteq> 0 \<and> vm_inv ((\<lambda>_. 0)(i := int (unat rc))) s' \<and> vmrs s' ! i = ?v"
    using t len set_refcnt [OF t(1,2), of i "\<lambda>_. ?v"] same_lim_trans [OF t(3)]
    by (auto simp: same_lim_def upd_vmr_def)+
qed

lemma npage_unat:
  assumes "len \<noteq> 0"
  shows "unat ((len - 1) div RISCV_PGSIZE + 1) = pages_of len"
proof -
  have l: "unat (len - 1) = unat len - 1" "unat len \<noteq> 0" using assms unat_minus_one unsigned_eq_0_iff by blast+
  have q: "unat ((len - 1) div RISCV_PGSIZE) = (unat len - 1) div 4096" by (simp add: unat_div_distrib RISCV_PGSIZE_def l(1))
  have "unat len < 2 ^ 64" using unsigned_less [where w = len and ?'a = nat] by simp
  then have "(unat len - 1) div 4096 < 2 ^ 52" by (simp add: less_mult_imp_div_less)
  then have "unat ((len - 1) div RISCV_PGSIZE) + unat (1 :: u64) < 2 ^ LENGTH(64)" by (simp add: q)
  then have "unat ((len - 1) div RISCV_PGSIZE + 1) = unat ((len - 1) div RISCV_PGSIZE) + unat (1 :: u64)"
    by (rule unat_add_lem [THEN iffD1])
  also have "\<dots> = (unat len - 1) div 4096 + 1" by (simp add: q)
  also have "\<dots> = pages_of len" using l(2) by (simp add: pages_of_def)
  finally show ?thesis .
qed

lemma pages_of_bound:
  assumes "4096 dvd m" "unat len \<le> m"
  shows "pages_of len * 4096 \<le> m"
proof -
  obtain k where k: "m = 4096 * k" using assms(1) by (rule dvdE)
  then have "unat len + 4095 < (k + 1) * 4096" using assms(2) by simp
  then have "pages_of len < k + 1" unfolding pages_of_def by (rule less_mult_imp_div_less)
  then show ?thesis using k by simp
qed

text \<open>The addresses that \<^verbatim>\<open>mmap\<close> may use, and what \<open>choose_addr\<close> returns.\<close>

definition mmap_len_ok :: "'w vm \<Rightarrow> u64 \<Rightarrow> u32 \<Rightarrow> bool" where
  "mmap_len_ok s len flags \<longleftrightarrow> len \<noteq> 0 \<and> (flags AND MAP_FIXED \<noteq> 0 \<or> len \<le> cur_mmap_max s)"

lemma choose_addr_spec:
  assumes "vm_inv d s" "mmap_len_ok s len flags"
    "choose_addr addr0 len ((len - 1) div RISCV_PGSIZE + 1) flags s = Inr (r, s')"
  shows "s' = s" "r = Some addr \<Longrightarrow> 4096 dvd unat addr \<and> unat (addr + len) = unat addr + unat len \<and>
      unat addr + unat len \<le> unat (cur_mmap_max s) \<and> (flags AND MAP_FIXED \<noteq> 0 \<longrightarrow> addr = addr0) \<and>
      (flags AND MAP_FIXED = 0 \<longrightarrow> (\<forall>b. in_pages addr (pages_of len) b \<longrightarrow> pte_of s b = 0))"
proof -
  have g: "unat (cur_mmap_max s) \<le> 2 ^ 38" "4096 dvd unat (cur_mmap_max s)"
    using vm_invD(2) [OF assms(1)] by (simp_all add: vm_geom_def)
  have "s' = s \<and> (r = Some addr \<longrightarrow> 4096 dvd unat addr \<and> unat (addr + len) = unat addr + unat len \<and>
      unat addr + unat len \<le> unat (cur_mmap_max s) \<and> (flags AND MAP_FIXED \<noteq> 0 \<longrightarrow> addr = addr0) \<and>
      (flags AND MAP_FIXED = 0 \<longrightarrow> (\<forall>b. in_pages addr (pages_of len) b \<longrightarrow> pte_of s b = 0)))"
  proof (cases "flags AND MAP_FIXED \<noteq> 0")
    case True
    then have "s' = s" "r = Some addr \<longrightarrow> addr = addr0 \<and> addr AND (RISCV_PGSIZE - 1) = 0 \<and> valid_user_range addr len s"
      using assms(3) by (auto simp: choose_addr_def exec_simps split: if_splits)
    then show ?thesis using True valid_range [OF _ assms(1), of addr len] aligned_dvd by auto
  next
    case False
    note n = npage_unat [of len]
    let ?n = "(len - 1) div RISCV_PGSIZE + 1"
    have ln: "len \<noteq> 0" "unat len \<le> unat (cur_mmap_max s)" using assms(2) False by (simp_all add: mmap_len_ok_def word_le_nat_alt)
    have lp: "unat len \<le> pages_of len * 4096" unfolding pages_of_def by linarith
    have nz: "unat len \<noteq> 0" using ln(1) unsigned_eq_0_iff by blast
    then have "pages_of len \<noteq> 0" by (simp add: pages_of_def)
    then have "?n \<noteq> 0" using n [OF ln(1)] by (metis unsigned_0)
    moreover have "unat ?n * 4096 \<le> unat (cur_mmap_max s)"
      unfolding n [OF ln(1)] by (rule pages_of_bound [OF g(2) ln(2)])
    ultimately obtain a where a: "vm_alloc ?n s = Inr (a, s)"
      "a = 0 \<or> cur_brk s \<le> a \<and> unat a + unat ?n * 4096 \<le> unat (cur_mmap_max s) \<and> 4096 dvd unat a \<and>
         (\<forall>b. in_pages a (unat ?n) b \<longrightarrow> pte_of s b = 0)"
      by (rule vm_alloc_spec [OF assms(1)])
    have r: "s' = s" "r = (if a = 0 then None else Some a)"
      using False assms(3) a(1) by (auto simp: choose_addr_def exec_simps)
    show ?thesis
    proof (cases "a = 0")
      case nz: False
      then have "unat a + unat len \<le> unat (cur_mmap_max s)" using a(2) lp unfolding n [OF ln(1)] by simp
      moreover from this have "unat a + unat len < 2 ^ LENGTH(64)" using g(1) by simp
      then have "unat (a + len) = unat a + unat len" by (rule unat_add_lem [THEN iffD1])
      ultimately show ?thesis using a(2) r nz False unfolding n [OF ln(1)] by auto
    qed (use r in simp)
  qed
  then show "s' = s" "r = Some addr \<Longrightarrow> 4096 dvd unat addr \<and> unat (addr + len) = unat addr + unat len \<and>
      unat addr + unat len \<le> unat (cur_mmap_max s) \<and> (flags AND MAP_FIXED \<noteq> 0 \<longrightarrow> addr = addr0) \<and>
      (flags AND MAP_FIXED = 0 \<longrightarrow> (\<forall>b. in_pages addr (pages_of len) b \<longrightarrow> pte_of s b = 0))" by auto
qed

lemma map_pages_spec:
  fixes q :: "unit option"
  assumes "vm_inv ((\<lambda>_. 0)(i := int (pages_of len))) s" "vmr_base s \<noteq> 0" "i < MAX_VMR" "4096 dvd unat addr"
    "unat (addr + len) = unat addr + unat len" "unat addr + unat len \<le> unat (cur_mmap_max s)"
    "for_pages addr (addr + len) (map_page ff i) s = Inr (q, s')"
  shows "vm_inv (\<lambda>_. 0) s'" "same_cfg s s'"
    "pte_of s' b = (if in_pages addr (pages_of len) b then vmr_ptr s i else pte_of s b)"
proof -
  define J where "J n t \<longleftrightarrow> n \<le> pages_of len \<and> vm_inv ((\<lambda>_. 0)(i := int (pages_of len - n))) t \<and> same_cfg s t \<and>
    (\<forall>b. pte_of t b = (if in_pages addr n b then vmr_ptr s i else pte_of s b))" for n t
  have m: "unat (cur_mmap_max s) \<le> 2 ^ 38" using vm_invD(2) [OF assms(1)] by (simp add: vm_geom_def)
  then have e: "unat (addr + len) \<le> 2 ^ 38" using assms(5,6) by simp
  have "ensures (J 0) (for_pages addr (addr + len) (map_page ff i)) (\<lambda>r s. (r :: unit option) = None \<and> J (pages_of len) s)"
  proof (rule ens_page_range [OF _ assms(5) e], rule ensuresI)
    fix a n t t' and r :: "unit option"
    assume a: "a < addr + len" "unat a = unat addr + 4096 * n" and J: "J n t" and u: "map_page ff i a t = Inr (r, t')"
    have a38: "unat a < unat (addr + len)" "unat a < 2 ^ 38" "unat a < 2 ^ 39" "4096 dvd unat a"
      using a e assms(4) by (simp_all add: word_less_nat_alt)
    have n: "n < pages_of len" using a38(1) a(2) assms(5) unfolding pages_of_def by linarith
    from J have t: "vm_inv ((\<lambda>_. 0)(i := int (pages_of len - n))) t" "same_cfg s t" by (auto simp: J_def)
    have iu: "in_user t a" using t(2) a38(1,3,4) assms(5,6) by (simp add: in_user_def vpn_unat same_cfg_def)
    have b: "vmr_base t \<noteq> 0" "vmr_ptr t i = vmr_ptr s i" using t(2) assms(2) by (simp_all add: same_cfg_def vmr_ptr_def)
    note sp = map_page_spec [OF t(1) _ b(1) assms(3) iu a38(4,2) u]
    have "(((\<lambda>_. 0)(i := int (pages_of len - n)))(i := ((\<lambda>_. 0)(i := int (pages_of len - n))) i - 1))
        = ((\<lambda>_. 0)(i := int (pages_of len - Suc n)))" using n by (auto simp: fun_eq_iff)
    then have "vm_inv ((\<lambda>_. 0)(i := int (pages_of len - Suc n))) t'" using sp(2) by simp
    moreover have "pte_of t' b = (if in_pages addr (Suc n) b then vmr_ptr s i else pte_of s b)" for b
      using sp(4) [of b] J b(2) in_pages_Suc [OF assms(4) a(2) a38(3), of b] by (auto simp: J_def)
    ultimately show "r = None \<and> J (Suc n) t'"
      using sp(1,3) n same_cfg_trans [OF t(2)] by (simp add: J_def)
  qed
  moreover have "J 0 s" using assms(1) by (auto simp: J_def in_pages_def)
  ultimately have "J (pages_of len) s'" using assms(7) by (auto dest: ensuresD)
  then show "vm_inv (\<lambda>_. 0) s'" "same_cfg s s'"
    "pte_of s' b = (if in_pages addr (pages_of len) b then vmr_ptr s i else pte_of s b)"
    by (simp_all add: J_def fun_upd_idem_iff [THEN iffD2])
qed

lemma populate_inv:
  "ensures (\<lambda>s. vm_inv (\<lambda>_. 0) s \<and> same_cfg s0 s) (for_pages a e (populate_page ff prot))
     (\<lambda>r s. vm_inv (\<lambda>_. 0) s \<and> same_cfg s0 s)"
proof (rule ens_pages, rule ensuresI)
  fix a s s' and r :: "'r option"
  assume s: "vm_inv (\<lambda>_. 0) s \<and> same_cfg s0 s" and "populate_page ff prot a s = Inr (r, s')"
  then obtain q where "handle_page_fault ff a prot s = Inr (q, s')" "r = None"
    by (auto simp: populate_page_def exec_simps kassert_def split: sum.splits if_splits)
  then show "case r of None \<Rightarrow> a \<le> a + RISCV_PGSIZE \<longrightarrow> vm_inv (\<lambda>_. 0) s' \<and> same_cfg s0 s'
      | Some x \<Rightarrow> vm_inv (\<lambda>_. 0) s' \<and> same_cfg s0 s'"
    using page_fault_spec [of "\<lambda>_. 0" s ff a prot q s'] s same_cfg_trans by auto
qed

text \<open>
  The state after the pages have been pointed to their region and before they are populated is
  the middle one, \<open>s2\<close>.
\<close>

lemma mmap_region_spec:
  assumes "vm_inv (\<lambda>_. 0) s" "mmap_len_ok s len flags" "do_mmap_region ff addr0 len prot flags f off s = Inr (r, s')"
  shows "vm_inv (\<lambda>_. 0) s' \<and> same_lim s s' \<and>
    (r = - 1 \<or>
      4096 dvd unat r \<and> unat r + unat len \<le> unat (cur_mmap_max s) \<and>
      (flags AND MAP_FIXED = 0 \<longrightarrow> (\<forall>b. in_pages r (pages_of len) b \<longrightarrow> pte_of s b = 0)) \<and>
      (flags AND MAP_FIXED \<noteq> 0 \<longrightarrow> r = addr0) \<and>
      (\<exists>i s2. i < MAX_VMR \<and> vmr_base s2 \<noteq> 0 \<and> vm_inv (\<lambda>_. 0) s2 \<and> same_cfg s2 s' \<and>
        (have_vm s \<and> flags AND MAP_POPULATE = 0 \<longrightarrow> s2 = s') \<and>
        (\<forall>b. pte_of s2 b = (if in_pages r (pages_of len) b then vmr_ptr s2 i else pte_of s b))))"
proof -
  let ?n = "(len - 1) div RISCV_PGSIZE + 1"
  obtain ao where ao: "choose_addr addr0 len ?n flags s = Inr (ao, s)"
    using assms(3) choose_addr_spec(1) [OF assms(1,2)]
    by (auto simp: do_mmap_region_def ebind_apply Let_def split: sum.splits)
  show ?thesis
  proof (cases ao)
    case None
    then show ?thesis using assms(1,3) ao by (auto simp: do_mmap_region_def Let_def exec_simps)
  next
    case (Some addr)
    note c = choose_addr_spec(2) [OF assms(1,2) ao Some]
    obtain vo s1 where s1: "vmr_alloc addr len f off (ucast ?n) prot s = Inr (vo, s1)"
      using assms(3) ao Some by (auto simp: do_mmap_region_def ebind_apply Let_def split: sum.splits)
    note v = vmr_alloc_spec [OF assms(1) s1]
    show ?thesis
    proof (cases vo)
      case None
      then show ?thesis using assms(3) ao Some s1 v(1,3) by (auto simp: do_mmap_region_def exec_simps Let_def)
    next
      case vi: (Some i)
      have "unat (cur_mmap_max s) \<le> 2 ^ 38" using vm_invD(2) [OF assms(1)] by (simp add: vm_geom_def)
      moreover have "4096 dvd unat (cur_mmap_max s)" using vm_invD(2) [OF assms(1)] by (simp add: vm_geom_def)
      then have "pages_of len * 4096 \<le> unat (cur_mmap_max s)" using c by (intro pages_of_bound) auto
      ultimately have "unat ?n < 2 ^ 32" using npage_unat assms(2) by (simp add: mmap_len_ok_def)
      then have "?n < 2 ^ 32" by (simp add: word_less_nat_alt)
      from unat_ucast_32 [OF this] npage_unat assms(2) have n: "unat (ucast ?n :: u32) = pages_of len"
        by (simp add: mmap_len_ok_def)
      note w = v(4) [OF vi, unfolded n]
      have mm: "cur_mmap_max s1 = cur_mmap_max s" "have_vm s1 = have_vm s" using v(1) by (simp_all add: same_lim_def)
      obtain q :: "unit option" and s2 where s2: "for_pages addr (addr + len) (map_page ff i) s1 = Inr (q, s2)"
        using assms(3) ao Some s1 vi by (auto simp: do_mmap_region_def exec_simps Let_def split: sum.splits)
      note m = map_pages_spec [of i len s1 addr ff q s2] 
      have m: "vm_inv (\<lambda>_. 0) s2" "same_cfg s1 s2"
        "\<And>b. pte_of s2 b = (if in_pages addr (pages_of len) b then vmr_ptr s1 i else pte_of s1 b)"
        using m w c s2 mm by auto
      have lim: "same_lim s s2" using v(1) same_cfg_lim [OF m(2)] same_lim_trans by blast
      have base: "vmr_base s2 \<noteq> 0" "vmr_ptr s2 i = vmr_ptr s1 i" "have_vm s2 = have_vm s"
        using m(2) w mm by (simp_all add: same_cfg_def vmr_ptr_def)
      have fin: "r = addr \<and> vm_inv (\<lambda>_. 0) s' \<and> same_cfg s2 s' \<and> (have_vm s \<and> flags AND MAP_POPULATE = 0 \<longrightarrow> s2 = s')"
      proof (cases "\<not> have_vm s \<or> flags AND MAP_POPULATE \<noteq> 0")
        case False
        then show ?thesis
          using assms(3) ao Some s1 vi s2 base m(1) by (auto simp: do_mmap_region_def exec_simps Let_def)
      next
        case True
        then obtain q' :: "unit option" where "for_pages addr (addr + len) (populate_page ff prot) s2 = Inr (q', s')" "r = addr"
          using assms(3) ao Some s1 vi s2 base
          by (auto simp: do_mmap_region_def exec_simps Let_def split: sum.splits)
        moreover from this(1) have "vm_inv (\<lambda>_. 0) s' \<and> same_cfg s2 s'"
          by (rule ensuresD [OF populate_inv, rotated]) (use m(1) in simp)
        ultimately show ?thesis using True by auto
      qed
      have "pte_of s2 b = (if in_pages r (pages_of len) b then vmr_ptr s2 i else pte_of s b)" for b
        using fin m(3) v(2) base(2) by simp
      then show ?thesis
        using fin c w base(1) m(1) same_lim_trans [OF lim same_cfg_lim] by blast
    qed
  qed
qed

subsubsection \<open>The system calls\<close>

lemma munmap_spec:
  assumes "vm_inv (\<lambda>_. 0) s" "do_munmap ff addr len s = Inr (r, s')"
  shows "vm_inv (\<lambda>_. 0) s' \<and> same_cfg s s' \<and>
    (r = 0 \<longrightarrow> (\<forall>b. pte_of s' b = (if in_pages addr (pages_of len) b then 0 else pte_of s b)))"
proof (cases "addr AND (RISCV_PGSIZE - 1) \<noteq> 0 \<or> \<not> valid_user_range addr len s")
  case True
  then show ?thesis using assms by (auto simp: do_munmap_def exec_simps)
next
  case False
  then have "do_munmap_pages ff addr len s = Inr ((), s')"
    using assms(2) by (auto simp: do_munmap_def exec_simps split: sum.splits)
  then show ?thesis
    using munmap_pages_spec [OF assms(1), of addr len ff "()" s'] valid_range [OF _ assms(1), of addr len] False aligned_dvd
    by auto
qed

lemma set_brk_max_inv:
  assumes "vm_inv d s" "a < cur_brk_max s"
  shows "vm_inv d (s\<lparr>cur_brk_max := a\<rparr>)"
  using assms entry_ok_cong [of "s\<lparr>cur_brk_max := a\<rparr>" s] refs_ok_cong [of "s\<lparr>cur_brk_max := a\<rparr>" s d]
  by (auto simp: vm_inv_def vm_geom_def)

lemma mmap_spec:
  assumes "vm_inv (\<lambda>_. 0) s" "mmap_len_ok s len flags \<or> len = 0" "do_mmap ff addr len prot flags fd off s = Inr (r, s')"
  shows "vm_inv (\<lambda>_. 0) s' \<and> cur_mmap_max s' = cur_mmap_max s"
proof (cases "flags AND MAP_PRIVATE = 0 \<or> len = 0 \<or> off AND (RISCV_PGSIZE - 1) \<noteq> 0")
  case True
  then show ?thesis using assms by (auto simp: do_mmap_def exec_simps)
next
  case False
  then obtain f s1 where s1: "(if flags AND MAP_ANONYMOUS = 0 then on_fs (file_get fd) else ret None) s = Inr (f, s1)"
    using assms(3) by (auto simp: do_mmap_def ebind_apply split: sum.splits)
  then obtain g where g: "s1 = s\<lparr>fs := g\<rparr>"
    by (auto simp: ret_apply dest: on_fs_frame intro: that [of "fs s"] split: if_splits)
  then have i1: "vm_inv (\<lambda>_. 0) s1" "mmap_len_ok s1 len flags"
    using assms(1,2) False by (simp_all add: mmap_len_ok_def)
  show ?thesis
  proof (cases "flags AND MAP_ANONYMOUS = 0 \<and> f = None")
    case True
    then show ?thesis using assms(3) False s1 i1 g by (auto simp: do_mmap_def exec_simps)
  next
    case nb: False
    then obtain a s2 where s2: "do_mmap_region ff addr len prot flags f off s1 = Inr (a, s2)"
      using assms(3) False s1 by (auto simp: do_mmap_def exec_simps split: sum.splits)
    note m = mmap_region_spec [OF i1 s2]
    let ?s3 = "if a < cur_brk_max s2 then s2\<lparr>cur_brk_max := a\<rparr> else s2"
    have i3: "vm_inv (\<lambda>_. 0) ?s3" "cur_mmap_max ?s3 = cur_mmap_max s"
      using m set_brk_max_inv [of "\<lambda>_. 0" s2 a] g by (auto simp: same_lim_def)
    have "(case f of None \<Rightarrow> ret () | Some x \<Rightarrow> on_fs (file_decref ff x)) ?s3 = Inr ((), s')"
      using assms(3) False s1 nb s2 by (auto simp: do_mmap_def exec_simps split: sum.splits option.splits)
    then obtain h where "s' = ?s3\<lparr>fs := h\<rparr>"
      by (cases f) (auto simp: ret_apply dest: on_fs_frame intro: that [of "fs ?s3"])
    then show ?thesis using i3 by simp
  qed
qed

lemma ebind_gets: "ebind (gets g) f s = f (g s) s"
  by (simp add: exec_simps)

lemma ebind_modify: "ebind (modify g) f s = f () (g s)"
  by (simp add: exec_simps)

lemma ROUNDUP_unat:
  assumes "unat a \<le> 2 ^ 40"
  shows "unat (ROUNDUP a RISCV_PGSIZE) = pages_of a * 4096"
proof (cases "a = 0")
  case True
  then show ?thesis by (simp add: ROUNDUP_def RISCV_PGSIZE_def pages_of_def)
next
  case False
  have "pages_of a * 4096 \<le> 2 ^ 40" by (rule pages_of_bound) (use assms in simp_all)
  then have "unat ((a - 1) div RISCV_PGSIZE + 1) * unat RISCV_PGSIZE < 2 ^ LENGTH(64)"
    unfolding npage_unat [OF False] by (simp add: RISCV_PGSIZE_def)
  then have "unat (((a - 1) div RISCV_PGSIZE + 1) * RISCV_PGSIZE) = unat ((a - 1) div RISCV_PGSIZE + 1) * unat RISCV_PGSIZE"
    by (rule unat_mult_lem [THEN iffD1])
  then show ?thesis unfolding ROUNDUP_def npage_unat [OF False] by (simp add: RISCV_PGSIZE_def)
qed

lemma ROUNDUP_ok:
  assumes "vm_inv d s" "a \<le> cur_mmap_max s"
  shows "4096 dvd unat (ROUNDUP a RISCV_PGSIZE)" "ROUNDUP a RISCV_PGSIZE \<le> cur_mmap_max s"
proof -
  have g: "unat (cur_mmap_max s) \<le> 2 ^ 38" "4096 dvd unat (cur_mmap_max s)"
    using vm_invD(2) [OF assms(1)] by (simp_all add: vm_geom_def)
  have a: "unat a \<le> unat (cur_mmap_max s)" using assms(2) by (simp add: word_le_nat_alt)
  then have r: "unat (ROUNDUP a RISCV_PGSIZE) = pages_of a * 4096" using g(1) by (intro ROUNDUP_unat) simp
  then show "4096 dvd unat (ROUNDUP a RISCV_PGSIZE)" by simp
  show "ROUNDUP a RISCV_PGSIZE \<le> cur_mmap_max s"
    unfolding word_le_nat_alt r by (rule pages_of_bound [OF g(2) a])
qed

lemma set_brk_inv:
  assumes "vm_inv d s" "4096 dvd unat b" "b \<le> cur_mmap_max s"
  shows "vm_inv d (s\<lparr>cur_brk := b\<rparr>)"
  using assms entry_ok_cong [of "s\<lparr>cur_brk := b\<rparr>" s] refs_ok_cong [of "s\<lparr>cur_brk := b\<rparr>" s d]
  by (auto simp: vm_inv_def vm_geom_def)

lemma brk_spec:
  assumes "vm_inv (\<lambda>_. 0) s" "do_brk ff addr s = Inr (r, s')"
  shows "vm_inv (\<lambda>_. 0) s' \<and> cur_mmap_max s' = cur_mmap_max s \<and> r \<le> cur_mmap_max s"
proof -
  define nb where "nb = (if addr < cur_brk_min s then cur_brk_min s else if addr > cur_brk_max s then cur_brk_max s else addr)"
  define s1 where "s1 = (if cur_brk s = 0 then s\<lparr>cur_brk := ROUNDUP (cur_brk_min s) RISCV_PGSIZE\<rparr> else s)"
  let ?p = "ROUNDUP nb RISCV_PGSIZE"
  have g: "cur_brk_min s \<le> cur_mmap_max s" "cur_brk_max s \<le> cur_mmap_max s"
    using vm_invD(2) [OF assms(1)] by (simp_all add: vm_geom_def)
  then have nb: "nb \<le> cur_mmap_max s" by (auto simp: nb_def)
  have m1: "cur_mmap_max s1 = cur_mmap_max s" by (simp add: s1_def)
  have i1: "vm_inv (\<lambda>_. 0) s1" unfolding s1_def using set_brk_inv [OF assms(1)] ROUNDUP_ok [OF assms(1) g(1)] assms(1) by simp
  then have b1: "4096 dvd unat (cur_brk s1)" "cur_brk s1 \<le> cur_mmap_max s1" "unat (cur_mmap_max s1) \<le> 2 ^ 38"
    by (simp_all add: vm_inv_def vm_geom_def)
  have p: "4096 dvd unat ?p" "?p \<le> cur_mmap_max s1" using ROUNDUP_ok [OF assms(1) nb] m1 by simp_all
  define body where "body = (if cur_brk s1 > ?p then do_munmap_pages ff ?p (cur_brk s1 - ?p)
        else if cur_brk s1 < ?p then ebind (do_mmap_region ff (cur_brk s1) (?p - cur_brk s1) (- 1)
            (MAP_FIXED OR MAP_PRIVATE OR MAP_ANONYMOUS) None 0)
            (\<lambda>r. kassert (r = cur_brk s1) ''__do_mmap(...) == current.brk'')
        else ret ())"
  have "do_brk ff addr s = ebind body (\<lambda>_. ebind (modify (\<lambda>s. s\<lparr>cur_brk := ?p\<rparr>)) (\<lambda>_. ret nb)) s1"
    unfolding do_brk_def body_def nb_def s1_def by (simp only: Let_def ebind_gets ebind_modify)
  then obtain s2 where s2: "body s1 = Inr ((), s2)" "s' = s2\<lparr>cur_brk := ?p\<rparr>" "r = nb"
    using assms(2) by (auto simp: exec_simps split: sum.splits)
  consider (shrink) "?p < cur_brk s1" | (grow) "cur_brk s1 < ?p" | (same) "cur_brk s1 = ?p" by fastforce
  then have "vm_inv (\<lambda>_. 0) s2 \<and> cur_mmap_max s2 = cur_mmap_max s1"
  proof cases
    case shrink
    then have l: "unat ?p < unat (cur_brk s1)" by (simp add: word_less_nat_alt)
    then have "unat (cur_brk s1 - ?p) = unat (cur_brk s1) - unat ?p" by (simp add: unat_sub_if_size)
    then have e: "unat (?p + (cur_brk s1 - ?p)) = unat ?p + unat (cur_brk s1 - ?p)"
      "unat (?p + (cur_brk s1 - ?p)) \<le> 2 ^ 38" using l b1(2,3) by (simp_all add: word_le_nat_alt)
    have "do_munmap_pages ff ?p (cur_brk s1 - ?p) s1 = Inr ((), s2)" using s2(1) shrink by (simp add: body_def)
    from munmap_pages_spec(1,2) [OF i1 _ p(1) e this] show ?thesis by (simp add: same_cfg_def)
  next
    case grow
    then have "\<not> ?p < cur_brk s1" by simp
    then obtain a where a: "do_mmap_region ff (cur_brk s1) (?p - cur_brk s1) (- 1) (MAP_FIXED OR MAP_PRIVATE OR MAP_ANONYMOUS) None 0 s1
        = Inr (a, s2)"
      using s2(1) grow by (auto simp: body_def ebind_apply kassert_def split: sum.splits if_splits)
    have "mmap_len_ok s1 (?p - cur_brk s1) (MAP_FIXED OR MAP_PRIVATE OR MAP_ANONYMOUS)"
      using grow by (simp add: mmap_len_ok_def vm_consts)
    from mmap_region_spec [OF i1 this a] show ?thesis by (simp add: same_lim_def)
  qed (use s2(1) i1 in \<open>simp add: ret_apply body_def\<close>)
  then show ?thesis using set_brk_inv [of "\<lambda>_. 0" s2 ?p] p m1 s2(2,3) nb by simp
qed

end
