(* ===== verification/Vm_Calls.thy ===== *)
theory Vm_Calls
  imports Vm_Invariant
begin

text \<open>
  Sequences of calls of the memory manager: the reference counts stay exact; a page that a program can use
  lies in its own memory; what a page holds after the first access to it; an example.
\<close>

subsection \<open>Sequences of calls\<close>

fun run_calls :: "('c \<Rightarrow> ('s, 'e, 'r) comp) \<Rightarrow> 'c list \<Rightarrow> ('s, 'e, 'r list) comp" where
  "run_calls step [] = ret []"
| "run_calls step (c # cs) = ebind (step c) (\<lambda>r. ebind (run_calls step cs) (\<lambda>rs. ret (r # rs)))"

text \<open>
  The contract of a component that is used through calls: every call that is allowed keeps the invariant,
  and does not make other calls illegal.
\<close>

locale kept_by_calls =
  fixes step :: "'c \<Rightarrow> 's \<Rightarrow> 'e + 'r \<times> 's" and inv :: "'s \<Rightarrow> bool" and allowed :: "'s \<Rightarrow> 'c \<Rightarrow> bool"
  assumes step_inv: "inv s \<Longrightarrow> allowed s c \<Longrightarrow> step c s = Inr (r, s') \<Longrightarrow> inv s'"
    and step_allowed: "inv s \<Longrightarrow> allowed s c \<Longrightarrow> step c s = Inr (r, s') \<Longrightarrow> allowed s' c' = allowed s c'"
begin

lemma run_inv:
  "inv s \<Longrightarrow> list_all (allowed s) cs \<Longrightarrow> run_calls step cs s = Inr (rs, s') \<Longrightarrow> inv s'"
proof (induction cs arbitrary: s rs)
  case (Cons c cs)
  then obtain r s1 rs1 where s1: "step c s = Inr (r, s1)" "run_calls step cs s1 = Inr (rs1, s')"
    by (auto simp: exec_simps split: sum.splits)
  have "allowed s1 = allowed s" using step_allowed [OF Cons.prems(1) _ s1(1)] Cons.prems(2) by (auto simp: fun_eq_iff)
  then show ?case using Cons.IH [OF step_inv [OF Cons.prems(1) _ s1(1)] _ s1(2)] Cons.prems(2) by simp
qed (simp add: ret_apply)

lemma run_inductive:
  assumes "inv s" "list_all (allowed s) cs" "run_calls step cs s = Inr (rs, s')" "\<And>s. inv s \<Longrightarrow> P s"
  shows "P s'"
  using run_inv [OF assms(1-3)] assms(4) by blast

end

datatype vcall =
  Call_mmap u64 u64 u32 u32 int u64
| Call_munmap u64 u64
| Call_brk u64
| Call_mprotect u64 u64 u32
| Call_fault u64 u32

definition vcall_do :: "'w fatfs \<Rightarrow> vcall \<Rightarrow> ('w, u64) vexec" where
  "vcall_do ff c =
     (case c of
        Call_mmap addr len prot flags fd off \<Rightarrow> do_mmap ff addr len prot flags fd off
      | Call_munmap addr len \<Rightarrow> ebind (do_munmap ff addr len) (\<lambda>r. ret (of_int r))
      | Call_brk addr \<Rightarrow> do_brk ff addr
      | Call_mprotect addr len prot \<Rightarrow> ebind (do_mprotect addr len prot) (\<lambda>r. ret (of_int r))
      | Call_fault addr prot \<Rightarrow> ebind (handle_page_fault ff addr prot) (\<lambda>r. ret (of_int r)))"

text \<open>A mapping whose place the kernel chooses is not longer than the address space of the program.\<close>

definition vcall_ok :: "'w vm \<Rightarrow> vcall \<Rightarrow> bool" where
  "vcall_ok s c = (case c of Call_mmap addr len prot flags fd off \<Rightarrow> flags AND MAP_FIXED \<noteq> 0 \<or> len \<le> cur_mmap_max s | _ \<Rightarrow> True)"

lemma vcall_spec:
  assumes "vm_inv (\<lambda>_. 0) s" "vcall_ok s c" "vcall_do ff c s = Inr (r, s')"
  shows "vm_inv (\<lambda>_. 0) s' \<and> cur_mmap_max s' = cur_mmap_max s"
proof (cases c)
  case (Call_mmap addr len prot flags fd off)
  then have "mmap_len_ok s len flags \<or> len = 0" using assms(2) by (auto simp: vcall_ok_def mmap_len_ok_def)
  then show ?thesis using mmap_spec [OF assms(1)] assms(3) Call_mmap by (simp add: vcall_do_def)
next
  case (Call_munmap addr len)
  then obtain q where "do_munmap ff addr len s = Inr (q, s')"
    using assms(3) by (auto simp: vcall_do_def exec_simps split: sum.splits)
  then show ?thesis using munmap_spec [OF assms(1)] by (auto simp: same_cfg_def)
next
  case (Call_brk addr)
  then show ?thesis using brk_spec [OF assms(1)] assms(3) by (auto simp: vcall_do_def)
next
  case (Call_mprotect addr len prot)
  then obtain q where "do_mprotect addr len prot s = Inr (q, s')"
    using assms(3) by (auto simp: vcall_do_def exec_simps split: sum.splits)
  then have "vm_inv (\<lambda>_. 0) s' \<and> same_cfg s s'"
    by (rule ensuresD [OF mprotect_inv, rotated]) (use assms(1) in simp)
  then show ?thesis by (simp add: same_cfg_def)
next
  case (Call_fault addr prot)
  then obtain q where "handle_page_fault ff addr prot s = Inr (q, s')"
    using assms(3) by (auto simp: vcall_do_def exec_simps split: sum.splits)
  then show ?thesis using page_fault_spec [OF assms(1)] by (auto simp: same_cfg_def)
qed

interpretation vm: kept_by_calls "vcall_do ff" "vm_inv (\<lambda>_. 0)" vcall_ok for ff
proof
  fix s :: "'a vm" and c r s' assume a: "vm_inv (\<lambda>_. 0) s" "vcall_ok s c" "vcall_do ff c s = Inr (r, s')"
  show "vm_inv (\<lambda>_. 0) s'" using vcall_spec [OF a] by simp
  show "vcall_ok s' c' = vcall_ok s c'" for c' using vcall_spec [OF a] by (simp add: vcall_ok_def split: vcall.split)
qed


lemma user_page_place:
  assumes "vm_inv d s" "pte_of s b AND PTE_V \<noteq> 0" "pte_of s b AND PTE_U \<noteq> 0"
  shows "unat (push_bit RISCV_PGSHIFT (pte_ppn (pte_of s b))) = unat (first_free_paddr s) + 4096 * unat (vpn b)"
    "4096 * unat (vpn b) + 4096 \<le> unat (cur_mmap_max s)"
proof -
  have u: "in_user s b" "pte_ppn (pte_of s b) = vpn b + first_free_paddr s div RISCV_PGSIZE"
    using vm_invD(3) [OF assms(1), of b] assms(2,3) by (auto simp: entry_ok_def split: if_splits)
  have g: "4096 dvd unat (first_free_paddr s)" "unat (first_free_paddr s) + unat (cur_mmap_max s) < 2 ^ 64"
      "4096 dvd unat (cur_mmap_max s)" using vm_invD(2) [OF assms(1)] by (simp_all add: vm_geom_def)
  obtain k where k: "unat (first_free_paddr s) = 4096 * k" using g(1) by (rule dvdE)
  obtain m where m: "unat (cur_mmap_max s) = 4096 * m" using g(3) by (rule dvdE)
  have l: "4096 * unat (vpn b) < unat (cur_mmap_max s)" using u(1) by (simp add: in_user_def)
  then show "4096 * unat (vpn b) + 4096 \<le> unat (cur_mmap_max s)" unfolding m by simp
  have f: "unat (first_free_paddr s div RISCV_PGSIZE) = k" by (simp add: unat_div_distrib RISCV_PGSIZE_def k)
  have "unat (vpn b) + k < 2 ^ 54" using l g(2) k by simp
  then have "unat (vpn b) + unat (first_free_paddr s div RISCV_PGSIZE) < 2 ^ LENGTH(64)" unfolding f by simp
  then have "unat (vpn b + first_free_paddr s div RISCV_PGSIZE) = unat (vpn b) + unat (first_free_paddr s div RISCV_PGSIZE)"
    by (rule unat_add_lem [THEN iffD1])
  then have n: "unat (pte_ppn (pte_of s b)) = unat (vpn b) + k" unfolding u(2) f .
  have lt: "unat (pte_ppn (pte_of s b)) * unat (4096 :: u64) < 2 ^ LENGTH(64)" using l g(2) k n by simp
  then have "unat (pte_ppn (pte_of s b) * 4096) = unat (pte_ppn (pte_of s b)) * unat (4096 :: u64)"
    by (rule unat_mult_lem [THEN iffD1])
  then show "unat (push_bit RISCV_PGSHIFT (pte_ppn (pte_of s b))) = unat (first_free_paddr s) + 4096 * unat (vpn b)"
    by (simp add: push_bit_eq_mult RISCV_PGSHIFT_def n k)
qed

lemma user_page_confined:
  assumes "vm_inv d s" "pte_of s b AND PTE_V \<noteq> 0" "pte_of s b AND PTE_U \<noteq> 0"
  shows "let pa = push_bit RISCV_PGSHIFT (pte_ppn (pte_of s b))
    in unat pa = unat (first_free_paddr s) + 4096 * unat (vpn b) \<and>
       unat pa + 4096 \<le> unat (first_free_paddr s) + unat (cur_mmap_max s) \<and> \<not> alloc_page s pa"
proof -
  let ?pa = "push_bit RISCV_PGSHIFT (pte_ppn (pte_of s b))"
  note p = user_page_place [OF assms]
  have "\<not> alloc_page s ?pa"
  proof
    assume "alloc_page s ?pa"
    then obtain k where k: "k < unat (next_free_page s)" "?pa = pg s k" by (auto simp: alloc_page_def)
    have po: "pages_ok s" using assms(1) by (simp add: vm_inv_def pt_wf_pages)
    then have kf: "k < unat (free_pages s)" using k(1) pages_ok_next by force
    have "unat ?pa = unat (first_free_page s) + 4096 * k" using pg_unat [OF po kf, of 0] k(2) by simp
    moreover have "unat (first_free_page s) + 4096 * unat (free_pages s) \<le> unat (first_free_paddr s)"
      using vm_invD(2) [OF assms(1)] by (simp add: vm_geom_def)
    ultimately show False using p(1) kf by linarith
  qed
  then show ?thesis using p by (simp add: Let_def)
qed

subsection \<open>Demand paging\<close>

text \<open>The contents a page gets: bytes of the file, then zeroes; \<open>bs\<close> is the contents of the file.\<close>

definition file_bytes :: "u8 list \<Rightarrow> vmr \<Rightarrow> u64 \<Rightarrow> u8 list" where
  "file_bytes bs v vaddr =
     take (unat (min RISCV_PGSIZE (v_length v - (vaddr - v_addr v)))) (drop (unat (vaddr - v_addr v + v_offset v)) bs)"

definition page_image :: "u8 list \<Rightarrow> vmr \<Rightarrow> u64 \<Rightarrow> u8 list" where
  "page_image bs v vaddr =
     (case v_file v of
        None \<Rightarrow> replicate 4096 0
      | Some _ \<Rightarrow> file_bytes bs v vaddr @ replicate (4096 - length (file_bytes bs v vaddr)) 0)"

text \<open>The file of a region, if it has one, is served as documented and reaches into the page.\<close>

definition file_ready :: "'w fatfs \<Rightarrow> u8 list \<Rightarrow> ('w \<Rightarrow> nat \<Rightarrow> bool) \<Rightarrow> vmr \<Rightarrow> u64 \<Rightarrow> 'w vm \<Rightarrow> bool" where
  "file_ready ff bs at v vaddr s =
     (case v_file v of
        None \<Rightarrow> True
      | Some f \<Rightarrow> serves ff f bs at \<and> (\<exists>p. at (world (fs s)) p) \<and> length bs < 2 ^ 32 \<and> file_bytes bs v vaddr \<noteq> [])"

definition page_filled :: "u64 \<Rightarrow> u8 list \<Rightarrow> (u64 \<Rightarrow> u8) \<Rightarrow> (u64 \<Rightarrow> u8) \<Rightarrow> bool" where
  "page_filled pa img m m' \<longleftrightarrow> (\<forall>x. m' x = (if unat (x - pa) < 4096 then img ! unat (x - pa) else m x))"

lemma ram_write_zero:
  assumes "length xs \<le> 4096"
  shows "page_filled pa (xs @ replicate (4096 - length xs) 0) (ram s)
     (ram (write_ram (pa + of_nat (length xs)) (replicate (4096 - length xs) 0) (write_ram pa xs s)))"
  unfolding page_filled_def
proof
  fix x
  let ?k = "unat (x - pa)" and ?n = "length xs"
  have n: "unat (of_nat ?n :: u64) = ?n" using assms by (intro unat_of_nat64) simp
  have d: "x - (pa + of_nat ?n) = (x - pa) - of_nat ?n" by simp
  show "ram (write_ram (pa + of_nat ?n) (replicate (4096 - ?n) 0) (write_ram pa xs s)) x =
      (if ?k < 4096 then (xs @ replicate (4096 - ?n) 0) ! ?k else ram s x)"
  proof (cases "?n \<le> ?k")
    case True
    then have "unat (x - (pa + of_nat ?n)) = ?k - ?n"
      unfolding d unat_sub_if_size [of "x - pa" "of_nat ?n"] n by (simp only: if_True)
    then show ?thesis using True assms by (auto simp: write_ram_def nth_append)
  next
    case False
    have "unat (x - (pa + of_nat ?n)) = ?k + 2 ^ size (x - pa) - ?n"
      unfolding d unat_sub_if_size [of "x - pa" "of_nat ?n"] n using False by (simp only: if_False)
    then have "unat (x - (pa + of_nat ?n)) = ?k + 2 ^ 64 - ?n" by (simp only: word_size len_num1 len_num0 len_bit0) simp
    then have "\<not> unat (x - (pa + of_nat ?n)) < 4096 - ?n" using assms by simp
    then show ?thesis using False assms by (simp add: write_ram_def nth_append)
  qed
qed

lemma fill_page_total:
  assumes "file_ready ff bs at v vaddr s"
  shows "\<exists>s'. fill_page ff vaddr pn v s = Inr ((), s') \<and>
    page_filled (push_bit RISCV_PGSHIFT pn) (page_image bs v vaddr) (ram s) (ram s') \<and>
    (if v_file v = None then fs s' = fs s else \<exists>w p. at w p \<and> fs s' = (fs s)\<lparr>world := w\<rparr>)"
proof (cases "v_file v")
  case None
  then show ?thesis
    by (simp add: fill_page_def exec_simps page_image_def page_filled_def clear_ram_eq write_ram_def Let_def)
next
  case (Some f)
  let ?len = "min RISCV_PGSIZE (v_length v - (vaddr - v_addr v))" and ?off = "vaddr - v_addr v + v_offset v"
  let ?bs = "file_bytes bs v vaddr" and ?pa = "push_bit RISCV_PGSHIFT pn"
  from assms Some obtain p where r: "serves ff f bs at" "at (world (fs s)) p" "length bs < 2 ^ 32" "?bs \<noteq> []"
    by (auto simp: file_ready_def)
  have len: "unat ?len \<le> 4096" by (simp add: RISCV_PGSIZE_def min_def word_le_nat_alt)
  then have len32: "?len < 2 ^ 32" by (simp add: word_less_nat_alt)
  have off: "unat ?off \<le> length bs" using r(4) by (auto simp: file_bytes_def)
  obtain w p' where aw: "at w p'"
      and w: "file_pread ff f ?len ?off (fs s) = Inr ((of_nat (length ?bs), ?bs), (fs s)\<lparr>world := w\<rparr>)"
    using file_pread_serves [OF r(1,2) len32 off r(3)] unfolding file_bytes_def by metis
  have lb: "length ?bs \<le> 4096" "length ?bs \<noteq> 0" using len r(4) by (auto simp: file_bytes_def min_def)
  then have n: "unat (of_nat (length ?bs) :: u32) = length ?bs" by (simp add: unsigned_of_nat take_bit_nat_eq_self)
  have c: "ucast (of_nat (length ?bs) :: u32) = (of_nat (length ?bs) :: u64)" using n by (metis of_nat_unat)
  have pos: "(of_nat (length ?bs) :: u32) > 0" using n lb(2) by (simp add: word_less_nat_alt)
  define s1 where "s1 = s\<lparr>fs := (fs s)\<lparr>world := w\<rparr>\<rparr>"
  define s2 where "s2 = (if (of_nat (length ?bs) :: u32) < 4096
      then write_ram (?pa + of_nat (length ?bs)) (replicate (4096 - length ?bs) 0) (write_ram ?pa ?bs s1)
      else write_ram ?pa ?bs s1)"
  have rest: "unat (RISCV_PGSIZE - of_nat (length ?bs)) = 4096 - length ?bs" if "(of_nat (length ?bs) :: u32) < 4096"
    using unat_rest [OF that] unfolding c n .
  have "fill_page ff vaddr pn v s = Inr ((), s2)"
    using Some w n c pos rest by (simp add: fill_page_def Let_def exec_simps on_fs_def kassert_def s1_def s2_def clear_ram_eq)
  moreover have "s2 = write_ram (?pa + of_nat (length ?bs)) (replicate (4096 - length ?bs) 0) (write_ram ?pa ?bs s1)"
    using n lb(1) by (auto simp: s2_def word_less_nat_alt write_ram_def)
  moreover have "ram s1 = ram s" by (simp add: s1_def)
  moreover have "fs s2 = (fs s)\<lparr>world := w\<rparr>" by (simp add: s2_def s1_def write_ram_def)
  ultimately show ?thesis using ram_write_zero [OF lb(1), of ?pa s1] Some aw by (auto simp: page_image_def)
qed

lemma vmr_decref_total: "\<exists>s'. vmr_decref ff i n s = Inr ((), s')"
  by (auto simp: vmr_decref_def file_decref_def on_fs_def exec_simps fe_apply split: option.split)

lemma perms_granted:
  assumes "prot = PROT_READ \<or> prot = PROT_WRITE \<or> prot = PROT_EXEC" "vp AND prot \<noteq> 0"
  shows "pte_create n (prot_to_type vp True) AND pte_create 0 (prot_to_type prot True) = pte_create 0 (prot_to_type prot True)"
proof -
  have t: "prot_to_type vp True AND prot_to_type prot True = prot_to_type prot True"
    using assms by (auto simp: prot_to_type_def Let_def vm_consts pt_consts)
  show ?thesis
  proof (rule bit_word_eqI)
    fix i assume "i < LENGTH(64)"
    have "bit (prot_to_type prot True) i \<Longrightarrow> bit (prot_to_type vp True) i" using t by (metis bit_and_iff)
    then show "bit (pte_create n (prot_to_type vp True) AND pte_create 0 (prot_to_type prot True)) i
        = bit (pte_create 0 (prot_to_type prot True)) i"
      by (auto simp: pte_create_def bit_simps PTE_PPN_SHIFT_def PTE_V_def)
  qed
qed

lemma vaddr_page:
  assumes "vm_inv d s" "addr < cur_mmap_max s"
  shows "valid_user_range (push_bit RISCV_PGSHIFT (ppn addr)) 1 s"
proof -
  let ?v = "push_bit RISCV_PGSHIFT (ppn addr)"
  have m: "unat (cur_mmap_max s) \<le> 2 ^ 38" using vm_invD(2) [OF assms(1)] by (simp add: vm_geom_def)
  have "?v = addr div 4096 * 4096"
    by (simp add: ppn_def RISCV_PGSHIFT_def push_bit_eq_mult drop_bit_eq_div)
  moreover have "unat (addr div 4096) * unat (4096 :: u64) < 2 ^ LENGTH(64)"
    using unsigned_less [where w = addr and ?'a = nat] by (simp add: unat_div_distrib)
  then have "unat (addr div 4096 * 4096) = unat (addr div 4096) * unat (4096 :: u64)" by (rule unat_mult_lem [THEN iffD1])
  ultimately have v: "unat ?v \<le> unat addr" by (simp add: unat_div_distrib)
  then have l: "unat ?v < unat (cur_mmap_max s)" using assms(2) by (simp add: word_less_nat_alt)
  then have "unat ?v + unat (1 :: u64) < 2 ^ LENGTH(64)" using m by simp
  then have "unat (?v + 1) = unat ?v + unat (1 :: u64)" by (rule unat_add_lem [THEN iffD1])
  then show ?thesis using l by (simp add: valid_user_range_def word_less_nat_alt word_le_nat_alt)
qed

lemma vmr_decref_anon:
  assumes "i < length (vmrs s)" "v_file (vmrs s ! i) = None"
  shows "vmr_decref ff i 1 s = Inr ((), upd_vmr i drop_ref s)"
  using assms by (auto simp: vmr_decref_def drop_ref_def upd_vmr_def exec_simps)

lemma vmr_decref_shared:
  assumes "i < length (vmrs s)" "v_file (vmrs s ! i) = Some f" "v_refcnt (vmrs s ! i) = 1 \<Longrightarrow> 2 < refcnt (files (fs s) ! f)"
  shows "vmr_decref ff i 1 s = Inr ((), (upd_vmr i drop_ref s)\<lparr>fs :=
    (if v_refcnt (vmrs s ! i) = 1 then upd_file f (\<lambda>x. x\<lparr>refcnt := refcnt (files (fs s) ! f) - 1\<rparr>) (fs s) else fs s)\<rparr>)"
  using assms by (auto simp: vmr_decref_def drop_ref_def upd_vmr_def on_fs_def exec_simps file_decref_def)

text \<open>
  The state after the first access to a page: its entry, the count of its region, the bytes of the page and
  the file system have changed.
\<close>

lemma page_in:
  assumes "vm_inv (\<lambda>_. 0) s" "addr < cur_mmap_max s"
    and "pte_of s vaddr = vmr_ptr s i" "i < MAX_VMR" "vmr_base s \<noteq> 0"
    and "vaddr = push_bit RISCV_PGSHIFT (ppn addr)" "pn = vpn vaddr + first_free_paddr s div RISCV_PGSIZE"
    and "prot = PROT_READ \<or> prot = PROT_WRITE \<or> prot = PROT_EXEC" "v_prot (vmrs s ! i) AND prot \<noteq> 0"
    and "file_ready ff bs at (vmrs s ! i) vaddr s"
  obtains p m g where "walk vaddr s = Some p"
    "handle_page_fault ff addr prot s = Inr (0, set_pte p (pte_create pn (prot_to_type (v_prot (vmrs s ! i)) True))
       ((upd_vmr i drop_ref s)\<lparr>ram := m, fs := g\<rparr>))"
    "page_filled (push_bit RISCV_PGSHIFT pn) (page_image bs (vmrs s ! i) vaddr) (ram s) m"
    "v_file (vmrs s ! i) = None \<Longrightarrow> g = fs s"
    "\<And>f. v_file (vmrs s ! i) = Some f \<Longrightarrow> (v_refcnt (vmrs s ! i) = 1 \<Longrightarrow> 2 < refcnt (files (fs s) ! f)) \<Longrightarrow>
       \<exists>w p'. at w p' \<and> g = (if v_refcnt (vmrs s ! i) = 1 then upd_file f (\<lambda>x. x\<lparr>refcnt := refcnt (files (fs s) ! f) - 1\<rparr>) (fs s)
         else fs s)\<lparr>world := w\<rparr>"
proof -
  let ?v = "vmrs s ! i"
  have inval: "pte_of s vaddr AND PTE_V = 0" "pte_of s vaddr \<noteq> 0"
    using vmr_ptr_invalid [OF assms(1,5,4)] assms(3) by simp_all
  then obtain p where p: "walk vaddr s = Some p" using pt.slot_None [of vaddr s] by (cases "walk vaddr s") auto
  have vr: "valid_user_range vaddr 1 s" unfolding assms(6) by (rule vaddr_page [OF assms(1,2)])
  note u = valid_page [OF assms(1), of addr, folded assms(6), OF vr]
  let ?s1 = "set_pte p (pte_create pn (prot_to_type (PROT_READ OR PROT_WRITE) False)) s"
  have "file_ready ff bs at ?v vaddr ?s1" using assms(10) by (simp add: file_ready_def split: option.splits)
  from fill_page_total [OF this, of pn, unfolded set_pte_vm] obtain s2 where s2: "fill_page ff vaddr pn ?v ?s1 = Inr ((), s2)"
    "page_filled (push_bit RISCV_PGSHIFT pn) (page_image bs ?v vaddr) (ram s) (ram s2)"
    and fs2: "if v_file ?v = None then fs s2 = fs s else \<exists>w p. at w p \<and> fs s2 = (fs s)\<lparr>world := w\<rparr>" by blast
  obtain m f where f: "s2 = ?s1\<lparr>ram := m, fs := f\<rparr>" using fill_page_frame [OF s2(1)] by blast
  obtain s3 where s3: "vmr_decref ff i 1 s2 = Inr ((), s3)" using vmr_decref_total by blast
  then obtain g where g: "s3 = (upd_vmr i drop_ref s2)\<lparr>fs := g\<rparr>" using vmr_decref_drop by blast
  have len: "i < length (vmrs s)" using assms(4) vm_invD(2) [OF assms(1)] by (simp add: vm_geom_def)
  have pr: "v_prot (vmrs s3 ! i) = v_prot ?v" using len by (simp add: g f drop_ref_def)
  let ?x = "pte_create pn (prot_to_type (v_prot ?v) True)"
  have "resolve_page ff vaddr p s = Inr ((), set_pte p ?x s3)"
    using s2(1) s3 pr u(2) vmr_index_ptr [OF assms(1,5,4)] pte_of_walk [OF p] assms(3,7)
    by (simp add: resolve_page_def exec_simps)
  then have h: "handle_page_fault ff addr prot s = Inr (0, set_pte p ?x s3)"
    using p vr inval pte_of_walk [OF p] perms_granted [OF assms(8,9)] assms(6)
    by (simp add: handle_page_fault_def Let_def exec_simps)
  have e: "set_pte p ?x s3 = set_pte p ?x ((upd_vmr i drop_ref s)\<lparr>ram := m, fs := g\<rparr>)"
    by (simp add: g f set_pte_def upd_vmr_def)
  have anon: "g = fs s" if n: "v_file ?v = None"
  proof -
    have "i < length (vmrs s2)" "v_file (vmrs s2 ! i) = None" using len n by (simp_all add: f)
    from vmr_decref_anon [OF this, of ff] s3 have "fs s3 = fs s2" by (simp add: upd_vmr_def)
    then show ?thesis using fs2 n by (simp add: g)
  qed
  have shared: "\<exists>w p'. at w p' \<and> g = (if v_refcnt ?v = 1 then upd_file x (\<lambda>y. y\<lparr>refcnt := refcnt (files (fs s) ! x) - 1\<rparr>) (fs s) else fs s)\<lparr>world := w\<rparr>"
    if x: "v_file ?v = Some x" "v_refcnt ?v = 1 \<Longrightarrow> 2 < refcnt (files (fs s) ! x)" for x
  proof -
    obtain w p' where w: "at w p'" "fs s2 = (fs s)\<lparr>world := w\<rparr>" using fs2 x(1) by auto
    have v: "vmrs s2 ! i = ?v" "i < length (vmrs s2)" using len by (simp_all add: f)
    have "v_file (vmrs s2 ! i) = Some x" "v_refcnt (vmrs s2 ! i) = 1 \<Longrightarrow> 2 < refcnt (files (fs s2) ! x)"
      using x unfolding v(1) w(2) by simp_all
    from vmr_decref_shared [OF v(2) this, of ff, unfolded s3 v(1)]
    have "fs s3 = (if v_refcnt ?v = 1 then upd_file x (\<lambda>y. y\<lparr>refcnt := refcnt (files (fs s2) ! x) - 1\<rparr>) (fs s2) else fs s2)" by simp
    moreover have "fs s3 = g" by (simp add: g)
    ultimately have "g = (if v_refcnt ?v = 1 then upd_file x (\<lambda>y. y\<lparr>refcnt := refcnt (files (fs s) ! x) - 1\<rparr>) (fs s) else fs s)\<lparr>world := w\<rparr>"
      unfolding w(2) by (simp add: upd_file_def)
    with w(1) show ?thesis by blast
  qed
  have "ram s2 = m" by (simp add: f)
  with s2(2) have "page_filled (push_bit RISCV_PGSHIFT pn) (page_image bs ?v vaddr) (ram s) m" by simp
  from that [OF p h [unfolded e] this anon shared] show ?thesis by blast
qed

text \<open>
  C11 (functional): the first access to a page of a region, from the program or from the kernel, succeeds when
  the region allows it; the page is mapped to its place in the program's memory and holds the bytes of the
  file at the region's offset, up to the end of the region or of the file, and zeroes behind them; no other
  byte of the memory and no other entry of the tables changes.
\<close>

theorem demand_paging:
  assumes "vm_inv (\<lambda>_. 0) s" "addr < cur_mmap_max s"
    and "pte_of s vaddr = vmr_ptr s i" "i < MAX_VMR" "vmr_base s \<noteq> 0"
    and "vaddr = push_bit RISCV_PGSHIFT (ppn addr)" "pn = vpn vaddr + first_free_paddr s div RISCV_PGSIZE"
    and "prot = PROT_READ \<or> prot = PROT_WRITE \<or> prot = PROT_EXEC" "v_prot (vmrs s ! i) AND prot \<noteq> 0"
    and "file_ready ff bs at (vmrs s ! i) vaddr s"
  shows "\<exists>s'. handle_page_fault ff addr prot s = Inr (0, s') \<and>
    page_filled (push_bit RISCV_PGSHIFT pn) (page_image bs (vmrs s ! i) vaddr) (ram s) (ram s') \<and>
    (\<forall>b. pte_of s' b = (if vpn b = vpn vaddr then pte_create pn (prot_to_type (v_prot (vmrs s ! i)) True) else pte_of s b))"
proof (rule page_in [OF assms])
  let ?x = "pte_create pn (prot_to_type (v_prot (vmrs s ! i)) True)"
  fix p m g assume p: "walk vaddr s = Some p"
    and h: "handle_page_fault ff addr prot s = Inr (0, set_pte p ?x ((upd_vmr i drop_ref s)\<lparr>ram := m, fs := g\<rparr>))"
    and m: "page_filled (push_bit RISCV_PGSHIFT pn) (page_image bs (vmrs s ! i) vaddr) (ram s) m"
  let ?t = "(upd_vmr i drop_ref s)\<lparr>ram := m, fs := g\<rparr>"
  have "pt_wf ?t" "walk vaddr ?t = Some p" using vm_invD(1) [OF assms(1)] p by simp_all
  from pt.put_get [OF this] have "pte_of (set_pte p ?x ?t) b = (if vpn b = vpn vaddr then ?x else pte_of s b)" for b by simp
  then show ?thesis using h m by simp
qed

subsection \<open>An example\<close>

text \<open>
  A machine with 32 table pages at \<^verbatim>\<open>0x80000000\<close>, a root table, and 16 MB of memory for the program above them.
\<close>

definition demo_vm :: "toy_world vm" where
  "demo_vm =
     \<lparr>pt_words = (\<lambda>_. 0), root_page_table = 0x80000000, first_free_page = 0x80000000, next_free_page = 1,
      free_pages = 32, vmr_base = 0, vmrs = replicate MAX_VMR zero_vmr, cur_brk_min = 0x1000, cur_brk = 0,
      cur_brk_max = 0x1000000, cur_mmap_max = 0x1000000, cur_stack_top = 0, first_free_paddr = 0x80020000,
      mem_size = 0x1020000, have_vm = True, ram = (\<lambda>_. 0xff), fs = toy_state\<rparr>"

lemma demo_vm_inv: "vm_inv (\<lambda>_. 0) demo_vm"
proof -
  have "pt_wf demo_vm"
    by (rule pt_empty_wf) (auto simp: demo_vm_def pages_ok_def alloc_page_def pg_def)
  moreover have "pte_of demo_vm a = 0" for a
    by (simp add: pte_of_def walk_def descend_tbl child_def demo_vm_def)
  moreover have "vm_geom demo_vm" by (simp add: vm_geom_def demo_vm_def)
  moreover have "refs_ok (\<lambda>_. 0) demo_vm" by (simp add: refs_ok_def demo_vm_def zero_vmr_def)
  ultimately show ?thesis by (simp add: vm_inv_def entry_ok_0)
qed

text \<open>Two pages are mapped at a fixed place and one of them is touched; one page remains to be touched.\<close>

definition demo_calls :: "vcall list" where
  "demo_calls = [Call_mmap 0x2000 0x1800 (PROT_READ OR PROT_WRITE) (MAP_PRIVATE OR MAP_ANONYMOUS OR MAP_FIXED) (- 1) 0,
     Call_fault 0x2008 PROT_READ]"

lemma demo_run:
  "case run_calls (vcall_do toy_fat) demo_calls demo_vm of
     Inl _ \<Rightarrow> False
   | Inr (rs, s') \<Rightarrow> rs = [0x2000, 0] \<and> vmr_base s' \<noteq> 0 \<and> v_refcnt (vmrs s' ! 0) = 1 \<and>
       pte_of s' 0x2000 = 0x20008817 \<and>
       pte_of s' 0x3000 = vmr_ptr s' 0 \<and> v_file (vmrs s' ! 0) = None \<and> v_prot (vmrs s' ! 0) = 3"
  by code_simp

lemma demo_end:
  obtains s' where "run_calls (vcall_do toy_fat) demo_calls demo_vm = Inr ([0x2000, 0], s')" "vmr_base s' \<noteq> 0"
    "v_refcnt (vmrs s' ! 0) = 1" "pte_of s' 0x2000 = 0x20008817"
    "pte_of s' 0x3000 = vmr_ptr s' 0" "v_file (vmrs s' ! 0) = None" "v_prot (vmrs s' ! 0) = 3"
  using demo_run by (auto split: sum.splits)

lemma demo_calls_ok: "list_all (vcall_ok demo_vm) demo_calls"
  by (simp add: demo_calls_def vcall_ok_def vm_consts)


text \<open>In the last state of the example the second page is touched: its contents, zero, replace the old bytes.\<close>

theorem demand_paging_witness:
  "\<exists>s s'. run_calls (vcall_do toy_fat) demo_calls demo_vm = Inr ([0x2000, 0], s) \<and>
     handle_page_fault toy_fat 0x3010 PROT_WRITE s = Inr (0, s') \<and>
     page_filled (push_bit RISCV_PGSHIFT (3 + first_free_paddr s div RISCV_PGSIZE)) (replicate 4096 0) (ram s) (ram s')"
proof -
  obtain s where s: "run_calls (vcall_do toy_fat) demo_calls demo_vm = Inr ([0x2000, 0], s)" "vmr_base s \<noteq> 0"
    "v_refcnt (vmrs s ! 0) = 1" "pte_of s 0x2000 = 0x20008817"
    "pte_of s 0x3000 = vmr_ptr s 0" "v_file (vmrs s ! 0) = None" "v_prot (vmrs s ! 0) = 3" by (rule demo_end)
  have i: "vm_inv (\<lambda>_. 0) s" by (rule vm.run_inv [OF demo_vm_inv demo_calls_ok s(1)])
  have m: "0 < MAX_VMR" by (simp add: MAX_VMR_def)
  have "in_user s 0x3000"
    using pending_entry [OF i, of "0x3000"] s(5) vmr_ptr_invalid [OF i s(2) m] by auto
  moreover have v: "vpn 0x3000 = 3" by (simp add: vpn_def drop_bit_eq_div take_bit_eq_mod)
  ultimately have "4096 * unat (3 :: u64) < unat (cur_mmap_max s)" by (simp add: in_user_def)
  moreover have "4096 dvd unat (cur_mmap_max s)" using vm_invD(2) [OF i] by (simp add: vm_geom_def)
  then obtain k where k: "unat (cur_mmap_max s) = 4096 * k" by (rule dvdE)
  ultimately have a: "0x3010 < cur_mmap_max s" unfolding word_less_nat_alt k by simp
  have p: "(0x3000 :: u64) = push_bit RISCV_PGSHIFT (ppn 0x3010)"
    by (simp add: ppn_def RISCV_PGSHIFT_def push_bit_eq_mult drop_bit_eq_div)
  have "file_ready toy_fat [] (\<lambda>w p. True) (vmrs s ! 0) 0x3000 s" using s(6) by (simp add: file_ready_def)
  from demand_paging [OF i a s(5) m s(2) p refl _ _ this, of PROT_WRITE] s(1,6,7) v
  show ?thesis by (auto simp: vm_consts page_image_def)
qed

end
