(* ===== verification/User_Mem.thy ===== *)
theory User_Mem
  imports Vm_Calls
begin

text \<open>
  How the proxy kernel reaches the memory of the program: accesses in supervisor mode through the page
  tables, which fault pages in (\<^verbatim>\<open>populate_mapping\<close> of \<^verbatim>\<open>fs/mmap.c\<close> and plain loads and stores), and accesses of
  the machine-mode file system through the physical address of a buffer (\<^verbatim>\<open>va2pa\<close>). The model holds the pages
  of the program; an access that succeeds outside of them, in the memory of the kernel, is \<open>Wild_Access\<close>.
\<close>

subsection \<open>Accesses in supervisor mode\<close>

text \<open>Bits 63 to 39 of a virtual address repeat bit 38.\<close>

definition canonical :: "u64 \<Rightarrow> bool" where
  "canonical a \<longleftrightarrow> signed_take_bit 38 a = a"

text \<open>The permission bit that a load (\<^verbatim>\<open>PROT_READ\<close>) or a store (\<^verbatim>\<open>PROT_WRITE\<close>) needs.\<close>

definition need_bit :: "u32 \<Rightarrow> u64" where
  "need_bit prot = (if prot = PROT_WRITE then PTE_W else PTE_R)"

definition accessible :: "u32 \<Rightarrow> u64 \<Rightarrow> 'w vm \<Rightarrow> bool" where
  "accessible prot a s \<longleftrightarrow> canonical a \<and> pte_of s a AND PTE_V \<noteq> 0 \<and> pte_of s a AND need_bit prot \<noteq> 0"

definition vpanic :: "string \<Rightarrow> ('w, 'a) vexec" where
  "vpanic msg s = Inl (Panic msg)"

text \<open>
  A load or store of the kernel: it succeeds, or it traps, the handler of \<^verbatim>\<open>handlers.c\<close> maps the page and the
  instruction is executed again, or the kernel panics with a segmentation fault.
\<close>

definition touch :: "'w fatfs \<Rightarrow> u32 \<Rightarrow> u64 \<Rightarrow> ('w, unit) vexec" where
  "touch ff prot a =
     ebind (gets (\<lambda>s. (accessible prot a s, a < cur_mmap_max s))) (\<lambda>(acc, user).
       if acc then (if user then ret () else vwild)
       else ebind (handle_page_fault ff a prot) (\<lambda>r. if r \<noteq> 0 then vpanic ''segfault'' else ret ()))"

definition paddr :: "u64 \<Rightarrow> 'w vm \<Rightarrow> u64" where
  "paddr a s = push_bit RISCV_PGSHIFT (pte_ppn (pte_of s a)) + (a AND (RISCV_PGSIZE - 1))"

definition kload :: "'w fatfs \<Rightarrow> u64 \<Rightarrow> ('w, u8) vexec" where
  "kload ff a = ebind (touch ff PROT_READ a) (\<lambda>_. gets (\<lambda>s. ram s (paddr a s)))"

definition kstore :: "'w fatfs \<Rightarrow> u64 \<Rightarrow> u8 \<Rightarrow> ('w, unit) vexec" where
  "kstore ff a b = ebind (touch ff PROT_WRITE a) (\<lambda>_. modify (\<lambda>s. s\<lparr>ram := (ram s)(paddr a s := b)\<rparr>))"

fun kread :: "'w fatfs \<Rightarrow> u64 \<Rightarrow> nat \<Rightarrow> ('w, u8 list) vexec" where
  "kread ff a 0 = ret []"
| "kread ff a (Suc n) = ebind (kload ff a) (\<lambda>b. ebind (kread ff (a + 1) n) (\<lambda>bs. ret (b # bs)))"

fun kwrite :: "'w fatfs \<Rightarrow> u64 \<Rightarrow> u8 list \<Rightarrow> ('w, unit) vexec" where
  "kwrite ff a [] = ret ()"
| "kwrite ff a (b # bs) = ebind (kstore ff a b) (\<lambda>_. kwrite ff (a + 1) bs)"

definition kload64 :: "'w fatfs \<Rightarrow> u64 \<Rightarrow> ('w, u64) vexec" where
  "kload64 ff a = ebind (kread ff a 8) (\<lambda>bs. ret (le_word bs))"

definition kstore64 :: "'w fatfs \<Rightarrow> u64 \<Rightarrow> u64 \<Rightarrow> ('w, unit) vexec" where
  "kstore64 ff a x = kwrite ff a (le_bytes 8 x)"

definition populate_mapping :: "'w fatfs \<Rightarrow> u64 \<Rightarrow> u64 \<Rightarrow> u32 \<Rightarrow> ('w, unit) vexec" where
  "populate_mapping ff start sz prot =
     ebind (for_pages (start AND NOT (RISCV_PGSIZE - 1)) (start + sz)
       (\<lambda>a. ebind (touch ff (if prot AND PROT_WRITE \<noteq> 0 then PROT_WRITE else PROT_READ) a) (\<lambda>_. ret (None :: unit option))))
       (\<lambda>_. ret ())"

subsection \<open>Accesses in machine mode\<close>

text \<open>\<^verbatim>\<open>va2pa\<close> gives 0 for a page that is not present.\<close>

definition va2pa :: "u64 \<Rightarrow> ('w, u64) vexec" where
  "va2pa a s = (case va_trans a s of Inl e \<Rightarrow> Inl e | Inr None \<Rightarrow> Inr (0, s) | Inr (Some pa) \<Rightarrow> Inr (pa, s))"

definition in_program :: "u64 \<Rightarrow> nat \<Rightarrow> 'w vm \<Rightarrow> bool" where
  "in_program pa n s \<longleftrightarrow> n = 0 \<or> unat (pa - first_free_paddr s) + n \<le> unat (cur_mmap_max s)"

definition mwrite :: "u64 \<Rightarrow> u8 list \<Rightarrow> ('w, unit) vexec" where
  "mwrite pa bs s = (if in_program pa (length bs) s then Inr ((), write_ram pa bs s) else Inl Wild_Access)"

definition mread :: "u64 \<Rightarrow> nat \<Rightarrow> ('w, u8 list) vexec" where
  "mread pa n s = (if in_program pa n s then Inr (map (\<lambda>i. ram s (pa + of_nat i)) [0..<n], s) else Inl Wild_Access)"

subsection \<open>Strings\<close>

text \<open>The bytes up to the terminating zero, fetched with \<open>get\<close>.\<close>

function ustring :: "(u64 \<Rightarrow> ('s, kexit, u8) comp) \<Rightarrow> u64 \<Rightarrow> ('s, kexit, u8 list) comp" where
  "ustring get a =
     ebind (get a) (\<lambda>b.
       if b = 0 then ret []
       else if a + 1 = 0 then (\<lambda>_. Inl Wild_Access)
       else ebind (ustring get (a + 1)) (\<lambda>bs. ret (b # bs)))"
  by pat_completeness auto
termination
proof (relation "measure (\<lambda>(get, a). 2 ^ 64 - unat a)")
  fix get :: "u64 \<Rightarrow> ('s, kexit, u8) comp" and a :: u64 assume "a + 1 \<noteq> 0"
  then have "unat (a + 1) = unat a + 1" using unatSuc [of a] by (simp add: add.commute)
  moreover have "unat (a + 1) < 2 ^ 64" using unsigned_less [where w = "a + 1" and ?'a = nat] by simp
  ultimately show "((get, a + 1), get, a) \<in> measure (\<lambda>(get, a). 2 ^ 64 - unat a)" by simp
qed simp

declare ustring.simps [simp del]

definition peek :: "u64 \<Rightarrow> ('w, u8) vexec" where
  "peek a s = (if accessible PROT_READ a s \<and> a < cur_mmap_max s then Inr (ram s (paddr a s), s) else Inl Wild_Access)"

text \<open>
  A name that is handed to the file system: machine mode reads it at its physical address, the kernel at its
  virtual one, and neither the kernel nor FatFs faults its pages in. A name on a page that is not present is
  not followed: \<^verbatim>\<open>va2pa\<close> then yields the address 0.
\<close>

definition name_arg :: "u64 \<Rightarrow> ('w, u8 list) vexec" where
  "name_arg = ustring peek"

text \<open>\<^verbatim>\<open>strlen\<close> on a string of the program, which does fault its pages in.\<close>

definition kstrlen :: "'w fatfs \<Rightarrow> u64 \<Rightarrow> ('w, nat) vexec" where
  "kstrlen ff a = ebind (ustring (kload ff) a) (\<lambda>bs. ret (length bs))"

end
