(* ===== verification/Pk_Syscall.thy ===== *)
theory Pk_Syscall
  imports User_Mem Snprintf
begin

text \<open>
  The system calls of the proxy kernel (\<^verbatim>\<open>fs/syscall.c\<close>) with the performance counters that it logs at exit
  (\<^verbatim>\<open>fs/pfc.c\<close>): one definition per call, on the memory manager, the open files, the console and the
  counters, and the dispatch by number. Pointers of the program are virtual addresses, accessed as in
  \<^verbatim>\<open>User_Mem\<close>. Messages that the kernel prints for its own account are left out; the console holds what the
  program writes to it.
\<close>

subsection \<open>State\<close>

record pfc_response =
  resp :: "u64 list"
  p_instret :: u64
  p_cycles :: u64

record 'w kern =
  kvm :: "'w vm"
  con :: "u8 list"
  already_exited :: bool
  pfc :: "pfc_response list"

text \<open>
  How a call can end other than by returning: the kernel panics or leaves what is modelled, shuts the machine
  down, or loops for ever.
\<close>

datatype 'w stop = Failed kexit | Shut_Down "'w kern" | Spins

type_synonym ('w, 'a) sysexec = "('w kern, 'w stop, 'a) comp"

text \<open>The fields of \<^verbatim>\<open>struct stat\<close>; its layout belongs to the C library and is a parameter.\<close>

datatype stat_field = ST_dev | ST_ino | ST_mode | ST_nlink | ST_uid | ST_gid | ST_rdev | ST_size | ST_atime | ST_ctime
  | ST_blksize | ST_blocks

text \<open>
  What a call depends on besides the state: FatFs, the layout of \<^verbatim>\<open>struct stat\<close> (size of the structure, offset and
  width of each field), the counters of the hart, and the name of the benchmark.
\<close>

record 'w env =
  e_fat :: "'w fatfs"
  e_statsize :: u64
  e_layout :: "stat_field \<Rightarrow> u64 \<times> nat"
  e_cycle :: u64
  e_instret :: u64
  e_counter :: "u64 \<Rightarrow> nat \<Rightarrow> u64"
  spec_case :: "u8 list"

definition on_vm :: "('w, 'a) vexec \<Rightarrow> ('w, 'a) sysexec" where
  "on_vm m s = (case m (kvm s) of Inl e \<Rightarrow> Inl (Failed e) | Inr (r, v) \<Rightarrow> Inr (r, s\<lparr>kvm := v\<rparr>))"

definition on_files :: "('w, 'a) kexec \<Rightarrow> ('w, 'a) sysexec" where
  "on_files m = on_vm (on_fs m)"

text \<open>An \<^verbatim>\<open>int\<close> argument of a call, and an \<^verbatim>\<open>int\<close> result in the register for the result.\<close>

definition int_arg :: "u64 \<Rightarrow> int" where
  "int_arg a = sint (ucast a :: u32)"

definition int_res :: "int \<Rightarrow> u64" where
  "int_res i = of_int i"

subsection \<open>Performance counters\<close>

definition pfc_total_resp :: nat where "pfc_total_resp = 38"
definition tilepfc_conf :: u64 where "tilepfc_conf = 0x0000000000000001"
definition l2b0pfc_conf :: u64 where "l2b0pfc_conf = 0x0010000000000001"
definition tcpfc_conf :: u64 where "tcpfc_conf = 0x0020000000000001"

text \<open>After a configuration is selected, reads of register 0x402 yield the counters of its unit one by one.\<close>

definition get_pfc :: "'w env \<Rightarrow> pfc_response" where
  "get_pfc ev =
     \<lparr>resp = map (e_counter ev tilepfc_conf) [0..<7] @ map (e_counter ev l2b0pfc_conf) [0..<4] @
        map (e_counter ev tcpfc_conf) [0..<27],
      p_instret = e_instret ev, p_cycles = e_cycle ev\<rparr>"

definition pfc_diff :: "pfc_response \<Rightarrow> pfc_response \<Rightarrow> pfc_response" where
  "pfc_diff start end =
     \<lparr>resp = map (\<lambda>i. resp end ! i - resp start ! i) [0..<pfc_total_resp],
      p_instret = p_instret end - p_instret start, p_cycles = p_cycles end - p_cycles start\<rparr>"

definition pfc_log :: "'w env \<Rightarrow> nat \<Rightarrow> ('w, unit) sysexec" where
  "pfc_log ev code =
     ebind (modify (\<lambda>s. s\<lparr>pfc := (pfc s)[code := get_pfc ev]\<rparr>)) (\<lambda>_.
       if code \<noteq> 0 then modify (\<lambda>s. s\<lparr>pfc := (pfc s)[2 := pfc_diff (pfc s ! 0) (pfc s ! 1)]\<rparr>) else ret ())"

subsection \<open>Exit\<close>

definition kdie :: "'w env \<Rightarrow> ('w, 'a) sysexec" where
  "kdie ev = ebind (on_files (file_umount (e_fat ev))) (\<lambda>_ s. Inl (Shut_Down s))"

text \<open>
  The text goes through a buffer of 256 bytes; a text that does not fit is cut after 255 bytes, and the zero
  behind it is written too.
\<close>

definition vfprintk :: "'w env \<Rightarrow> nat \<Rightarrow> u8 list \<Rightarrow> va_arg list \<Rightarrow> ('w, nat) sysexec" where
  "vfprintk ev fhdl s vl =
     (case vsnprintf (replicate 256 0) 256 s vl of
        None \<Rightarrow> on_vm vwild
      | Some (res, out) \<Rightarrow>
          ebind (on_files (file_write (e_fat ev) fhdl (take (if res < 256 then res else 256) out))) (\<lambda>_. ret res))"

definition fprintk :: "'w env \<Rightarrow> nat \<Rightarrow> u8 list \<Rightarrow> va_arg list \<Rightarrow> ('w, nat) sysexec" where
  "fprintk ev fhdl s vl = vfprintk ev fhdl s vl"

definition bytes_of :: "string \<Rightarrow> u8 list" where
  "bytes_of s = map of_char s"

fun fprintk_counters :: "'w env \<Rightarrow> nat \<Rightarrow> u64 list \<Rightarrow> ('w, unit) sysexec" where
  "fprintk_counters ev f [] = ret ()"
| "fprintk_counters ev f (x # xs) =
     ebind (fprintk ev f (bytes_of '' %15lld'') [VaLong x]) (\<lambda>_. fprintk_counters ev f xs)"

definition log_result :: "'w env \<Rightarrow> nat \<Rightarrow> ('w, unit) sysexec" where
  "log_result ev pfl =
     ebind (on_files (file_lseek (e_fat ev) pfl 0 2)) (\<lambda>_.
     ebind (fprintk ev pfl (spec_case ev) []) (\<lambda>_.
     ebind (gets (\<lambda>s. pfc s ! 2)) (\<lambda>p.
     ebind (fprintk ev pfl (bytes_of '' %15lld %15lld'') [VaLong (p_instret p), VaLong (p_cycles p)]) (\<lambda>_.
     ebind (fprintk_counters ev pfl (take pfc_total_resp (resp p))) (\<lambda>_.
     ebind (fprintk ev pfl [10] []) (\<lambda>_. on_files (file_decref (e_fat ev) pfl)))))))"

definition sys_exit :: "'w env \<Rightarrow> ('w, u64) sysexec" where
  "sys_exit ev =
     ebind (gets already_exited) (\<lambda>again.
       if again then kdie ev
       else
         ebind (modify (\<lambda>s. s\<lparr>already_exited := True\<rparr>)) (\<lambda>_.
         ebind (pfc_log ev 1) (\<lambda>_.
         ebind (on_files (file_open (e_fat ev) (bytes_of ''/result.dat'') 0x202)) (\<lambda>pfl.
         ebind (case pfl of None \<Rightarrow> ret () | Some f \<Rightarrow> log_result ev f) (\<lambda>_. kdie ev)))))"

subsection \<open>Reading and writing\<close>

text \<open>
  The calls of the file layer with a buffer of the program: the pages of the buffer are faulted in, then the
  data is copied to or from the physical address of its first byte.
\<close>

definition user_read :: "'w env \<Rightarrow> nat \<Rightarrow> u64 \<Rightarrow> u64 \<Rightarrow> ('w, u64) sysexec" where
  "user_read ev f buf n =
     on_vm (ebind (populate_mapping (e_fat ev) buf n PROT_WRITE) (\<lambda>_.
       ebind (va2pa buf) (\<lambda>pa.
       ebind (on_fs (file_read (e_fat ev) f n)) (\<lambda>(r, bs).
       ebind (mwrite pa bs) (\<lambda>_. ret (ucast r))))))"

definition user_pread :: "'w env \<Rightarrow> nat \<Rightarrow> u64 \<Rightarrow> u64 \<Rightarrow> u64 \<Rightarrow> ('w, u64) sysexec" where
  "user_pread ev f buf n off =
     on_vm (ebind (populate_mapping (e_fat ev) buf n PROT_WRITE) (\<lambda>_.
       ebind (va2pa buf) (\<lambda>pa.
       ebind (on_fs (file_pread (e_fat ev) f n off)) (\<lambda>(r, bs).
       ebind (mwrite pa bs) (\<lambda>_. ret (ucast r))))))"

definition user_write :: "'w env \<Rightarrow> nat \<Rightarrow> u64 \<Rightarrow> u64 \<Rightarrow> ('w, u64) sysexec" where
  "user_write ev f buf n =
     on_vm (ebind (populate_mapping (e_fat ev) buf n PROT_READ) (\<lambda>_.
       ebind (va2pa buf) (\<lambda>pa.
       ebind (mread pa (unat (ucast n :: u32))) (\<lambda>bs.
       ebind (on_fs (file_write (e_fat ev) f bs)) (\<lambda>r. ret (ucast r))))))"

text \<open>A call on an open file: the descriptor is looked up, and released after the call.\<close>

definition with_file :: "'w env \<Rightarrow> u64 \<Rightarrow> u64 \<Rightarrow> (nat \<Rightarrow> ('w, u64) sysexec) \<Rightarrow> ('w, u64) sysexec" where
  "with_file ev fd dflt body =
     ebind (on_files (file_get (int_arg fd))) (\<lambda>fo.
       case fo of
         None \<Rightarrow> ret dflt
       | Some f \<Rightarrow> ebind (body f) (\<lambda>r. ebind (on_files (file_decref (e_fat ev) f)) (\<lambda>_. ret r)))"

definition sys_read :: "'w env \<Rightarrow> u64 \<Rightarrow> u64 \<Rightarrow> u64 \<Rightarrow> ('w, u64) sysexec" where
  "sys_read ev fd buf n = with_file ev fd (int_res (- EBADF)) (\<lambda>f. user_read ev f buf n)"

definition sys_pread :: "'w env \<Rightarrow> u64 \<Rightarrow> u64 \<Rightarrow> u64 \<Rightarrow> u64 \<Rightarrow> ('w, u64) sysexec" where
  "sys_pread ev fd buf n off = with_file ev fd (int_res (- EBADF)) (\<lambda>f. user_pread ev f buf n off)"

text \<open>\<^verbatim>\<open>sbi_send_buf\<close> sends the bytes one by one; a negative length sends nothing.\<close>

fun sbi_send_loop :: "'w env \<Rightarrow> u64 \<Rightarrow> nat \<Rightarrow> ('w, unit) sysexec" where
  "sbi_send_loop ev buf 0 = ret ()"
| "sbi_send_loop ev buf (Suc k) =
     ebind (on_vm (kload (e_fat ev) buf)) (\<lambda>b.
     ebind (modify (\<lambda>s. s\<lparr>con := con s @ [b]\<rparr>)) (\<lambda>_. sbi_send_loop ev (buf + 1) k))"

definition sbi_send_buf :: "'w env \<Rightarrow> u64 \<Rightarrow> u64 \<Rightarrow> ('w, unit) sysexec" where
  "sbi_send_buf ev buf len = sbi_send_loop ev buf (nat (sint len))"

definition sys_write :: "'w env \<Rightarrow> u64 \<Rightarrow> u64 \<Rightarrow> u64 \<Rightarrow> ('w, u64) sysexec" where
  "sys_write ev fd buf n =
     (let std = int_arg fd = 1 \<or> int_arg fd = 2 in
      ebind (if std then sbi_send_buf ev buf n else ret ()) (\<lambda>_.
        with_file ev fd (if std then n else int_res (- EBADF)) (\<lambda>f. user_write ev f buf n)))"

fun writev_loop :: "'w env \<Rightarrow> u64 \<Rightarrow> u64 \<Rightarrow> nat \<Rightarrow> u64 \<Rightarrow> ('w, u64) sysexec" where
  "writev_loop ev fd iov 0 acc = ret acc"
| "writev_loop ev fd iov (Suc k) acc =
     ebind (on_vm (kload64 (e_fat ev) iov)) (\<lambda>base.
     ebind (on_vm (kload64 (e_fat ev) (iov + 8))) (\<lambda>len.
     ebind (sys_write ev fd base len) (\<lambda>r.
       if sint r < 0 then ret r else writev_loop ev fd (iov + 16) k (acc + r))))"

definition sys_writev :: "'w env \<Rightarrow> u64 \<Rightarrow> u64 \<Rightarrow> u64 \<Rightarrow> ('w, u64) sysexec" where
  "sys_writev ev fd iov cnt = writev_loop ev fd iov (nat (int_arg cnt)) 0"

definition sys_lseek :: "'w env \<Rightarrow> u64 \<Rightarrow> u64 \<Rightarrow> u64 \<Rightarrow> ('w, u64) sysexec" where
  "sys_lseek ev fd ptr dir =
     with_file ev fd (int_res (- EBADF)) (\<lambda>f. on_files (file_lseek (e_fat ev) f ptr (int_arg dir)))"

subsection \<open>Names\<close>

text \<open>
  \<^verbatim>\<open>at_kfd\<close>: the reference that \<^verbatim>\<open>file_get\<close> takes on the directory is never given back.
\<close>

definition at_kfd :: "u64 \<Rightarrow> ('w, int) sysexec" where
  "at_kfd dirfd =
     (if int_arg dirfd = AT_FDCWD then ret AT_FDCWD
      else ebind (on_files (file_get (int_arg dirfd))) (\<lambda>dir. ret (case dir of None \<Rightarrow> - 1 | Some i \<Rightarrow> int i)))"

definition sys_openat :: "'w env \<Rightarrow> u64 \<Rightarrow> u64 \<Rightarrow> u64 \<Rightarrow> ('w, u64) sysexec" where
  "sys_openat ev dirfd name flags =
     ebind (at_kfd dirfd) (\<lambda>kfd.
       if kfd \<noteq> - 1 then
         ebind (on_vm (name_arg name)) (\<lambda>fn.
         ebind (on_files (file_openat (e_fat ev) kfd fn (ucast flags))) (\<lambda>f.
           ret (case f of None \<Rightarrow> int_res (- EBADF) | Some i \<Rightarrow> of_nat i)))
       else ret (int_res (- EBADF)))"

definition sys_open :: "'w env \<Rightarrow> u64 \<Rightarrow> u64 \<Rightarrow> ('w, u64) sysexec" where
  "sys_open ev name flags = sys_openat ev (int_res AT_FDCWD) name flags"

definition sys_close :: "'w env \<Rightarrow> u64 \<Rightarrow> ('w, u64) sysexec" where
  "sys_close ev fd =
     ebind (on_files (fd_close (e_fat ev) (int_arg fd))) (\<lambda>r. ret (int_res (if r < 0 then - EBADF else r)))"

text \<open>
  The fields of \<^verbatim>\<open>struct stat\<close> that \<^verbatim>\<open>sys_stat\<close> of \<^verbatim>\<open>remove_htif.c\<close> stores, at the physical address, and the ones that
  the file layer adds afterwards, at the virtual address.
\<close>

definition m_fields :: "stat \<Rightarrow> (stat_field \<times> u64) list" where
  "m_fields st = [(ST_dev, st_dev st), (ST_rdev, st_rdev st), (ST_mode, ucast (st_mode st)), (ST_size, st_size st),
     (ST_atime, st_time st), (ST_ctime, st_time st), (ST_blksize, st_blksize st), (ST_blocks, st_blocks st)]"

definition s_fields :: "stat \<Rightarrow> (stat_field \<times> u64) list" where
  "s_fields st = [(ST_mode, ucast (st_mode st)), (ST_ino, st_ino st), (ST_nlink, st_nlink st), (ST_uid, st_uid st),
     (ST_gid, st_gid st)]"

definition field_at :: "'w env \<Rightarrow> u64 \<Rightarrow> stat_field \<times> u64 \<Rightarrow> u64 \<times> u8 list" where
  "field_at ev base x = (base + fst (e_layout ev (fst x)), le_bytes (snd (e_layout ev (fst x))) (snd x))"

fun mwrite_all :: "(u64 \<times> u8 list) list \<Rightarrow> ('w, unit) vexec" where
  "mwrite_all [] = ret ()"
| "mwrite_all (x # xs) = ebind (mwrite (fst x) (snd x)) (\<lambda>_. mwrite_all xs)"

fun kwrite_all :: "'w fatfs \<Rightarrow> (u64 \<times> u8 list) list \<Rightarrow> ('w, unit) vexec" where
  "kwrite_all ff [] = ret ()"
| "kwrite_all ff (x # xs) = ebind (kwrite ff (fst x) (snd x)) (\<lambda>_. kwrite_all ff xs)"

text \<open>All fields are stored on success and none on an error, so that the old contents do not matter.\<close>

definition stat0 :: stat where
  "stat0 = \<lparr>st_dev = 0, st_rdev = 0, st_mode = 0, st_ino = 0, st_nlink = 0, st_uid = 0, st_gid = 0, st_size = 0, st_time = 0,
     st_blksize = 0, st_blocks = 0\<rparr>"

definition user_stat :: "'w env \<Rightarrow> u64 \<Rightarrow> (stat \<Rightarrow> ('w, int \<times> stat) kexec) \<Rightarrow> ('w, u64) sysexec" where
  "user_stat ev st op =
     on_vm (ebind (populate_mapping (e_fat ev) st (e_statsize ev) PROT_WRITE) (\<lambda>_.
       ebind (va2pa st) (\<lambda>pa.
       ebind (on_fs (op stat0)) (\<lambda>(r, v).
         if r = 0 then
           ebind (mwrite_all (map (field_at ev pa) (m_fields v))) (\<lambda>_.
           ebind (kwrite_all (e_fat ev) (map (field_at ev st) (s_fields v))) (\<lambda>_. ret 0))
         else ret (int_res r)))))"

text \<open>\<^verbatim>\<open>fstat\<close> on a standard descriptor that is not open as a file.\<close>

definition std_fields :: "bool \<Rightarrow> (stat_field \<times> u64) list" where
  "std_fields is_stdin = [(ST_mode, if is_stdin then 0x21FF else 0x81FF), (ST_dev, 0), (ST_rdev, 0), (ST_ino, 0), (ST_nlink, 1),
     (ST_uid, 0), (ST_gid, 0), (ST_blocks, 0), (ST_blksize, 0), (ST_size, 0), (ST_atime, 0), (ST_ctime, 0)]"

definition sys_fstat :: "'w env \<Rightarrow> u64 \<Rightarrow> u64 \<Rightarrow> ('w, u64) sysexec" where
  "sys_fstat ev fd st =
     ebind (on_files (file_get (int_arg fd))) (\<lambda>fo.
       case fo of
         Some f \<Rightarrow>
           ebind (user_stat ev st (file_stat (e_fat ev) f)) (\<lambda>r.
           ebind (on_files (file_decref (e_fat ev) f)) (\<lambda>_. ret r))
       | None \<Rightarrow>
           if 0 \<le> int_arg fd \<and> int_arg fd \<le> 2
           then ebind (on_vm (kwrite_all (e_fat ev) (map (field_at ev st) (std_fields (int_arg fd = 0))))) (\<lambda>_. ret 0)
           else ret (int_res (- EBADF)))"

definition sys_fstatat :: "'w env \<Rightarrow> u64 \<Rightarrow> u64 \<Rightarrow> u64 \<Rightarrow> ('w, u64) sysexec" where
  "sys_fstatat ev dirfd name st =
     ebind (at_kfd dirfd) (\<lambda>kfd.
       if kfd \<noteq> - 1 then
         ebind (on_vm (name_arg name)) (\<lambda>fn. user_stat ev st (file_statat (e_fat ev) (int_arg dirfd) fn))
       else ret (int_res (- EBADF)))"

definition sys_faccessat :: "'w env \<Rightarrow> u64 \<Rightarrow> u64 \<Rightarrow> ('w, u64) sysexec" where
  "sys_faccessat ev dirfd name =
     ebind (at_kfd dirfd) (\<lambda>kfd.
       if kfd \<noteq> - 1 then
         ebind (on_vm (kstrlen (e_fat ev) name)) (\<lambda>_.
         ebind (on_vm (name_arg name)) (\<lambda>fn.
         ebind (on_files (file_accessat (e_fat ev) stat0 kfd fn)) (\<lambda>r. ret (int_res r))))
       else ret (int_res (- EBADF)))"

definition sys_unlinkat :: "'w env \<Rightarrow> u64 \<Rightarrow> u64 \<Rightarrow> ('w, u64) sysexec" where
  "sys_unlinkat ev dirfd name =
     ebind (at_kfd dirfd) (\<lambda>kfd.
       if kfd \<noteq> - 1 then
         ebind (on_vm (kstrlen (e_fat ev) name)) (\<lambda>_.
         ebind (on_vm (name_arg name)) (\<lambda>fn.
         ebind (on_files (file_unlinkat (e_fat ev) (int_arg dirfd) fn)) (\<lambda>r. ret (int_res r))))
       else ret (int_res (- EBADF)))"

definition sys_chdir :: "'w env \<Rightarrow> u64 \<Rightarrow> ('w, u64) sysexec" where
  "sys_chdir ev path =
     ebind (on_vm (name_arg path)) (\<lambda>fn. ebind (on_files (file_chdir (e_fat ev) fn)) (\<lambda>r. ret (int_res r)))"

definition sys_getcwd :: "'w env \<Rightarrow> u64 \<Rightarrow> u64 \<Rightarrow> ('w, u64) sysexec" where
  "sys_getcwd ev buf sz =
     on_vm (ebind (populate_mapping (e_fat ev) buf sz PROT_WRITE) (\<lambda>_.
       ebind (va2pa buf) (\<lambda>pa.
       ebind (on_fs (file_getcwd (e_fat ev) sz)) (\<lambda>r.
         case r of None \<Rightarrow> ret 0 | Some bs \<Rightarrow> ebind (mwrite pa (bs @ [0])) (\<lambda>_. ret buf)))))"

definition sys_fcntl :: "'w env \<Rightarrow> u64 \<Rightarrow> u64 \<Rightarrow> ('w, u64) sysexec" where
  "sys_fcntl ev fd cmd = on_files (file_fcntl (e_fat ev) (int_arg fd) (ucast cmd))"

subsection \<open>Memory, time and identity\<close>

definition sys_brk :: "'w env \<Rightarrow> u64 \<Rightarrow> ('w, u64) sysexec" where
  "sys_brk ev pos = on_vm (do_brk (e_fat ev) pos)"

definition sys_mmap :: "'w env \<Rightarrow> u64 \<Rightarrow> u64 \<Rightarrow> u64 \<Rightarrow> u64 \<Rightarrow> u64 \<Rightarrow> u64 \<Rightarrow> ('w, u64) sysexec" where
  "sys_mmap ev addr len prot flags fd off =
     on_vm (do_mmap (e_fat ev) addr len (ucast prot) (ucast flags) (int_arg fd) off)"

definition sys_munmap :: "'w env \<Rightarrow> u64 \<Rightarrow> u64 \<Rightarrow> ('w, u64) sysexec" where
  "sys_munmap ev addr len = on_vm (ebind (do_munmap (e_fat ev) addr len) (\<lambda>r. ret (int_res r)))"

definition sys_mremap :: "('w, u64) sysexec" where
  "sys_mremap = on_vm do_mremap"

definition sys_mprotect :: "u64 \<Rightarrow> u64 \<Rightarrow> u64 \<Rightarrow> ('w, u64) sysexec" where
  "sys_mprotect addr len prot = on_vm (ebind (do_mprotect addr len (ucast prot)) (\<lambda>r. ret (int_res r)))"

definition sys_uname :: "'w env \<Rightarrow> u64 \<Rightarrow> ('w, u64) sysexec" where
  "sys_uname ev buf =
     ebind (on_vm (kwrite_all (e_fat ev)
       [(buf + 0, bytes_of ''Proxy Kernel'' @ [0]), (buf + 1 * 65, [0]), (buf + 2 * 65, bytes_of ''3.4.5'' @ [0]),
        (buf + 3 * 65, [0]), (buf + 4 * 65, [0]), (buf + 5 * 65, [0])])) (\<lambda>_. ret 0)"

definition sys_getpid :: "('w, u64) sysexec" where
  "sys_getpid = ret 0"

definition sys_getuid :: "('w, u64) sysexec" where
  "sys_getuid = ret 0"

definition sys_rt_sigaction :: "'w env \<Rightarrow> u64 \<Rightarrow> ('w, u64) sysexec" where
  "sys_rt_sigaction ev oact =
     ebind (if oact \<noteq> 0 then on_vm (kwrite (e_fat ev) oact (replicate 24 0)) else ret ()) (\<lambda>_. ret 0)"

definition CLOCK_FREQ :: u64 where "CLOCK_FREQ = 1000000000"

definition sys_time :: "'w env \<Rightarrow> u64 \<Rightarrow> ('w, u64) sysexec" where
  "sys_time ev loc =
     (let t = e_cycle ev div CLOCK_FREQ in
      ebind (if loc \<noteq> 0 then on_vm (kstore64 (e_fat ev) loc t) else ret ()) (\<lambda>_. ret t))"

definition sys_times :: "'w env \<Rightarrow> u64 \<Rightarrow> ('w, u64) sysexec" where
  "sys_times ev loc =
     ebind (on_vm (kwrite_all (e_fat ev)
       [(loc, le_bytes 8 (e_cycle ev div (CLOCK_FREQ div 1000000))), (loc + 8, le_bytes 8 0), (loc + 16, le_bytes 8 0),
        (loc + 24, le_bytes 8 0)])) (\<lambda>_. ret 0)"

definition sys_gettimeofday :: "'w env \<Rightarrow> u64 \<Rightarrow> ('w, u64) sysexec" where
  "sys_gettimeofday ev loc =
     ebind (on_vm (kwrite_all (e_fat ev)
       [(loc, le_bytes 8 (e_cycle ev div CLOCK_FREQ)),
        (loc + 8, le_bytes 8 (e_cycle ev mod CLOCK_FREQ div (CLOCK_FREQ div 1000000)))])) (\<lambda>_. ret 0)"

text \<open>Calls that are refused, or that do nothing.\<close>

definition sys_getdents :: "('w, u64) sysexec" where
  "sys_getdents = ret 0"

definition sys_stub_success :: "('w, u64) sysexec" where
  "sys_stub_success = ret 0"

definition sys_stub_nosys :: "('w, u64) sysexec" where
  "sys_stub_nosys = ret (int_res (- 88))"

subsection \<open>Dispatch\<close>

text \<open>The two tables of \<^verbatim>\<open>do_syscall\<close>, by number; the arguments are those of the call.\<close>

definition syscall_table ::
    "'w env \<Rightarrow> u64 \<Rightarrow> u64 \<Rightarrow> u64 \<Rightarrow> u64 \<Rightarrow> u64 \<Rightarrow> u64 \<Rightarrow> (u64 \<times> ('w, u64) sysexec) list" where
  "syscall_table ev a0 a1 a2 a3 a4 a5 =
     [(93, sys_exit ev), (94, sys_exit ev), (63, sys_read ev a0 a1 a2), (67, sys_pread ev a0 a1 a2 a3),
      (64, sys_write ev a0 a1 a2), (56, sys_openat ev a0 a1 a2), (57, sys_close ev a0), (80, sys_fstat ev a0 a1),
      (62, sys_lseek ev a0 a1 a2), (79, sys_fstatat ev a0 a1 a2), (35, sys_unlinkat ev a0 a1),
      (17, sys_getcwd ev a0 a1), (214, sys_brk ev a0), (160, sys_uname ev a0), (172, sys_getpid),
      (174, sys_getuid), (175, sys_getuid), (176, sys_getuid), (177, sys_getuid),
      (222, sys_mmap ev a0 a1 a2 a3 a4 a5), (215, sys_munmap ev a0 a1), (216, sys_mremap),
      (226, sys_mprotect a0 a1 a2), (134, sys_rt_sigaction ev a2), (169, sys_gettimeofday ev a0),
      (153, sys_times ev a0), (66, sys_writev ev a0 a1 a2), (48, sys_faccessat ev a0 a1), (25, sys_fcntl ev a0 a1),
      (61, sys_getdents), (78, sys_stub_nosys), (135, sys_stub_success), (29, sys_stub_nosys),
      (113, sys_stub_nosys), (165, sys_stub_nosys), (163, sys_stub_nosys), (164, sys_stub_nosys),
      (49, sys_chdir ev a0)]"

definition old_syscall_table :: "'w env \<Rightarrow> u64 \<Rightarrow> u64 \<Rightarrow> u64 \<Rightarrow> (u64 \<times> ('w, u64) sysexec) list" where
  "old_syscall_table ev a0 a1 a2 = [(1024, sys_open ev a0 a1), (1062, sys_time ev a0)]"

definition do_syscall ::
    "'w env \<Rightarrow> u64 \<Rightarrow> u64 \<Rightarrow> u64 \<Rightarrow> u64 \<Rightarrow> u64 \<Rightarrow> u64 \<Rightarrow> u64 \<Rightarrow> ('w, u64) sysexec" where
  "do_syscall ev a0 a1 a2 a3 a4 a5 n =
     (case map_of (syscall_table ev a0 a1 a2 a3 a4 a5 @ old_syscall_table ev a0 a1 a2) n of
        None \<Rightarrow> on_vm (vpanic ''bad syscall'')
      | Some f \<Rightarrow> f)"

end
