(* ===== verification/Vm_Frame.thy ===== *)
theory Vm_Frame
  imports User_Mem
begin

text \<open>
  What every computation of the kernel preserves, whatever it is made of: the invariant of the memory manager,
  and all physical memory outside the area set aside for the program.
\<close>

subsection \<open>Computations that keep a relation\<close>

definition preserves :: "('s \<Rightarrow> 's \<Rightarrow> bool) \<Rightarrow> ('s, 'e, 'a) comp \<Rightarrow> bool" where
  "preserves R m \<longleftrightarrow> (\<forall>s r s'. m s = Inr (r, s') \<longrightarrow> R s s')"

lemma keepsI: "(\<And>s r s'. m s = Inr (r, s') \<Longrightarrow> R s s') \<Longrightarrow> preserves R m"
  by (simp add: preserves_def)

lemma keepsD: "preserves R m \<Longrightarrow> m s = Inr (r, s') \<Longrightarrow> R s s'"
  by (simp add: preserves_def)

named_theorems keep_rules \<open>rules that follow the structure of a computation\<close>

text \<open>
  The contract of a relation between the states before and after: it holds of doing nothing and of doing one
  thing after another. Every computation made of parts that keep it then preserves it.
\<close>

locale step_relation =
  fixes R :: "'s \<Rightarrow> 's \<Rightarrow> bool"
  assumes R_refl: "R s s" and R_trans: "R s t \<Longrightarrow> R t u \<Longrightarrow> R s u"
begin

lemma keeps_ret: "preserves R (ret x)"
  by (simp add: preserves_def ret_apply R_refl)

lemma keeps_gets: "preserves R (gets f)"
  by (simp add: preserves_def gets_apply R_refl)

lemma keeps_bind: "preserves R m \<Longrightarrow> (\<And>x. preserves R (f x)) \<Longrightarrow> preserves R (ebind m f)"
  by (force simp: preserves_def ebind_apply intro: R_trans split: sum.splits)

lemma keeps_if: "(b \<Longrightarrow> preserves R m) \<Longrightarrow> (\<not> b \<Longrightarrow> preserves R n) \<Longrightarrow> preserves R (if b then m else n)"
  by simp

lemma keeps_option: "preserves R m \<Longrightarrow> (\<And>y. preserves R (f y)) \<Longrightarrow> preserves R (case x of None \<Rightarrow> m | Some y \<Rightarrow> f y)"
  by (cases x) simp_all

lemma keeps_prod: "(\<And>a b. preserves R (f a b)) \<Longrightarrow> preserves R (case x of (a, b) \<Rightarrow> f a b)"
  by (cases x) simp

lemma keeps_stop: "preserves R (\<lambda>s. Inl (e s))"
  by (simp add: preserves_def)

lemma keeps_modify: "(\<And>s. R s (g s)) \<Longrightarrow> preserves R (modify g)"
  by (simp add: preserves_def modify_apply)

lemma keeps_pages: "(\<And>a. preserves R (f a)) \<Longrightarrow> preserves R (for_pages a e f)"
proof (induction a e f rule: for_pages.induct)
  case (1 a e f)
  show ?case
    by (subst for_pages.simps) (intro keeps_ret keeps_bind keeps_if keeps_option keeps_stop 1)
qed

lemma keeps_ustring: "(\<And>a. preserves R (get a)) \<Longrightarrow> preserves R (ustring get a)"
proof (induction get a rule: ustring.induct)
  case (1 get a)
  show ?case by (subst ustring.simps) (intro keeps_ret keeps_bind keeps_if keeps_stop 1)
qed

lemmas keeps_intros = keeps_ret keeps_gets keeps_bind keeps_if keeps_option keeps_prod keeps_stop keeps_pages keeps_ustring

end

subsection \<open>The memory outside the program\<close>

definition in_area :: "'w vm \<Rightarrow> u64 \<Rightarrow> bool" where
  "in_area s x \<longleftrightarrow> unat (x - first_free_paddr s) < unat (cur_mmap_max s)"

definition area_geom :: "'w vm \<Rightarrow> bool" where
  "area_geom s \<longleftrightarrow> unat (cur_mmap_max s) \<le> 2 ^ 38 \<and> 4096 dvd unat (cur_mmap_max s) \<and>
     4096 dvd unat (first_free_paddr s) \<and> unat (first_free_paddr s) + unat (cur_mmap_max s) < 2 ^ 64"

definition area_step :: "'w vm \<Rightarrow> 'w vm \<Rightarrow> bool" where
  "area_step s s' \<longleftrightarrow> first_free_paddr s' = first_free_paddr s \<and> cur_mmap_max s' = cur_mmap_max s \<and>
     (area_geom s \<longrightarrow> (\<forall>x. \<not> in_area s x \<longrightarrow> ram s' x = ram s x))"

lemma area_cong:
  assumes "first_free_paddr s' = first_free_paddr s" "cur_mmap_max s' = cur_mmap_max s"
  shows "in_area s' = in_area s" "area_geom s' = area_geom s"
  using assms by (simp_all add: in_area_def area_geom_def fun_eq_iff)

interpretation ar: step_relation area_step
proof
  show "area_step s s" for s :: "'a vm" by (simp add: area_step_def)
  show "area_step s u" if "area_step s t" "area_step t u" for s t u :: "'a vm"
    using that area_cong [of t s] by (simp add: area_step_def)
qed

lemmas [keep_rules] = ar.keeps_intros

lemma area_same: "first_free_paddr s' = first_free_paddr s \<Longrightarrow> cur_mmap_max s' = cur_mmap_max s \<Longrightarrow> ram s' = ram s \<Longrightarrow> area_step s s'"
  by (simp add: area_step_def)

lemma area_on_fs [keep_rules]: "preserves area_step (on_fs m)"
  by (auto simp: preserves_def intro!: area_same dest!: on_fs_frame)

lemma area_modify [keep_rules]:
  "preserves area_step (modify (set_pte p x))" "preserves area_step (modify (upd_vmr i f))"
  "preserves area_step (modify (\<lambda>s. set_pte p (g s) s))"
  "preserves area_step (modify (\<lambda>s. s\<lparr>cur_brk := b s\<rparr>))" "preserves area_step (modify (\<lambda>s. s\<lparr>vmr_base := c s, vmrs := vs s\<rparr>))"
  by (auto simp: upd_vmr_def intro!: ar.keeps_modify area_same)

lemma area_stops [keep_rules]: "preserves area_step vwild" "preserves area_step (kassert b msg)" "preserves area_step (vpanic msg)"
  by (auto simp: preserves_def vwild_def kassert_def vpanic_def intro!: area_same split: if_splits)

lemma area_page_alloc [keep_rules]: "preserves area_step page_alloc"
  by (auto simp: preserves_def page_alloc_def Let_def intro!: area_same split: if_splits)

lemma area_walk_create [keep_rules]: "preserves area_step (walk_create a)"
proof (rule keepsI)
  fix s s' :: "'a vm" and r assume "walk_create a s = Inr (r, s')"
  then show "area_step s s'"
  proof (induction a s rule: walk_create.induct)
    case (1 addr s)
    show ?case
    proof (cases "descend (pt_words s) addr 2 (root_page_table s)")
      case (Inr p)
      then show ?thesis using 1(2) by (simp add: walk_create.simps [of addr s] ar.R_refl)
    next
      case (Inl p)
      then obtain b t where t: "page_alloc s = Inr (b, t)" "walk_create addr (set_pte p (ptd_create (ppn b)) t) = Inr (r, s')"
        using 1(2) by (auto simp: walk_create.simps [of addr s] split: sum.splits)
      have "area_step s t" by (rule keepsD [OF area_page_alloc t(1)])
      moreover have "area_step t (set_pte p (ptd_create (ppn b)) t)" by (rule area_same) simp_all
      ultimately show ?thesis using 1(1) [OF Inl t(1) refl t(2)] ar.R_trans by blast
    qed
  qed
qed

lemma area_vmr [keep_rules]: "preserves area_step vmr_table" "preserves area_step (vmr_alloc addr len f off rc prot)"
  "preserves area_step (vmr_decref ff i n)"
proof -
  show t: "preserves area_step vmr_table"
    unfolding vmr_table_def by (intro keep_rules)
  show "preserves area_step (vmr_alloc addr len f off rc prot)"
    unfolding vmr_alloc_def by (intro keep_rules t)
  show "preserves area_step (vmr_decref ff i n)"
    unfolding vmr_decref_def by (intro keep_rules)
qed

lemma area_unmap [keep_rules]: "preserves area_step (unmap_page ff a)" "preserves area_step (do_munmap_pages ff addr len)"
  "preserves area_step (do_munmap ff addr len)"
proof -
  show u: "preserves area_step (unmap_page ff a)" for a unfolding unmap_page_def by (intro keep_rules)
  show p: "preserves area_step (do_munmap_pages ff addr len)" unfolding do_munmap_pages_def by (intro keep_rules u)
  show "preserves area_step (do_munmap ff addr len)" unfolding do_munmap_def by (intro keep_rules p)
qed

subsubsection \<open>Page faults\<close>

text \<open>As documented, \<^verbatim>\<open>f_read\<close> returns at most the number of bytes it is asked for.\<close>

definition reads_bounded :: "'w fatfs \<Rightarrow> bool" where
  "reads_bounded ff \<longleftrightarrow> (\<forall>i n w. length (snd (fst (f_read ff i n w))) \<le> unat n)"

lemma file_pread_bounded:
  assumes "reads_bounded ff" "file_pread ff f n off s = Inr ((r, bs), s')"
  shows "r = of_nat (length bs)" "length bs \<le> unat (ucast n :: u32)"
proof -
  have "r = of_nat (length bs) \<and> (\<exists>w w'. f_read ff f (ucast n) w = ((0, bs), w'))"
    using assms(2) by (fastforce simp: file_pread_def exec_simps fe_def panic_def split: sum.splits if_splits prod.splits)
  then show "r = of_nat (length bs)" "length bs \<le> unat (ucast n :: u32)"
    using assms(1) unfolding reads_bounded_def by (auto, metis fst_conv snd_conv)
qed

lemma shift_aligned: "4096 dvd unat (y :: u64) \<Longrightarrow> push_bit 12 (drop_bit 12 y) = y"
proof -
  assume "4096 dvd unat y"
  then have "take_bit 12 (unat y) = 0" by (simp add: take_bit_eq_mod)
  then have "unat (take_bit 12 y) = 0" by (simp only: unsigned_take_bit_eq)
  then have "take_bit 12 y = 0" using unsigned_eq_0_iff by blast
  then show ?thesis using bits_ident [of 12 y] by simp
qed

lemma page_align: "4096 dvd unat (push_bit RISCV_PGSHIFT (ppn (addr :: u64)))"
proof -
  have "take_bit 12 (push_bit 12 (drop_bit 12 addr)) = 0"
    by (rule bit_eqI) (simp add: bit_take_bit_iff bit_push_bit_iff)
  then have "take_bit 12 (unat (push_bit 12 (drop_bit 12 addr))) = 0" by (metis unsigned_take_bit_eq unsigned_0)
  then show ?thesis by (simp add: ppn_def RISCV_PGSHIFT_def take_bit_eq_mod dvd_eq_mod_eq_0)
qed

lemma valid_page_end:
  assumes "area_geom s" "valid_user_range v 1 s" "4096 dvd unat v"
  shows "unat v + 4096 \<le> unat (cur_mmap_max s)"
proof -
  let ?M = "cur_mmap_max s"
  have vm: "v \<le> v + 1" "v + 1 \<le> ?M" using assms(2) by (simp_all add: valid_user_range_def not_less)
  have "v + 1 \<noteq> 0"
  proof
    assume "v + 1 = 0"
    with vm(1) have "v = 0" by simp
    with \<open>v + 1 = 0\<close> show False by simp
  qed
  then have "unat (v + 1) = unat v + 1" using unatSuc [of v] by (simp add: add.commute)
  then have "unat v < unat ?M" using vm(2) by (simp add: word_le_nat_alt)
  moreover obtain a where a: "unat v = 4096 * a" using assms(3) by (rule dvdE)
  moreover obtain m where m: "unat ?M = 4096 * m" using assms(1) by (auto simp: area_geom_def elim!: dvdE)
  ultimately show "unat v + 4096 \<le> unat ?M" by simp
qed

text \<open>A page of the program lies in the area.\<close>

lemma page_in_area:
  assumes "area_geom s" "valid_user_range v 1 s" "4096 dvd unat v"
    and "unat (x - push_bit RISCV_PGSHIFT (ppn v + first_free_paddr s div RISCV_PGSIZE)) < 4096"
  shows "in_area s x"
proof -
  let ?F = "first_free_paddr s" and ?M = "cur_mmap_max s"
  have "?F div RISCV_PGSIZE = drop_bit 12 ?F" by (simp add: RISCV_PGSIZE_def drop_bit_eq_div)
  moreover have "push_bit 12 (drop_bit 12 v + drop_bit 12 ?F) = push_bit 12 (drop_bit 12 v) + push_bit 12 (drop_bit 12 ?F)"
    by (rule push_bit_add)
  ultimately have pa: "push_bit RISCV_PGSHIFT (ppn v + ?F div RISCV_PGSIZE) = v + ?F"
    using assms(1,3) by (simp add: ppn_def RISCV_PGSHIFT_def shift_aligned area_geom_def)
  define k where "k = x - (v + ?F)"
  have k: "unat k < 4096" "x - ?F = v + k" using assms(4) by (simp_all add: pa k_def)
  have l: "unat v + 4096 \<le> unat ?M" by (rule valid_page_end [OF assms(1-3)])
  have "unat ?M \<le> 2 ^ 38" using assms(1) by (simp add: area_geom_def)
  then have "unat v + unat k < 2 ^ 64" using l k(1) by simp
  then have "unat (v + k) = unat v + unat k" by (rule unat_add_u64)
  then show ?thesis using l k by (simp add: in_area_def)
qed

lemma write_ram_area:
  assumes "\<And>x. unat (x - a) < length bs \<Longrightarrow> in_area s x"
  shows "area_step s (write_ram a bs s)"
  using assms by (auto simp: area_step_def write_ram_def)

lemma fill_page_area:
  assumes "reads_bounded ff" "fill_page ff vaddr pn v s = Inr (r, s')"
    and "\<And>x. unat (x - push_bit RISCV_PGSHIFT pn) < 4096 \<Longrightarrow> in_area s x"
  shows "area_step s s'"
proof (cases "v_file v")
  case None
  then have "s' = write_ram (push_bit RISCV_PGSHIFT pn) (replicate 4096 0) s"
    using assms(2) by (simp add: fill_page_def exec_simps Let_def clear_ram_eq)
  then show ?thesis using write_ram_area [of _ "replicate 4096 0" s] assms(3) by simp
next
  case (Some f)
  let ?pa = "push_bit RISCV_PGSHIFT pn" and ?len = "min RISCV_PGSIZE (v_length v - (vaddr - v_addr v))"
  from assms(2) Some obtain n bs g where g: "file_pread ff f ?len (vaddr - v_addr v + v_offset v) (fs s) = Inr ((n, bs), g)"
    and s': "s' = (if n < 4096 then write_ram (?pa + ucast n) (replicate (4096 - unat n) 0) (write_ram ?pa bs (s\<lparr>fs := g\<rparr>))
      else write_ram ?pa bs (s\<lparr>fs := g\<rparr>))"
    by (auto simp: fill_page_def exec_simps Let_def on_fs_def kassert_def clear_ram_eq unat_rest split: sum.splits if_splits)
  note b = file_pread_bounded [OF assms(1) g]
  have "unat ?len \<le> 4096" by (simp add: RISCV_PGSIZE_def min_def word_le_nat_alt)
  then have len: "length bs \<le> 4096" using b(2) by (simp add: unsigned_ucast_eq take_bit_nat_eq_self)
  let ?s = "s\<lparr>fs := g\<rparr>"
  have in_s: "in_area ?s = in_area s" by (rule area_cong) simp_all
  have "area_step s ?s" by (rule area_same) simp_all
  moreover have 1: "area_step ?s (write_ram ?pa bs ?s)" by (rule write_ram_area) (use len assms(3) in_s in simp)
  moreover have "area_step (write_ram ?pa bs ?s) s'"
  proof (cases "n < 4096")
    case True
    show ?thesis unfolding s' if_P [OF True]
    proof (rule write_ram_area)
      fix x assume x: "unat (x - (?pa + ucast n)) < length (replicate (4096 - unat n) (0 :: u8))"
      have "unat n < 2 ^ 64" using True by (simp add: word_less_nat_alt)
      then have n: "unat (ucast n :: u64) = unat n" by (simp add: unsigned_ucast_eq take_bit_nat_eq_self)
      have "x - ?pa = (x - (?pa + ucast n)) + ucast n" by simp
      moreover have "unat (x - (?pa + ucast n)) + unat (ucast n :: u64) < 2 ^ 64" using x n True by (simp add: word_less_nat_alt)
      ultimately have "unat (x - ?pa) = unat (x - (?pa + ucast n)) + unat n" using n unat_add_u64 by metis
      then have "unat (x - ?pa) < 4096" using x by simp
      moreover have "in_area (write_ram ?pa bs ?s) = in_area ?s" by (rule area_cong) (simp_all add: write_ram_def)
      ultimately show "in_area (write_ram ?pa bs ?s) x" using assms(3) in_s by simp
    qed
  next
    case False
    then show ?thesis by (simp add: s' ar.R_refl)
  qed
  ultimately show ?thesis using ar.R_trans by blast
qed

lemma page_fault_area:
  assumes "reads_bounded ff"
  shows "preserves area_step (handle_page_fault ff addr prot)"
proof (rule keepsI)
  fix s r s' assume h: "handle_page_fault ff addr prot s = Inr (r, s')"
  let ?v = "push_bit RISCV_PGSHIFT (ppn addr)"
  show "area_step s s'"
  proof (cases "walk ?v s")
    case None
    then show ?thesis using h by (simp add: handle_page_fault_def Let_def exec_simps ar.R_refl)
  next
    case (Some p)
    then consider "s' = s" | "valid_user_range ?v 1 s" "resolve_page ff ?v p s = Inr ((), s')"
      using h by (auto simp: handle_page_fault_def Let_def exec_simps split: if_splits sum.splits)
    then show ?thesis
    proof cases
      case 1
      then show ?thesis by (simp add: ar.R_refl)
    next
      case 2
      let ?pn = "ppn ?v + first_free_paddr s div RISCV_PGSIZE"
      let ?fin = "\<lambda>i. ebind (vmr_decref ff i 1) (\<lambda>_. modify (\<lambda>s. set_pte p (pte_create ?pn (prot_to_type (v_prot (vmrs s ! i)) True)) s))"
      from 2(2) obtain i s1 s2 x where i: "s1 = set_pte p x s" "fill_page ff ?v ?pn (vmrs s ! i) s1 = Inr ((), s2)"
          "?fin i s2 = Inr ((), s')"
        by (auto simp: resolve_page_def exec_simps vwild_def split: option.splits sum.splits)
      have "preserves area_step (?fin i)" by (intro keep_rules)
      then have "area_step s2 s'" using i(3) by (rule keepsD)
      moreover have a1: "area_step s s1" unfolding i(1) by (rule area_same) simp_all
      moreover have "area_step s1 s2" if "area_geom s"
      proof (rule fill_page_area [OF assms i(2)])
        fix x assume "unat (x - push_bit RISCV_PGSHIFT ?pn) < 4096"
        then have "in_area s x" by (rule page_in_area [OF that 2(1) page_align])
        then show "in_area s1 x" using area_cong(1) [of s1 s] by (simp add: i(1))
      qed
      moreover obtain m f where "s2 = s1\<lparr>ram := m, fs := f\<rparr>" using fill_page_frame [OF i(2)] by blast
      then have "area_step s1 s2" if "\<not> area_geom s"
        using that area_cong(2) [of s1 s] by (simp add: area_step_def i(1))
      ultimately show ?thesis using ar.R_trans by blast
    qed
  qed
qed


text \<open>The calls of the memory manager that may fault pages in.\<close>

lemma area_calls:
  assumes "reads_bounded ff"
  shows "preserves area_step (do_mmap_region ff addr len prot flags f off)" "preserves area_step (do_mmap ff addr len prot flags fd off)"
    "preserves area_step (do_brk ff pos)"
proof -
  note rules = keep_rules page_fault_area [OF assms]
  have alloc: "preserves area_step (vm_alloc n)" for n
    by (auto simp: preserves_def vm_alloc_def intro!: area_same split: option.splits)
  have map_page: "preserves area_step (map_page ff i a :: ('a, unit option) vexec)" for i a
    unfolding map_page_def by (intro rules)
  have populate: "preserves area_step (populate_page ff prot a :: ('a, unit option) vexec)" for prot a
    unfolding populate_page_def by (intro rules)
  show region: "preserves area_step (do_mmap_region ff addr len prot flags f off)" for addr len prot flags f off
    unfolding do_mmap_region_def choose_addr_def Let_def by (intro rules alloc map_page populate)
  have brk_max: "preserves area_step (modify (\<lambda>s. if a < cur_brk_max s then s\<lparr>cur_brk_max := a\<rparr> else s))"
      "preserves area_step (modify (\<lambda>s. if cur_brk s = 0 then s\<lparr>cur_brk := b s\<rparr> else s))" for a b
    by (auto intro!: ar.keeps_modify area_same)
  show "preserves area_step (do_mmap ff addr len prot flags fd off)" unfolding do_mmap_def by (intro rules region brk_max)
  show "preserves area_step (do_brk ff pos)" unfolding do_brk_def Let_def by (intro rules region brk_max)
qed

lemma area_mprotect: "preserves area_step (do_mprotect addr len prot)"
proof -
  have "preserves area_step (protect_page prot a)" for a unfolding protect_page_def by (intro keep_rules)
  then show ?thesis unfolding do_mprotect_def by (intro keep_rules)
qed


subsection \<open>What accesses to the memory of the program keep\<close>

definition vm_kept :: "'w vm \<Rightarrow> 'w vm \<Rightarrow> bool" where
  "vm_kept s s' \<longleftrightarrow> (vm_inv (\<lambda>_. 0) s \<longrightarrow> vm_inv (\<lambda>_. 0) s' \<and> area_step s s')"

interpretation vk: step_relation vm_kept
  by unfold_locales (auto simp: vm_kept_def ar.R_refl intro: ar.R_trans)

lemmas [keep_rules] = vk.keeps_intros

lemma vm_inv_geom: "vm_inv d s \<Longrightarrow> area_geom s"
  by (simp add: vm_inv_def vm_geom_def area_geom_def)

lemma vm_keptI: "preserves area_step m \<Longrightarrow> (\<And>s r s'. vm_inv (\<lambda>_. 0) s \<Longrightarrow> m s = Inr (r, s') \<Longrightarrow> vm_inv (\<lambda>_. 0) s') \<Longrightarrow> preserves vm_kept m"
  by (auto simp: preserves_def vm_kept_def)

lemma on_fs_kept [keep_rules]: "preserves vm_kept (on_fs m)"
  by (rule vm_keptI [OF area_on_fs]) (auto dest!: on_fs_frame)

lemma stops_kept [keep_rules]: "preserves vm_kept vwild" "preserves vm_kept (vpanic msg)"
  by (simp_all add: preserves_def vwild_def vpanic_def)

lemma page_fault_kept [keep_rules]: "reads_bounded ff \<Longrightarrow> preserves vm_kept (handle_page_fault ff a prot)"
  by (rule vm_keptI [OF page_fault_area]) (use page_fault_spec [where d = "\<lambda>_. 0"] in blast)+

lemma touch_kept [keep_rules]: "reads_bounded ff \<Longrightarrow> preserves vm_kept (touch ff prot a)"
  unfolding touch_def by (intro keep_rules)

lemma kload_kept [keep_rules]: "reads_bounded ff \<Longrightarrow> preserves vm_kept (kload ff a)"
  unfolding kload_def by (intro keep_rules)

lemma kread_kept [keep_rules]: "reads_bounded ff \<Longrightarrow> preserves vm_kept (kread ff a n)"
  by (induction n arbitrary: a) (auto intro!: keep_rules)

lemma populate_kept [keep_rules]: "reads_bounded ff \<Longrightarrow> preserves vm_kept (populate_mapping ff start sz prot)"
  unfolding populate_mapping_def by (intro keep_rules)

lemma va2pa_kept [keep_rules]: "preserves vm_kept (va2pa a)"
  by (auto simp: preserves_def va2pa_def vk.R_refl split: sum.splits option.splits)

lemma mread_kept [keep_rules]: "preserves vm_kept (mread pa n)"
  by (auto simp: preserves_def mread_def vk.R_refl split: if_splits)

lemma name_kept [keep_rules]: "preserves vm_kept (name_arg a)" "reads_bounded ff \<Longrightarrow> preserves vm_kept (kstrlen ff a)"
proof -
  have "preserves vm_kept (peek a)" for a by (auto simp: preserves_def peek_def vk.R_refl split: if_splits)
  then show "preserves vm_kept (name_arg a)" unfolding name_arg_def by (intro keep_rules)
  show "preserves vm_kept (kstrlen ff a)" if "reads_bounded ff" unfolding kstrlen_def by (intro keep_rules that)
qed

lemma write_ram_inv: "vm_inv d (write_ram a bs s) = vm_inv d s"
  by (simp add: write_ram_def)

lemma mwrite_kept [keep_rules]: "preserves vm_kept (mwrite pa bs)"
proof (rule keepsI)
  fix s :: "'a vm" and r s' assume m: "mwrite pa bs s = Inr (r, s')"
  then have s': "s' = write_ram pa bs s" "in_program pa (length bs) s" by (auto simp: mwrite_def split: if_splits)
  have "area_step s (write_ram pa bs s)"
  proof (rule write_ram_area)
    fix x assume x: "unat (x - pa) < length bs"
    let ?F = "first_free_paddr s"
    have l: "unat (pa - ?F) + length bs \<le> unat (cur_mmap_max s)" using s'(2) x by (auto simp: in_program_def)
    also have "\<dots> < 2 ^ 64" using unsigned_less [where w = "cur_mmap_max s" and ?'a = nat] by simp
    finally have "unat (x - pa) + unat (pa - ?F) < 2 ^ 64" using x by simp
    then have "unat (x - pa + (pa - ?F)) = unat (x - pa) + unat (pa - ?F)" by (rule unat_add_u64)
    then show "in_area s x" using x l by (simp add: in_area_def)
  qed
  then show "vm_kept s s'" by (simp add: vm_kept_def s' write_ram_inv)
qed


subsubsection \<open>Stores\<close>

lemma canonical_user: "unat a < 2 ^ 38 \<Longrightarrow> canonical a"
proof -
  assume a: "unat a < 2 ^ 38"
  then have "\<not> bit a 38" by (metis bit_take_bit_iff less_irrefl u64_take_bit_self)
  moreover have "take_bit 38 a = a" using a by (rule u64_take_bit_self)
  ultimately show "canonical a" by (simp add: canonical_def signed_take_bit_eq_if_positive)
qed

lemma vpn_user: "unat a < 2 ^ 39 \<Longrightarrow> vpn a = drop_bit 12 a"
  using vpn_unat [of a] unat_drop_bit_u64 [of 12 a] by (simp add: word_unat_eq_iff)

lemma vpn_of_page: "vpn (push_bit RISCV_PGSHIFT (ppn a)) = vpn a"
  by (rule bit_eqI) (auto simp: vpn_def ppn_def RISCV_PGSHIFT_def bit_take_bit_iff bit_drop_bit_eq bit_push_bit_iff)

lemma user_in_user:
  assumes "vm_inv d s" "a < cur_mmap_max s"
  shows "in_user s a" "unat a < 2 ^ 38"
proof -
  have "unat a < unat (cur_mmap_max s)" "unat (cur_mmap_max s) \<le> 2 ^ 38"
    using assms(2) vm_invD(2) [OF assms(1)] by (simp_all add: word_less_nat_alt vm_geom_def)
  then show "unat a < 2 ^ 38" by simp
  then have "unat (vpn a) = unat a div 4096" by (intro vpn_unat) simp
  then show "in_user s a" using \<open>unat a < unat (cur_mmap_max s)\<close> by (simp add: in_user_def)
qed

text \<open>Physical memory is one piece: the address of a byte of the program is its virtual address plus a constant.\<close>

lemma paddr_user:
  assumes "vm_inv d s" "a < cur_mmap_max s" "pte_of s a AND PTE_V \<noteq> 0"
  shows "paddr a s = first_free_paddr s + a"
proof -
  let ?F = "first_free_paddr s"
  note u = user_in_user [OF assms(1,2)]
  have "pte_ppn (pte_of s a) = drop_bit 12 a + drop_bit 12 ?F"
    using vm_invD(3) [OF assms(1), of a] assms(3) u vpn_user [of a]
    by (simp add: entry_ok_def RISCV_PGSIZE_def drop_bit_eq_div)
  moreover have "4096 dvd unat ?F" using vm_invD(2) [OF assms(1)] by (simp add: vm_geom_def)
  ultimately have "push_bit 12 (pte_ppn (pte_of s a)) = push_bit 12 (drop_bit 12 a) + ?F"
    by (simp add: push_bit_add shift_aligned)
  moreover have "a AND (RISCV_PGSIZE - 1) = take_bit 12 a"
    by (simp add: RISCV_PGSIZE_def take_bit_eq_mask mask_eq_exp_minus_1)
  ultimately have "paddr a s = push_bit 12 (drop_bit 12 a) + ?F + take_bit 12 a"
    by (simp add: paddr_def RISCV_PGSHIFT_def)
  also have "\<dots> = ?F + (push_bit 12 (drop_bit 12 a) + take_bit 12 a)" by (simp add: algebra_simps)
  finally show ?thesis by (simp only: bits_ident)
qed

lemma and_part:
  fixes y p b :: u64
  assumes "y AND p = p" "p AND b \<noteq> 0"
  shows "y AND b \<noteq> 0"
proof
  assume z: "y AND b = 0"
  have "p AND b = (y AND p) AND b" by (simp only: assms(1))
  also have "\<dots> = p AND (y AND b)" by (simp only: ac_simps)
  finally show False using assms(2) z by simp
qed

lemma need_in_perms:
  assumes "prot = PROT_READ \<or> prot = PROT_WRITE"
  shows "pte_create 0 (prot_to_type prot True) AND PTE_V \<noteq> 0" "pte_create 0 (prot_to_type prot True) AND need_bit prot \<noteq> 0"
  using assms by (auto simp: pte_create_def prot_to_type_def need_bit_def vm_consts pt_consts Let_def)

lemma page_fault_ok:
  assumes "vm_inv (\<lambda>_. 0) s" "handle_page_fault ff a prot s = Inr (0, s')" "prot = PROT_READ \<or> prot = PROT_WRITE"
  shows "accessible prot a s' \<and> a < cur_mmap_max s'"
proof -
  let ?v = "push_bit RISCV_PGSHIFT (ppn a)"
  let ?p = "pte_create 0 (prot_to_type prot True)"
  have sp: "vm_inv (\<lambda>_. 0) s'" "same_cfg s s'" using page_fault_spec [OF assms(1) _ assms(2)] by simp_all
  obtain p where w: "walk ?v s = Some p"
    using assms(2) by (cases "walk ?v s") (auto simp: handle_page_fault_def Let_def exec_simps)
  have "pt_words s p \<noteq> 0 \<and> valid_user_range ?v 1 s"
  proof (rule ccontr)
    assume "\<not> ?thesis"
    then show False using assms(2) w by (auto simp: handle_page_fault_def Let_def exec_simps)
  qed
  then have x: "pt_words s p \<noteq> 0" and v: "valid_user_range ?v 1 s" by simp_all
  note u = valid_page [OF assms(1) v]
  have m: "(if pt_words s p AND PTE_V = 0 then resolve_page ff ?v p else ret ()) s = Inr ((), s') \<and> pt_words s' p AND ?p = ?p"
    using assms(2) w x v unfolding handle_page_fault_def Let_def by (auto simp: exec_simps prod_eq_iff split: sum.splits if_splits)
  have e: "pte_of s' ?v = pt_words s' p"
  proof (cases "pt_words s p AND PTE_V = 0")
    case False
    then show ?thesis using w m by (simp add: pte_of_walk ret_apply)
  next
    case True
    then have r: "pte_of s ?v \<noteq> 0" "pte_of s ?v AND PTE_V = 0" "resolve_page ff ?v p s = Inr ((), s')"
      using w x m pte_of_walk [OF w] by simp_all
    have "\<exists>i m f x. s' = set_pte p x ((upd_vmr i drop_ref s)\<lparr>ram := m, fs := f\<rparr>)"
      by (rule resolve_page_spec [OF assms(1) _ w u r]) (simp, blast)
    then obtain i m f x where s': "s' = set_pte p x ((upd_vmr i drop_ref s)\<lparr>ram := m, fs := f\<rparr>)" by blast
    let ?t = "(upd_vmr i drop_ref s)\<lparr>ram := m, fs := f\<rparr>"
    have "pt_wf ?t" "walk ?v ?t = Some p" using vm_invD(1) [OF assms(1)] w by simp_all
    from pt.put_get [OF this, of x ?v] show ?thesis by (simp add: s')
  qed
  have "pte_of s' a = pte_of s' ?v" by (rule pte_of_vpn) (simp add: vpn_of_page)
  then have "pte_of s' a AND ?p = ?p" using e m by simp
  then have "pte_of s' a AND PTE_V \<noteq> 0" "pte_of s' a AND need_bit prot \<noteq> 0"
    using and_part need_in_perms [OF assms(3)] by blast+
  moreover have "a < cur_mmap_max s'"
  proof -
    have l: "unat ?v + 4096 \<le> unat (cur_mmap_max s)" by (rule valid_page_end [OF vm_inv_geom [OF assms(1)] v page_align])
    have t: "unat (take_bit 12 a) < 4096" by (simp add: take_bit_eq_mod unat_mod_distrib)
    have "unat (cur_mmap_max s) < 2 ^ 64" using unsigned_less [where w = "cur_mmap_max s" and ?'a = nat] by simp
    then have "unat ?v + unat (take_bit 12 a) < 2 ^ 64" using l t by simp
    then have "unat (?v + take_bit 12 a) = unat ?v + unat (take_bit 12 a)" by (rule unat_add_u64)
    moreover have "?v + take_bit 12 a = a" by (simp add: ppn_def RISCV_PGSHIFT_def bits_ident)
    ultimately have "unat a < unat (cur_mmap_max s)" using l t by simp
    then show ?thesis using sp(2) by (simp add: word_less_nat_alt same_cfg_def)
  qed
  ultimately show ?thesis using canonical_user user_in_user(2) [OF sp(1)] by (auto simp: accessible_def)
qed


lemma touch_user:
  assumes "vm_inv (\<lambda>_. 0) s" "touch ff prot a s = Inr (r, s')" "prot = PROT_READ \<or> prot = PROT_WRITE"
  shows "vm_inv (\<lambda>_. 0) s'" "accessible prot a s'" "a < cur_mmap_max s'"
proof -
  consider "accessible prot a s" "a < cur_mmap_max s" "s' = s" | "handle_page_fault ff a prot s = Inr (0, s')"
    using assms(2) by (auto simp: touch_def exec_simps vwild_def vpanic_def split: if_splits sum.splits)
  then have "vm_inv (\<lambda>_. 0) s' \<and> accessible prot a s' \<and> a < cur_mmap_max s'"
    using assms(1) page_fault_ok [OF assms(1) _ assms(3)] page_fault_spec [OF assms(1)] by cases auto
  then show "vm_inv (\<lambda>_. 0) s'" "accessible prot a s'" "a < cur_mmap_max s'" by simp_all
qed

lemma user_byte_in_area:
  assumes "vm_inv d s" "accessible prot a s" "a < cur_mmap_max s"
  shows "paddr a s = first_free_paddr s + a" "in_area s (paddr a s)"
proof -
  show "paddr a s = first_free_paddr s + a" using assms by (intro paddr_user) (simp_all add: accessible_def)
  then show "in_area s (paddr a s)" using assms(3) by (simp add: in_area_def word_less_nat_alt)
qed

lemma kstore_kept [keep_rules]:
  assumes "reads_bounded ff"
  shows "preserves vm_kept (kstore ff a b)"
proof (rule keepsI)
  fix s r s' assume "kstore ff a b s = Inr (r, s')"
  then obtain s1 where s1: "touch ff PROT_WRITE a s = Inr ((), s1)" "s' = s1\<lparr>ram := (ram s1)(paddr a s1 := b)\<rparr>"
    by (auto simp: kstore_def exec_simps split: sum.splits)
  show "vm_kept s s'" unfolding vm_kept_def
  proof
    assume i: "vm_inv (\<lambda>_. 0) s"
    note t = touch_user [OF i s1(1) disjI2 [OF refl]]
    have "area_step s s1" using keepsD [OF touch_kept [OF assms] s1(1)] i by (simp add: vm_kept_def)
    moreover have "area_step s1 s'" using user_byte_in_area [OF t] by (auto simp: area_step_def s1(2))
    ultimately show "vm_inv (\<lambda>_. 0) s' \<and> area_step s s'" using t(1) ar.R_trans by (auto simp: s1(2))
  qed
qed

lemma kwrite_kept [keep_rules]: "reads_bounded ff \<Longrightarrow> preserves vm_kept (kwrite ff a bs)"
  by (induction bs arbitrary: a) (auto intro!: keep_rules)

subsubsection \<open>The calls of the memory manager\<close>

lemma mprotect_kept [keep_rules]: "preserves vm_kept (do_mprotect addr len prot)"
proof (rule vm_keptI [OF area_mprotect])
  fix s r s' assume "vm_inv (\<lambda>_. 0) s" and m: "do_mprotect addr len prot s = Inr (r, s')"
  then show "vm_inv (\<lambda>_. 0) s'" using ensuresD [OF mprotect_inv _ m, of "\<lambda>_. 0" s] by simp
qed

lemma memory_kept [keep_rules]:
  "reads_bounded ff \<Longrightarrow> preserves vm_kept (do_brk ff pos)" "preserves vm_kept (do_munmap ff addr len)" "preserves vm_kept do_mremap"
proof -
  show "preserves vm_kept (do_brk ff pos)" if "reads_bounded ff"
    by (rule vm_keptI [OF area_calls(3) [OF that]]) (use brk_spec in blast)
  show "preserves vm_kept (do_munmap ff addr len)" by (rule vm_keptI [OF area_unmap(3)]) (use munmap_spec in blast)
  show "preserves vm_kept do_mremap" by (simp add: do_mremap_def vk.keeps_ret)
qed

lemma mmap_kept:
  assumes "reads_bounded ff" "mmap_len_ok s len flags \<or> len = 0" "do_mmap ff addr len prot flags fd off s = Inr (r, s')"
  shows "vm_kept s s'"
  using mmap_spec [OF _ assms(2,3)] keepsD [OF area_calls(2) [OF assms(1)] assms(3)] by (simp add: vm_kept_def)

end
