(* ===== verification/Pk_Program.thy ===== *)
theory Pk_Program
  imports Pk_Trap
begin

text \<open>
  What the proxy kernel promises to a program, over its traps and system calls: confinement, transparent
  traps, and what \<^verbatim>\<open>read\<close> and \<^verbatim>\<open>write\<close> do to its memory and to the console.
\<close>

subsection \<open>Confinement\<close>


subsection \<open>Registers\<close>

lemma no_handler_panics: "kpanic msg s = Inr (r, s') \<longleftrightarrow> False"
  by (simp add: kpanic_def on_vm_def vpanic_def)

lemma nth_upd: "i < length xs \<Longrightarrow> xs[k := v] ! i = (if i = k then v else xs ! i)"
  by (cases "k = i") simp_all


subsection \<open>Reading a file into the memory of the program\<close>

text \<open>A buffer whose pages are present and writable.\<close>

definition buffer_ok :: "u32 \<Rightarrow> u64 \<Rightarrow> u64 \<Rightarrow> 'w vm \<Rightarrow> bool" where
  "buffer_ok prot buf n s \<longleftrightarrow> unat buf + unat n \<le> unat (cur_mmap_max s) \<and>
     (\<forall>a. buf AND NOT (RISCV_PGSIZE - 1) \<le> a \<and> a < buf + n \<longrightarrow> accessible prot a s)"

lemma touch_present: "accessible prot a s \<Longrightarrow> a < cur_mmap_max s \<Longrightarrow> touch ff prot a s = Inr ((), s)"
  by (simp add: touch_def exec_simps)

lemma pages_present:
  assumes "\<And>b. a \<le> b \<Longrightarrow> b < e \<Longrightarrow> f b s = Inr (None, s)" "unat e < 2 ^ 63"
  shows "for_pages a e f s = Inr (None, s)"
  using assms
proof (induction a e f rule: for_pages.induct)
  case (1 a e f)
  show ?case
  proof (cases "a < e")
    case True
    then have l: "unat a < 2 ^ 63" using 1(3) by (simp add: word_less_nat_alt)
    then have "unat (a + RISCV_PGSIZE) = unat a + 4096"
      using unat_add_u64 [of a RISCV_PGSIZE] by (simp add: RISCV_PGSIZE_def)
    then have w: "a \<le> a + RISCV_PGSIZE" by (simp add: word_le_nat_alt)
    have n: "f b s = Inr (None, s)" if "a + RISCV_PGSIZE \<le> b" "b < e" for b
      using 1(2) that w order_trans by blast
    have "for_pages (a + RISCV_PGSIZE) e f s = Inr (None, s)"
      using 1(1) [OF True] n w 1(3) by (simp add: not_less)
    then show ?thesis using 1(2) [of a] True w by (simp add: for_pages.simps [of a] exec_simps not_less)
  next
    case False
    then show ?thesis by (simp add: for_pages.simps [of a] ret_apply)
  qed
qed

lemma populate_present:
  assumes "vm_inv d s" "buffer_ok (if prot AND PROT_WRITE \<noteq> 0 then PROT_WRITE else PROT_READ) buf n s"
  shows "populate_mapping ff buf n prot s = Inr ((), s)"
proof -
  have m: "unat (cur_mmap_max s) \<le> 2 ^ 38" using vm_invD(2) [OF assms(1)] by (simp add: vm_geom_def)
  have b: "unat buf + unat n \<le> unat (cur_mmap_max s)" using assms(2) by (simp add: buffer_ok_def)
  then have e: "unat (buf + n) = unat buf + unat n" using m by (intro unat_add_u64) simp
  then have "b < cur_mmap_max s" if "b < buf + n" for b using that \<open>unat buf + unat n \<le> _\<close> by (simp add: word_less_nat_alt)
  then have "for_pages (buf AND NOT (RISCV_PGSIZE - 1)) (buf + n)
      (\<lambda>a. ebind (touch ff (if prot AND PROT_WRITE \<noteq> 0 then PROT_WRITE else PROT_READ) a) (\<lambda>_. ret (None :: unit option))) s =
      Inr (None, s)"
    using assms(2) e b m by (intro pages_present) (simp_all add: buffer_ok_def touch_present exec_simps)
  then show ?thesis by (simp add: populate_mapping_def exec_simps)
qed

text \<open>The byte that the program sees at an address.\<close>

definition byte_at :: "'w vm \<Rightarrow> u64 \<Rightarrow> u8" where
  "byte_at s a = ram s (paddr a s)"

lemma va2pa_present: "pte_of s a AND PTE_V \<noteq> 0 \<Longrightarrow> va2pa a s = Inr (paddr a s, s)"
  by (auto simp: va2pa_def va_trans_def paddr_def pte_of_def split: option.splits)

lemma paddr_frame [simp]: "paddr a (s\<lparr>ram := m\<rparr>) = paddr a s" "paddr a (s\<lparr>fs := f\<rparr>) = paddr a s"
  "paddr a (write_ram b bs s) = paddr a s"
  by (simp_all add: paddr_def write_ram_def)

text \<open>Bytes written at the physical address of a buffer are the bytes of the buffer, also across pages.\<close>

lemma mwrite_seen:
  assumes "vm_inv d s" "unat buf + length bs \<le> unat (cur_mmap_max s)" "buf < cur_mmap_max s" "a < cur_mmap_max s"
    "pte_of s a AND PTE_V \<noteq> 0" "pte_of s buf AND PTE_V \<noteq> 0"
  shows "mwrite (paddr buf s) bs s = Inr ((), write_ram (paddr buf s) bs s)"
    "byte_at (write_ram (paddr buf s) bs s) a = (if unat (a - buf) < length bs then bs ! unat (a - buf) else byte_at s a)"
proof -
  note pb = paddr_user [OF assms(1,3,6)] and pa = paddr_user [OF assms(1,4,5)]
  show "mwrite (paddr buf s) bs s = Inr ((), write_ram (paddr buf s) bs s)"
    using assms(2) by (simp add: mwrite_def in_program_def pb)
  have "paddr a s - paddr buf s = a - buf" by (simp add: pa pb)
  then show "byte_at (write_ram (paddr buf s) bs s) a = (if unat (a - buf) < length bs then bs ! unat (a - buf) else byte_at s a)"
    by (simp add: byte_at_def write_ram_def paddr_def)
qed

lemma file_get_open:
  assumes "f < MAX_FILES" "refcnt (files t ! f) \<noteq> 0"
  shows "file_get (int f) t = Inr (Some f, upd_file f (\<lambda>x. x\<lparr>refcnt := refcnt (files t ! f) + 1\<rparr>) t)"
  using assms by (simp add: file_get_def exec_simps)

lemma file_decref_shared:
  assumes "refcnt (files t ! f) > 2"
  shows "file_decref ff f t = Inr ((), upd_file f (\<lambda>x. x\<lparr>refcnt := refcnt (files t ! f) - 1\<rparr>) t)"
  using assms by (simp add: file_decref_def exec_simps)

lemma file_read_refcnt:
  assumes "file_read ff f n t = Inr (r, t')" "f < length (files t)"
  shows "refcnt (files t' ! f) = refcnt (files t ! f)"
  using assms by (auto simp: file_read_def exec_simps fe_apply upd_file_def split: prod.splits)

lemma int_arg_of_nat:
  assumes "f < MAX_FILES"
  shows "int_arg (of_nat f) = int f"
proof -
  have "sint (of_nat f :: u32) = int f"
    using assms by (simp add: MAX_FILES_def signed_of_nat signed_take_bit_int_eq_self)
  moreover have "ucast (of_nat f :: u64) = (of_nat f :: u32)"
    using assms by (simp add: unsigned_of_nat MAX_FILES_def take_bit_nat_eq_self)
  ultimately show ?thesis by (simp add: int_arg_def)
qed

lemma buffer_start:
  assumes "buffer_ok prot buf n s" "0 < n" "unat (cur_mmap_max s) \<le> 2 ^ 38"
  shows "accessible prot buf s" "buf < cur_mmap_max s"
proof -
  have b: "unat buf + unat n \<le> unat (cur_mmap_max s)" using assms(1) by (simp add: buffer_ok_def)
  have n: "0 < unat n" using assms(2) by (simp add: word_less_nat_alt)
  then show "buf < cur_mmap_max s" using b by (simp add: word_less_nat_alt)
  have "unat (buf + n) = unat buf + unat n" using b assms(3) by (intro unat_add_u64) simp
  then have "buf < buf + n" using n by (simp add: word_less_nat_alt)
  then show "accessible prot buf s" using assms(1) word_and_le2 [of buf] by (simp add: buffer_ok_def)
qed


subsection \<open>Writing to the console\<close>

definition readable :: "'w vm \<Rightarrow> u64 \<Rightarrow> nat \<Rightarrow> bool" where
  "readable s a n \<longleftrightarrow> list_all (\<lambda>i. accessible PROT_READ (a + of_nat i) s \<and> a + of_nat i < cur_mmap_max s) [0..<n]"

definition bytes_at :: "'w vm \<Rightarrow> u64 \<Rightarrow> nat \<Rightarrow> u8 list" where
  "bytes_at s a n = map (\<lambda>i. byte_at s (a + of_nat i)) [0..<n]"

lemma length_bytes_at [simp]: "length (bytes_at s a n) = n"
  by (simp add: bytes_at_def)

lemma bytes_at_Suc: "bytes_at s a (Suc n) = byte_at s a # bytes_at s (a + 1) n"
  by (simp add: bytes_at_def map_upt_Suc add.assoc del: upt_Suc)

lemma readable_Suc: "readable s a (Suc n) \<longleftrightarrow> accessible PROT_READ a s \<and> a < cur_mmap_max s \<and> readable s (a + 1) n"
proof -
  have "[0..<Suc n] = 0 # map Suc [0..<n]" by (simp add: map_Suc_upt upt_conv_Cons del: upt_Suc)
  then show ?thesis by (simp add: readable_def list.pred_map comp_def add.assoc del: upt_Suc)
qed

lemma kload_present: "accessible PROT_READ a s \<Longrightarrow> a < cur_mmap_max s \<Longrightarrow> kload ff a s = Inr (byte_at s a, s)"
  by (simp add: kload_def exec_simps touch_present byte_at_def)

lemma kread_present: "readable s a n \<Longrightarrow> kread ff a n s = Inr (bytes_at s a n, s)"
proof (induction n arbitrary: a)
  case 0
  then show ?case by (simp add: bytes_at_def ret_apply)
next
  case (Suc n)
  then show ?case by (simp add: readable_Suc kload_present exec_simps bytes_at_Suc)
qed

lemma send_present:
  "readable (kvm s) buf n \<Longrightarrow> sbi_send_loop ev buf n s = Inr ((), s\<lparr>con := con s @ bytes_at (kvm s) buf n\<rparr>)"
proof (induction n arbitrary: buf s)
  case 0
  then show ?case by (simp add: bytes_at_def ret_apply)
next
  case (Suc n)
  then show ?case by (simp add: readable_Suc kload_present on_vm_def exec_simps bytes_at_Suc)
qed

text \<open>A standard descriptor that is not redirected to a file.\<close>

definition console_fd :: "'w vm \<Rightarrow> u64 \<Rightarrow> bool" where
  "console_fd s fd \<longleftrightarrow> int_arg fd \<in> {1, 2} \<and> refcnt (files (fs s) ! nat (int_arg fd)) = 0"

lemma write_present:
  assumes "console_fd (kvm s) fd" "readable (kvm s) buf (unat n)" "unat n < 2 ^ 63"
  shows "sys_write ev fd buf n s = Inr (n, s\<lparr>con := con s @ bytes_at (kvm s) buf (unat n)\<rparr>)"
proof -
  have "int (unat n) < int (2 ^ 63)" using assms(3) by (simp only: of_nat_less_iff)
  then have "uint n < 2 ^ 63" by (simp only: uint_nat of_nat_power of_nat_numeral)
  then have "signed_take_bit 63 (uint n) = uint n" 
    by (intro signed_take_bit_int_eq_self order_trans [OF _ unsigned_greater_eq]) simp_all
  then have "sint n = uint n" by (simp add: sint_uint)
  then have "nat (sint n) = unat n" by (simp only: nat_uint_eq)
  moreover have "file_get (int_arg fd) (fs (kvm s)) = Inr (None, fs (kvm s))"
    using assms(1) by (auto simp: console_fd_def file_get_def MAX_FILES_def exec_simps)
  ultimately show ?thesis
    using assms(1) send_present [OF assms(2)]
    by (auto simp: sys_write_def sbi_send_buf_def with_file_def on_files_def on_vm_def on_fs_def exec_simps console_fd_def)
qed

text \<open>The array of an \<^verbatim>\<open>iovec\<close> list in memory: pairs of an address and a length.\<close>

fun iovec_at :: "'w vm \<Rightarrow> u64 \<Rightarrow> (u64 \<times> u64) list \<Rightarrow> bool" where
  "iovec_at s a [] \<longleftrightarrow> True"
| "iovec_at s a ((base, len) # ps) \<longleftrightarrow> readable s a 8 \<and> readable s (a + 8) 8 \<and>
     le_word (bytes_at s a 8) = base \<and> le_word (bytes_at s (a + 8) 8) = len \<and>
     readable s base (unat len) \<and> iovec_at s (a + 16) ps"

definition gathered :: "'w vm \<Rightarrow> (u64 \<times> u64) list \<Rightarrow> u8 list" where
  "gathered s ps = concat (map (\<lambda>(base, len). bytes_at s base (unat len)) ps)"

lemma length_gathered: "length (gathered s ps) = sum_list (map (\<lambda>p. unat (snd p)) ps)"
  by (simp add: gathered_def length_concat comp_def case_prod_beta)

lemma writev_present:
  assumes "console_fd (kvm s) fd" "iovec_at (kvm s) iov ps" "unat acc + length (gathered (kvm s) ps) < 2 ^ 63"
  shows "writev_loop ev fd iov (length ps) acc s =
    Inr (acc + of_nat (length (gathered (kvm s) ps)), s\<lparr>con := con s @ gathered (kvm s) ps\<rparr>)"
  using assms
proof (induction ps arbitrary: iov acc s)
  case Nil
  then show ?case by (simp add: gathered_def ret_apply)
next
  case (Cons p ps)
  obtain base len where p: "p = (base, len)" by (cases p)
  let ?v = "kvm s" let ?g = "gathered ?v ps"
  have l: "length (gathered ?v (p # ps)) = unat len + length ?g" by (simp add: length_gathered p)
  then have b: "unat acc + (unat len + length ?g) < 2 ^ 63" using Cons.prems(3) by simp
  then have "unat (acc + len) = unat acc + unat len" by (intro unat_add_u64) simp
  then have "writev_loop ev fd (iov + 16) (length ps) (acc + len) (s\<lparr>con := con s @ bytes_at ?v base (unat len)\<rparr>) =
      Inr (acc + len + of_nat (length ?g), s\<lparr>con := con s @ bytes_at ?v base (unat len) @ ?g\<rparr>)"
    using Cons.IH [of "s\<lparr>con := con s @ bytes_at ?v base (unat len)\<rparr>" "iov + 16" "acc + len"] Cons.prems(1,2) b by (simp add: p)
  moreover have "\<not> sint len < 0" using b by (simp add: sint_neg_iff_u64)
  moreover have "sys_write ev fd base len s = Inr (len, s\<lparr>con := con s @ bytes_at ?v base (unat len)\<rparr>)"
    using Cons.prems b p by (intro write_present) simp_all
  ultimately show ?case
    using Cons.prems(2) by (simp add: p l kload64_def kread_present on_vm_def exec_simps gathered_def)
qed

text \<open>
  C20 (functional): \<^verbatim>\<open>writev\<close> on standard output or standard error, when it is not redirected, sends the bytes of all buffers
  of the list to the console, in order, and returns their number; it changes nothing else. A list with one
  buffer is \<^verbatim>\<open>write\<close>.
\<close>

theorem sys_writev_gathers:
  assumes "console_fd (kvm s) fd" "iovec_at (kvm s) iov ps" "int_arg cnt = int (length ps)"
    "length (gathered (kvm s) ps) < 2 ^ 63"
  shows "sys_writev ev fd iov cnt s =
    Inr (of_nat (length (gathered (kvm s) ps)), s\<lparr>con := con s @ gathered (kvm s) ps\<rparr>)"
  using writev_present [OF assms(1,2), of 0] assms(3,4) by (simp add: sys_writev_def)

subsection \<open>An example\<close>

text \<open>The kernel in the last state of the example of the memory manager: one page of the program is present.\<close>

definition demo_env :: "toy_world env" where
  "demo_env =
     \<lparr>e_fat = toy_fat, e_statsize = 128, e_layout = (\<lambda>_. (0, 8)), e_cycle = 3000005000, e_instret = 7, e_counter = (\<lambda>c i. 0),
      spec_case = []\<rparr>"

definition demo_kern :: "toy_world vm \<Rightarrow> toy_world kern" where
  "demo_kern v = \<lparr>kvm = v, con = [], already_exited = False,
     pfc = replicate 3 \<lparr>resp = replicate 38 0, p_instret = 0, p_cycles = 0\<rparr>\<rparr>"

lemma toy_reads_bounded: "reads_bounded toy_fat"
  by (simp add: reads_bounded_def toy_fat_def)

definition demo_state :: "toy_world vm \<Rightarrow> bool" where
  "demo_state v \<longleftrightarrow> run_calls (vcall_do toy_fat) demo_calls demo_vm = Inr ([0x2000, 0], v) \<and> vm_inv (\<lambda>_. 0) v \<and>
     (\<forall>a. 0x2000 \<le> a \<and> a < 0x3000 \<longrightarrow> pte_of v a = 0x20008817) \<and> 0x3000 \<le> cur_mmap_max v"

lemma second_page: "vpn a = vpn 0x2000" if "0x2000 \<le> a" "a < 0x3000"
proof -
  have l: "8192 \<le> unat a" "unat a < 12288" using that by (simp_all add: word_le_nat_alt word_less_nat_alt)
  then have "unat a div 4096 = 2" by (intro div_nat_eqI) simp_all
  then have "unat (vpn a) = 2" "unat (vpn 0x2000) = 2" using l by (simp_all add: vpn_unat)
  then show ?thesis by (metis unsigned_word_eqI)
qed

lemma demo_page: "\<exists>v. demo_state v"
proof -
  obtain v where v: "run_calls (vcall_do toy_fat) demo_calls demo_vm = Inr ([0x2000, 0], v)" "pte_of v 0x2000 = 0x20008817"
    by (rule demo_end)
  have i: "vm_inv (\<lambda>_. 0) v" by (rule vm.run_inv [OF demo_vm_inv demo_calls_ok v(1)])
  have p: "pte_of v a = 0x20008817" if "0x2000 \<le> a" "a < 0x3000" for a
    using pte_of_vpn [OF second_page [OF that], of v] v(2) by simp
  have "4096 * unat (vpn 0x2000) + 4096 \<le> unat (cur_mmap_max v)"
    by (rule user_page_place(2) [OF i]) (simp_all add: v(2) pt_consts)
  then have "0x3000 \<le> cur_mmap_max v" by (simp add: vpn_unat word_le_nat_alt)
  then show ?thesis using v(1) i p unfolding demo_state_def by blast
qed

definition getpid_tf :: trapframe_t where
  "getpid_tf = \<lparr>gpr = (replicate 32 5)[17 := 172], status = 0, epc = 0x1000, badvaddr = 0, cause = 8, insn = 0\<rparr>"

lemma getpid_run: "handle_trap ev getpid_tf s = Inr (getpid_tf\<lparr>gpr := (gpr getpid_tf)[10 := 0], epc := 0x1004\<rparr>, s)"
proof -
  have "gpr getpid_tf ! 17 = 172" "cause getpid_tf = 8" "epc getpid_tf = 0x1000" by (simp_all add: getpid_tf_def)
  moreover have "do_syscall ev a0 a1 a2 a3 a4 a5 172 = sys_getpid" for a0 a1 a2 a3 a4 a5
    by (simp add: do_syscall_def syscall_table_def)
  ultimately show ?thesis
    by (simp add: handle_trap_def trap_handlers_def handle_syscall_def sys_getpid_def exec_simps)
qed



text \<open>Five bytes of a file arrive in the page; the file is open with descriptor 3 at its start.\<close>

definition toy_open :: "toy_world fstate" where
  "toy_open = toy_state\<lparr>files := (files toy_state)[3 := \<lparr>offset = 0, refcnt = 2\<rparr>]\<rparr>"

lemma toy_open_ok: "table_ok 1 toy_open" "files toy_open ! 3 = \<lparr>offset = 0, refcnt = 2\<rparr>"
proof -
  have "length (files toy_state) = MAX_FILES" by (simp add: toy_state_def file_init_def)
  then show "files toy_open ! 3 = \<lparr>offset = 0, refcnt = 2\<rparr>" by (simp add: toy_open_def MAX_FILES_def)
  show "table_ok 1 toy_open"
    by (auto simp: table_ok_def toy_open_def toy_state_def file_init_def list_all_length nth_upd)
qed

lemma demo_buffer:
  assumes "demo_state v"
  shows "buffer_ok PROT_WRITE 0x2010 5 v"
proof -
  have b: "(0x2010 :: u64) AND NOT (RISCV_PGSIZE - 1) = 0x2000" by (simp add: RISCV_PGSIZE_def)
  have m: "12288 \<le> unat (cur_mmap_max v)" using assms by (simp add: demo_state_def word_le_nat_alt)
  have "accessible PROT_WRITE a v" if "0x2000 \<le> a" "a < 0x2015" for a
  proof -
    have "unat a < 8213" using that by (simp add: word_less_nat_alt)
    moreover have "a < 0x3000" using that(2) by (rule order.strict_trans) simp
    then have "pte_of v a = 0x20008817" using assms that(1) by (simp add: demo_state_def)
    ultimately show ?thesis by (auto simp: accessible_def need_bit_def pt_consts intro!: canonical_user)
  qed
  then show ?thesis using m b by (simp add: buffer_ok_def)
qed


text \<open>Two buffers of two and three bytes go to the console; the list of buffers is at the start of the page.\<close>

definition demo_iov :: "u8 list" where
  "demo_iov = [0x20, 0x20, 0, 0, 0, 0, 0, 0, 2, 0, 0, 0, 0, 0, 0, 0, 0x30, 0x20, 0, 0, 0, 0, 0, 0, 3, 0, 0, 0, 0, 0, 0, 0,
     72, 105, 0, 0, 0, 0, 0, 0, 0, 0, 0, 0, 0, 0, 0, 0, 33, 33, 10]"

definition with_iov :: "toy_world vm \<Rightarrow> toy_world kern" where
  "with_iov v = demo_kern ((write_ram (first_free_paddr v + 0x2000) demo_iov v)\<lparr>fs := toy_state\<rparr>)"

lemma demo_iov_bytes:
  assumes "demo_state v" "0x2000 \<le> a" "a < 0x2033"
  shows "accessible PROT_READ a (kvm (with_iov v))" "a < cur_mmap_max (kvm (with_iov v))"
    "byte_at (kvm (with_iov v)) a = demo_iov ! unat (a - 0x2000)"
proof -
  have m: "a < 0x3000" using assms(3) by (rule order.strict_trans) simp
  have u: "unat a < 8243" "8192 \<le> unat a" using assms(2,3) by (simp_all add: word_less_nat_alt word_le_nat_alt)
  have p: "pte_of v a = 0x20008817" "a < cur_mmap_max v" using assms(1,2) m by (auto simp: demo_state_def)
  have k: "kvm (with_iov v) = (write_ram (first_free_paddr v + 0x2000) demo_iov v)\<lparr>fs := toy_state\<rparr>"
    by (simp add: with_iov_def demo_kern_def)
  then have "pte_of (kvm (with_iov v)) a = pte_of v a" "cur_mmap_max (kvm (with_iov v)) = cur_mmap_max v"
      "paddr a (kvm (with_iov v)) = paddr a v" by (simp_all add: write_ram_def)
  note f = this
  show "a < cur_mmap_max (kvm (with_iov v))" using f p by simp
  show "accessible PROT_READ a (kvm (with_iov v))"
    using f(1) p(1) u by (auto simp: accessible_def need_bit_def vm_consts pt_consts intro!: canonical_user)
  have "paddr a v = first_free_paddr v + a"
    by (rule paddr_user [where d = "\<lambda>_. 0"]) (use assms(1) p in \<open>simp_all add: demo_state_def pt_consts\<close>)
  moreover have "unat (a - 0x2000) < 51" using u by (subst unat_diff_u64) simp_all
  ultimately show "byte_at (kvm (with_iov v)) a = demo_iov ! unat (a - 0x2000)"
    by (simp add: byte_at_def f(3)) (simp add: k write_ram_def demo_iov_def)
qed

lemma demo_range:
  assumes "demo_state v" "unat a + n \<le> 8243" "0x2000 \<le> a"
  shows "readable (kvm (with_iov v)) a n" "bytes_at (kvm (with_iov v)) a n = take n (drop (unat a - 8192) demo_iov)"
proof -
  have u: "unat (a + of_nat i) = unat a + i" if "i < n" for i
    using that assms(2) by (subst unat_add_u64) (simp_all add: unat_of_nat_u64)
  have r: "0x2000 \<le> a + of_nat i" "a + of_nat i < 0x2033" if "i < n" for i
    using u [OF that] that assms(2,3) by (simp_all add: word_le_nat_alt word_less_nat_alt)
  show "readable (kvm (with_iov v)) a n"
    using demo_iov_bytes [OF assms(1) r] by (simp add: readable_def list_all_iff)
  show "bytes_at (kvm (with_iov v)) a n = take n (drop (unat a - 8192) demo_iov)"
  proof (rule nth_equalityI)
    have "length demo_iov = 51" by (simp add: demo_iov_def)
    then show "length (bytes_at (kvm (with_iov v)) a n) = length (take n (drop (unat a - 8192) demo_iov))" using assms(2,3)
      by (simp add: word_le_nat_alt)
    fix i assume "i < length (bytes_at (kvm (with_iov v)) a n)"
    then have i: "i < n" by simp
    have "unat (a + of_nat i - 0x2000) = unat a - 8192 + i"
      using u [OF i] assms(3) by (subst unat_diff_u64) (simp_all add: word_le_nat_alt)
    then show "bytes_at (kvm (with_iov v)) a n ! i = take n (drop (unat a - 8192) demo_iov) ! i"
      using i demo_iov_bytes(3) [OF assms(1) r [OF i]] \<open>length demo_iov = 51\<close> assms(2,3) by (simp add: bytes_at_def word_le_nat_alt)
  qed
qed

theorem sys_writev_gathers_witness:
  "\<exists>v s'. demo_state v \<and> sys_writev demo_env 1 0x2000 2 (with_iov v) = Inr (5, s') \<and> con s' = [72, 105, 33, 33, 10]"
proof -
  obtain v where v: "demo_state v" using demo_page by blast
  let ?ps = "[(0x2020, 2), (0x2030, 3)] :: (u64 \<times> u64) list"
  have one: "int_arg 1 = 1" "int_arg 2 = 2" by (simp_all add: int_arg_def)
  have c: "console_fd (kvm (with_iov v)) 1"
    by (simp add: console_fd_def one with_iov_def demo_kern_def toy_state_def file_init_def MAX_FILES_def)
  have i: "iovec_at (kvm (with_iov v)) 0x2000 ?ps"
    by (simp add: demo_range [OF v]) (simp add: demo_iov_def)
  have g: "gathered (kvm (with_iov v)) ?ps = [72, 105, 33, 33, 10]"
    by (simp add: gathered_def demo_range [OF v]) (simp add: demo_iov_def)
  from sys_writev_gathers [OF c i, of 2 demo_env] g one v show ?thesis
    by (intro exI [of _ v] exI [of _ "(with_iov v)\<lparr>con := [72, 105, 33, 33, 10]\<rparr>"]) (simp add: with_iov_def demo_kern_def)
qed

end
