(* ===== verification/Pk_Elf.thy ===== *)
theory Pk_Elf
  imports Pk_Trap
begin

text \<open>
  The program loader of the proxy kernel (\<^verbatim>\<open>fs/elf.c\<close>): the headers of an ELF file, the mapping of its
  segments, and the tags that its \<^verbatim>\<open>.tag\<close> section assigns to words of the program. The headers are read into
  variables of the kernel, so that the model gets them as bytes from the file layer; the segments and the
  sections are mapped into the address space of the program and accessed there.
\<close>

subsection \<open>Headers\<close>

record Elf64_Ehdr =
  e_ident :: "u8 list"
  e_type :: u16
  e_entry :: u64
  e_phoff :: u64
  e_shoff :: u64
  e_phnum :: u16
  e_shentsize :: u16
  e_shnum :: u16
  e_shstrndx :: u16

record Elf64_Phdr =
  p_type :: u32
  p_offset :: u64
  p_vaddr :: u64
  p_filesz :: u64
  p_memsz :: u64

record Elf64_Shdr =
  sh_name :: u32
  sh_offset :: u64
  sh_size :: u64

text \<open>A field of \<open>n\<close> bytes at an offset in a structure.\<close>

definition le_field :: "nat \<Rightarrow> nat \<Rightarrow> u8 list \<Rightarrow> u64" where
  "le_field off n bs = le_word (take n (drop off bs))"

definition ehdr_of :: "u8 list \<Rightarrow> Elf64_Ehdr" where
  "ehdr_of bs =
     \<lparr>e_ident = take 16 bs, e_type = ucast (le_field 16 2 bs), e_entry = le_field 24 8 bs, e_phoff = le_field 32 8 bs,
      e_shoff = le_field 40 8 bs, e_phnum = ucast (le_field 56 2 bs), e_shentsize = ucast (le_field 58 2 bs),
      e_shnum = ucast (le_field 60 2 bs), e_shstrndx = ucast (le_field 62 2 bs)\<rparr>"

definition phdr_of :: "u8 list \<Rightarrow> Elf64_Phdr" where
  "phdr_of bs =
     \<lparr>p_type = ucast (le_field 0 4 bs), p_offset = le_field 8 8 bs, p_vaddr = le_field 16 8 bs,
      p_filesz = le_field 32 8 bs, p_memsz = le_field 40 8 bs\<rparr>"

definition shdr_of :: "u8 list \<Rightarrow> Elf64_Shdr" where
  "shdr_of bs = \<lparr>sh_name = ucast (le_field 0 4 bs), sh_offset = le_field 24 8 bs, sh_size = le_field 32 8 bs\<rparr>"

definition SIZEOF_EHDR :: nat where "SIZEOF_EHDR = 64"
definition SIZEOF_PHDR :: nat where "SIZEOF_PHDR = 56"
definition SIZEOF_SHDR :: nat where "SIZEOF_SHDR = 64"

definition PT_LOAD :: u32 where "PT_LOAD = 1"
definition ET_DYN :: u16 where "ET_DYN = 3"

definition is_elf :: "Elf64_Ehdr \<Rightarrow> bool" where
  "is_elf eh \<longleftrightarrow> e_ident eh ! 0 = 0x7f \<and> e_ident eh ! 1 = 0x45 \<and> e_ident eh ! 2 = 0x4c \<and> e_ident eh ! 3 = 0x46"

definition IS_ELF64 :: "Elf64_Ehdr \<Rightarrow> bool" where
  "IS_ELF64 eh \<longleftrightarrow> is_elf eh \<and> e_ident eh ! 4 = 2"

text \<open>
  The part of \<^verbatim>\<open>elf_info\<close> that is not in the memory manager. \<open>phdr_buf\<close> is the array \<^verbatim>\<open>phdrs\<close> that the field
  \<^verbatim>\<open>phdr\<close> points to until the program headers are copied to the stack of the program.
\<close>

record elf_info =
  phent :: u32
  phnum :: u32
  phdr :: u64
  phdr_buf :: "u8 list"
  phdr_size :: u64
  entry :: u64
  t0 :: u64
  instret0 :: u64

definition elf_fail :: "('w, 'a) vexec" where
  "elf_fail = vpanic ''couldn't open ELF program''"

text \<open>\<^verbatim>\<open>file_pread\<close> into a variable of the kernel, with the check that all bytes were read.\<close>

definition pread_all :: "'w fatfs \<Rightarrow> nat \<Rightarrow> nat \<Rightarrow> u64 \<Rightarrow> ('w, u8 list) vexec" where
  "pread_all ff f n off =
     ebind (on_fs (file_pread ff f (of_nat n) off)) (\<lambda>(r, bs). if unat r < n then elf_fail else ret bs)"

subsection \<open>Segments\<close>

definition min_vaddr :: "Elf64_Phdr list \<Rightarrow> u64" where
  "min_vaddr phs =
     foldl (\<lambda>m ph. if p_type ph = PT_LOAD \<and> p_memsz ph \<noteq> 0 \<and> p_vaddr ph < m then p_vaddr ph else m) (- 1) phs"

definition ROUNDDOWN :: "u64 \<Rightarrow> u64 \<Rightarrow> u64" where
  "ROUNDDOWN a b = a div b * b"

text \<open>One turn of the loop over the program headers.\<close>

definition load_segment :: "'w fatfs \<Rightarrow> nat \<Rightarrow> u64 \<Rightarrow> Elf64_Phdr \<Rightarrow> ('w, unit) vexec" where
  "load_segment ff file bias ph =
     (if p_type ph = PT_LOAD \<and> p_memsz ph \<noteq> 0 then
        let prepad = p_vaddr ph mod RISCV_PGSIZE; vaddr = p_vaddr ph + bias; flags = MAP_FIXED OR MAP_PRIVATE;
            flags2 = flags OR (if prepad \<noteq> 0 then MAP_POPULATE else 0) in
        ebind (modify (\<lambda>s. if vaddr + p_memsz ph > cur_brk_min s then s\<lparr>cur_brk_min := vaddr + p_memsz ph\<rparr> else s)) (\<lambda>_.
        ebind (do_mmap_region ff (vaddr - prepad) (p_filesz ph + prepad) (- 1) flags2 (Some file) (p_offset ph - prepad)) (\<lambda>r.
          if r \<noteq> vaddr - prepad then elf_fail
          else
            ebind (kwrite ff (vaddr - prepad) (replicate (unat prepad) 0)) (\<lambda>_.
              let mapped = ROUNDUP (p_filesz ph + prepad) RISCV_PGSIZE - prepad in
              if p_memsz ph > mapped then
                ebind (do_mmap_region ff (vaddr + mapped) (p_memsz ph - mapped) (- 1) (flags OR MAP_ANONYMOUS) None 0) (\<lambda>r.
                  if r \<noteq> vaddr + mapped then elf_fail else ret ())
              else ret ())))
      else ret ())"

text \<open>The loop runs from the last header to the first.\<close>

fun load_segments :: "'w fatfs \<Rightarrow> nat \<Rightarrow> u64 \<Rightarrow> Elf64_Phdr list \<Rightarrow> ('w, unit) vexec" where
  "load_segments ff file bias [] = ret ()"
| "load_segments ff file bias (ph # phs) =
     ebind (load_segments ff file bias phs) (\<lambda>_. load_segment ff file bias ph)"

subsection \<open>Tags\<close>

definition read_shdr :: "'w fatfs \<Rightarrow> nat \<Rightarrow> u64 \<Rightarrow> ('w, Elf64_Shdr) vexec" where
  "read_shdr ff file off = ebind (pread_all ff file SIZEOF_SHDR off) (\<lambda>bs. ret (shdr_of bs))"

text \<open>\<^verbatim>\<open>strcmp(p, ref) == 0\<close> on a string of the program; \<open>ref\<close> ends with a zero.\<close>

fun kstreq :: "'w fatfs \<Rightarrow> u64 \<Rightarrow> u8 list \<Rightarrow> ('w, bool) vexec" where
  "kstreq ff a [] = ret True"
| "kstreq ff a (c # cs) = ebind (kload ff a) (\<lambda>b. if b \<noteq> c then ret False else kstreq ff (a + 1) cs)"

definition tag_str_ref :: "u8 list" where
  "tag_str_ref = map of_char ''.tag'' @ [0]"

fun find_section :: "'w fatfs \<Rightarrow> nat \<Rightarrow> Elf64_Ehdr \<Rightarrow> u64 \<Rightarrow> nat list \<Rightarrow> ('w, Elf64_Shdr option) vexec" where
  "find_section ff file eh mmap_str [] = ret None"
| "find_section ff file eh mmap_str (i # is) =
     ebind (read_shdr ff file (e_shoff eh + of_nat i * ucast (e_shentsize eh))) (\<lambda>sh.
     ebind (kstreq ff (mmap_str + ucast (sh_name sh)) tag_str_ref) (\<lambda>eq.
       if eq then ret (Some sh) else find_section ff file eh mmap_str is))"

text \<open>
  \<^verbatim>\<open>set_tagged_val\<close> reads the word at the address and stores its lower half back with the tag; the bytes of
  memory keep their values. The result is the list of the tags that were set.
\<close>

fun set_tags :: "'w fatfs \<Rightarrow> u64 \<Rightarrow> nat \<Rightarrow> ('w, (u64 \<times> u64) list) vexec" where
  "set_tags ff p 0 = ret []"
| "set_tags ff p (Suc n) =
     ebind (kload64 ff p) (\<lambda>addr.
       if addr = - 1 then ret []
       else
         ebind (kload64 ff addr) (\<lambda>val.
         ebind (kload64 ff (p + 8)) (\<lambda>tag.
         ebind (kwrite ff addr (le_bytes 4 val)) (\<lambda>_.
         ebind (set_tags ff (p + 16) n) (\<lambda>ts. ret ((addr, tag) # ts))))))"

definition map_section :: "'w fatfs \<Rightarrow> nat \<Rightarrow> Elf64_Shdr \<Rightarrow> ('w, u64) vexec" where
  "map_section ff file sh =
     ebind (do_mmap_region ff 0 (sh_size sh) PROT_READ MAP_PRIVATE (Some file) (sh_offset sh)) (\<lambda>a.
       if a = - 1 then elf_fail else ret a)"

text \<open>
  The offset of the section with the names is an \<^verbatim>\<open>int\<close> product of two 16-bit fields; the overflow of this
  product is undefined.
\<close>

definition load_tags :: "'w fatfs \<Rightarrow> nat \<Rightarrow> Elf64_Ehdr \<Rightarrow> ('w, (u64 \<times> u64) list) vexec" where
  "load_tags ff file eh =
     (if e_shoff eh \<noteq> 0 \<and> e_shnum eh \<noteq> 0 then
        ebind (do_brk ff 0) (\<lambda>_.
          if e_shstrndx eh \<noteq> 0 then
            (if unat (e_shstrndx eh) * unat (e_shentsize eh) \<ge> 2 ^ 31 then vwild
             else
               ebind (read_shdr ff file (e_shoff eh + ucast (e_shstrndx eh) * ucast (e_shentsize eh))) (\<lambda>shstr.
               ebind (map_section ff file shstr) (\<lambda>sec_str.
               ebind (find_section ff file eh sec_str [0..<unat (e_shnum eh)]) (\<lambda>so.
                 case so of
                   None \<Rightarrow> ret []
                 | Some sh \<Rightarrow>
                     ebind (map_section ff file sh) (\<lambda>sec_tag.
                       set_tags ff sec_tag (unat (sh_size sh div 16)))))))
          else ret [])
      else ret [])"

subsection \<open>Loading\<close>

definition phdrs_of :: "nat \<Rightarrow> u8 list \<Rightarrow> Elf64_Phdr list" where
  "phdrs_of n bs = map (\<lambda>i. phdr_of (drop (SIZEOF_PHDR * i) bs)) [0..<n]"

definition load_bias :: "Elf64_Ehdr \<Rightarrow> Elf64_Phdr list \<Rightarrow> u64 \<Rightarrow> u64" where
  "load_bias eh phs ffp = (if e_type eh = ET_DYN then ffp - ROUNDDOWN (min_vaddr phs) RISCV_PGSIZE else 0)"

text \<open>What follows when the file header has been accepted.\<close>

definition load_image :: "'w fatfs \<Rightarrow> nat \<Rightarrow> Elf64_Ehdr \<Rightarrow> elf_info \<Rightarrow> ('w, elf_info \<times> (u64 \<times> u64) list) vexec" where
  "load_image ff file eh info =
     (let n = unat (e_phnum eh); sz = n * SIZEOF_PHDR in
      if of_nat sz > phdr_size info then elf_fail
      else
        ebind (pread_all ff file sz (e_phoff eh)) (\<lambda>phbs.
        let buf = phbs @ drop (length phbs) (phdr_buf info); phs = phdrs_of n buf in
        ebind (gets (\<lambda>s. load_bias eh phs (first_free_paddr s))) (\<lambda>bias.
        ebind (load_segments ff file bias phs) (\<lambda>_.
        ebind (load_tags ff file eh) (\<lambda>tags.
        ebind (on_fs (file_decref ff file)) (\<lambda>_.
          ret (info\<lparr>phnum := of_nat n, phent := of_nat SIZEOF_PHDR, phdr_buf := buf, entry := e_entry eh + bias\<rparr>, tags)))))))"

definition load_elf :: "'w fatfs \<Rightarrow> u8 list \<Rightarrow> elf_info \<Rightarrow> ('w, elf_info \<times> (u64 \<times> u64) list) vexec" where
  "load_elf ff fn info =
     ebind (on_fs (file_open ff fn 0)) (\<lambda>fo.
       case fo of
         None \<Rightarrow> elf_fail
       | Some file \<Rightarrow>
           ebind (pread_all ff file SIZEOF_EHDR 0) (\<lambda>ehbs.
             if \<not> is_elf (ehdr_of ehbs) then elf_fail
             else
               ebind (kassert (IS_ELF64 (ehdr_of ehbs)) ''IS_ELF64(eh)'') (\<lambda>_. load_image ff file (ehdr_of ehbs) info)))"

text \<open>Loading from memory: the file is the block of bytes \<open>blob\<close> of the kernel.\<close>

definition dram_fail :: "('w, 'a) vexec" where
  "dram_fail = vpanic ''failed to load payload''"

definition load_segment_DRAM :: "'w fatfs \<Rightarrow> u8 list \<Rightarrow> u64 \<Rightarrow> Elf64_Phdr \<Rightarrow> ('w, unit) vexec" where
  "load_segment_DRAM ff blob bias ph =
     (if p_type ph = PT_LOAD \<and> p_memsz ph \<noteq> 0 then
        let prepad = p_vaddr ph mod RISCV_PGSIZE; vaddr = p_vaddr ph + bias; flags = MAP_FIXED OR MAP_PRIVATE;
            flags2 = flags OR (if prepad \<noteq> 0 then MAP_POPULATE else 0) in
        ebind (modify (\<lambda>s. if vaddr + p_memsz ph > cur_brk_min s then s\<lparr>cur_brk_min := vaddr + p_memsz ph\<rparr> else s)) (\<lambda>_.
          if p_offset ph + p_filesz ph > of_nat (length blob) then dram_fail
          else
            ebind (do_mmap_region ff (vaddr - prepad) (p_filesz ph + prepad) (- 1) flags2 None (p_offset ph - prepad)) (\<lambda>r.
              if r \<noteq> vaddr - prepad then dram_fail
              else if unat (p_offset ph) + unat (p_filesz ph) > length blob then vwild
              else
                ebind (kwrite ff vaddr (take (unat (p_filesz ph)) (drop (unat (p_offset ph)) blob))) (\<lambda>_.
                ebind (kwrite ff (vaddr - prepad) (replicate (unat prepad) 0)) (\<lambda>_.
                  let mapped = ROUNDUP (p_filesz ph + prepad) RISCV_PGSIZE - prepad in
                  if p_memsz ph > mapped then
                    ebind (do_mmap_region ff (vaddr + mapped) (p_memsz ph - mapped) (- 1) (flags OR MAP_ANONYMOUS) None 0) (\<lambda>r.
                      if r \<noteq> vaddr + mapped then dram_fail else ret ())
                  else ret ()))))
      else ret ())"

fun load_segments_DRAM :: "'w fatfs \<Rightarrow> u8 list \<Rightarrow> u64 \<Rightarrow> Elf64_Phdr list \<Rightarrow> ('w, unit) vexec" where
  "load_segments_DRAM ff blob bias [] = ret ()"
| "load_segments_DRAM ff blob bias (ph # phs) =
     ebind (load_segments_DRAM ff blob bias phs) (\<lambda>_. load_segment_DRAM ff blob bias ph)"

definition load_elf_from_DRAM :: "'w fatfs \<Rightarrow> u8 list \<Rightarrow> elf_info \<Rightarrow> ('w, elf_info) vexec" where
  "load_elf_from_DRAM ff blob info =
     (let eh = ehdr_of blob; n = unat (e_phnum eh); sz = n * SIZEOF_PHDR in
      if SIZEOF_EHDR > length blob \<or> \<not> is_elf eh then dram_fail
      else
        ebind (kassert (IS_ELF64 eh) ''IS_ELF64(*eh)'') (\<lambda>_.
          if of_nat sz > phdr_size info then dram_fail
          else if unat (e_phoff eh) + sz > length blob then vwild
          else
            let phbs = take sz (drop (unat (e_phoff eh)) blob);
                buf = phbs @ drop sz (phdr_buf info); phs = phdrs_of n buf in
            ebind (gets first_free_paddr) (\<lambda>ffp.
            let bias = load_bias eh phs ffp in
            ebind (load_segments_DRAM ff blob bias phs) (\<lambda>_.
              ret (info\<lparr>phnum := of_nat n, phent := of_nat SIZEOF_PHDR, phdr_buf := buf, entry := e_entry eh + bias\<rparr>)))))"


subsection \<open>Loading keeps the invariant\<close>

text \<open>
  What the loader relies on: for every file that it opens, the segments of the program have no more bytes in
  the file than in memory, as the ELF format demands, and no section is longer than the address space of
  the program. \<open>reads_as\<close> says that a read of the file at this place yields these bytes at some time.
\<close>

definition reads_as :: "'w fatfs \<Rightarrow> nat \<Rightarrow> nat \<Rightarrow> u64 \<Rightarrow> u8 list \<Rightarrow> bool" where
  "reads_as ff f n off bs \<longleftrightarrow> (\<exists>s r s'. file_pread ff f (of_nat n) off s = Inr ((r, bs), s') \<and> n \<le> unat r)"

definition segs_ok :: "Elf64_Phdr list \<Rightarrow> bool" where
  "segs_ok phs \<longleftrightarrow> (\<forall>ph \<in> set phs. p_filesz ph \<le> p_memsz ph)"

definition elf_files :: "'w fatfs \<Rightarrow> u64 \<Rightarrow> bool" where
  "elf_files ff m \<longleftrightarrow>
     (\<forall>f ehbs. reads_as ff f SIZEOF_EHDR 0 ehbs \<longrightarrow>
        (let eh = ehdr_of ehbs; n = unat (e_phnum eh) in
         (\<forall>phbs. reads_as ff f (n * SIZEOF_PHDR) (e_phoff eh) phbs \<longrightarrow> segs_ok (phdrs_of n phbs)) \<and>
         (\<forall>i shbs. reads_as ff f SIZEOF_SHDR (e_shoff eh + i * ucast (e_shentsize eh)) shbs \<longrightarrow> sh_size (shdr_of shbs) \<le> m)))"

definition kept_at :: "u64 \<Rightarrow> 'w vm \<Rightarrow> 'w vm \<Rightarrow> bool" where
  "kept_at m s s' \<longleftrightarrow> (cur_mmap_max s = m \<longrightarrow> vm_kept s s')"

interpretation ka: step_relation "kept_at m" for m
proof
  show "kept_at m s s" for s :: "'a vm" by (simp add: kept_at_def vk.R_refl)
  show "kept_at m s u" if "kept_at m s t" "kept_at m t u" for s t u :: "'a vm"
    unfolding kept_at_def vm_kept_def
  proof (intro impI)
    assume s: "cur_mmap_max s = m" "vm_inv (\<lambda>_. 0) s"
    then have t: "vm_inv (\<lambda>_. 0) t" "area_step s t" using that(1) by (simp_all add: kept_at_def vm_kept_def)
    then have "cur_mmap_max t = m" using s(1) by (simp add: area_step_def)
    then have "vm_inv (\<lambda>_. 0) u \<and> area_step t u" using that(2) t(1) by (simp add: kept_at_def vm_kept_def)
    then show "vm_inv (\<lambda>_. 0) u \<and> area_step s u" using t(2) ar.R_trans by blast
  qed
qed

lemmas [keep_rules] = ka.keeps_intros

lemma kept_atI: "preserves vm_kept c \<Longrightarrow> preserves (kept_at m) c"
  by (simp add: preserves_def kept_at_def)

lemma kassert_kept [keep_rules]: "preserves vm_kept (kassert b msg)"
  by (auto simp: preserves_def kassert_def vk.R_refl split: if_splits)

text \<open>An empty mapping takes no page: only an unused descriptor changes.\<close>

lemma empty_region_inv:
  assumes "vm_inv (\<lambda>_. 0) s" "do_mmap_region ff addr 0 prot flags f off s = Inr (r, s')"
  shows "vm_inv (\<lambda>_. 0) s'"
proof -
  let ?n = "(0 - 1) div RISCV_PGSIZE + 1"
  have rc: "ucast ?n = (0 :: u32)" by (simp add: RISCV_PGSIZE_def)
  have "\<exists>ao. choose_addr addr 0 ?n flags s = Inr (ao, s)"
    using assms(2) by (auto simp: do_mmap_region_def choose_addr_def vm_alloc_def exec_simps Let_def split: sum.splits option.splits if_splits)
  then obtain ao where ao: "choose_addr addr 0 ?n flags s = Inr (ao, s)" by blast
  show ?thesis
  proof (cases ao)
    case None
    then show ?thesis using assms ao by (simp add: do_mmap_region_def exec_simps Let_def)
  next
    case (Some b)
    then obtain vo s1 where s1: "vmr_alloc b 0 f off 0 prot s = Inr (vo, s1)"
      using assms(2) ao rc by (auto simp: do_mmap_region_def exec_simps Let_def split: sum.splits)
    have e: "for_pages b (b + 0) g t = Inr (None, t)" for g :: "u64 \<Rightarrow> ('a, unit option) vexec" and t
      by (simp add: for_pages.simps ret_apply)
    have "s' = s1" using assms(2) ao Some s1 rc e
      by (auto simp: do_mmap_region_def exec_simps Let_def split: sum.splits option.splits if_splits)
    moreover have "vm_inv (\<lambda>_. 0) s1"
      using vmr_alloc_spec(3,4) [OF assms(1) s1] by (cases vo) (auto simp: fun_upd_idem)
    ultimately show ?thesis by simp
  qed
qed

lemma region_kept:
  assumes "reads_bounded ff" "flags AND MAP_FIXED \<noteq> 0 \<or> len \<le> cur_mmap_max s"
    "do_mmap_region ff addr len prot flags f off s = Inr (r, s')"
  shows "vm_kept s s'"
proof -
  have "vm_inv (\<lambda>_. 0) s'" if i: "vm_inv (\<lambda>_. 0) s"
  proof (cases "len = 0")
    case True
    then show ?thesis using empty_region_inv [OF i] assms(3) by blast
  next
    case False
    then have "mmap_len_ok s len flags" using assms(2) by (simp add: mmap_len_ok_def)
    from mmap_region_spec [OF i this assms(3)] show ?thesis by simp
  qed
  then show ?thesis using keepsD [OF area_calls(1) [OF assms(1)] assms(3)] by (simp add: vm_kept_def)
qed



lemma fixed_valid:
  assumes "do_mmap_region ff addr len prot flags f off s = Inr (r, s')" "flags AND MAP_FIXED \<noteq> 0" "r \<noteq> - 1"
  shows "valid_user_range addr len s" "4096 dvd unat addr"
proof -
  have "valid_user_range addr len s \<and> addr AND (RISCV_PGSIZE - 1) = 0"
  proof (rule ccontr)
    assume "\<not> ?thesis"
    then have "choose_addr addr len ((len - 1) div RISCV_PGSIZE + 1) flags s = Inr (None, s)"
      using assms(2) by (auto simp: choose_addr_def exec_simps)
    then show False using assms(1,3) by (simp add: do_mmap_region_def exec_simps Let_def)
  qed
  then show "valid_user_range addr len s" "4096 dvd unat addr" using aligned_dvd by blast+
qed

lemma limits_frame [simp]:
  "pt_wf (s\<lparr>cur_brk_min := b\<rparr>) = pt_wf s" "pt_wf (s\<lparr>cur_stack_top := b\<rparr>) = pt_wf s"
  "pte_of (s\<lparr>cur_brk_min := b\<rparr>) a = pte_of s a" "pte_of (s\<lparr>cur_stack_top := b\<rparr>) a = pte_of s a"
  "alloc_page (s\<lparr>cur_brk_min := b\<rparr>) = alloc_page s" "alloc_page (s\<lparr>cur_stack_top := b\<rparr>) = alloc_page s"
  by (simp_all add: pt_wf_def pages_ok_def alloc_page_def pg_def pte_of_def walk_def fun_eq_iff split: sum.split)

lemma set_brk_min_inv: "vm_inv d s \<Longrightarrow> b \<le> cur_mmap_max s \<Longrightarrow> vm_inv d (s\<lparr>cur_brk_min := b\<rparr>)"
  using entry_ok_cong [of "s\<lparr>cur_brk_min := b\<rparr>" s] refs_ok_cong [of "s\<lparr>cur_brk_min := b\<rparr>" s d]
  by (auto simp: vm_inv_def vm_geom_def)

text \<open>The end of a segment whose parts are both mapped lies in the address space of the program.\<close>

lemma segment_end:
  fixes a l prepad filesz memsz m :: u64
  assumes "unat a + unat l \<le> unat m" "4096 dvd unat a" "4096 dvd unat m" "unat m \<le> 2 ^ 38" "prepad < RISCV_PGSIZE"
    and l: "l = filesz + prepad" "filesz \<le> memsz" "memsz \<noteq> 0" "memsz \<le> ROUNDUP l RISCV_PGSIZE - prepad"
  shows "a + prepad + memsz \<le> m"
proof (cases "l = 0")
  case True
  then have f: "filesz = - prepad" using l(1) by (simp add: eq_neg_iff_add_eq_0)
  have "ROUNDUP l RISCV_PGSIZE = 0" using True by (simp add: ROUNDUP_def RISCV_PGSIZE_def)
  then have "memsz = - prepad" using l(2,4) f by simp
  then show ?thesis using assms(1) True by (simp add: word_le_nat_alt)
next
  case False
  have r: "unat (ROUNDUP l RISCV_PGSIZE) = pages_of l * 4096" by (rule ROUNDUP_unat) (use assms(1,4) in simp)
  have p: "unat prepad < 4096" using assms(5) by (simp add: word_less_nat_alt RISCV_PGSIZE_def)
  have "4096 dvd unat m - unat a" using assms(2,3) by (rule dvd_diff_nat [rotated])
  then have b: "pages_of l * 4096 \<le> unat m - unat a" by (rule pages_of_bound) (use assms(1) in simp)
  have "unat l \<noteq> 0" using False unsigned_eq_0_iff by blast
  then have "1 \<le> pages_of l" by (simp add: pages_of_def)
  then have "unat (ROUNDUP l RISCV_PGSIZE - prepad) = pages_of l * 4096 - unat prepad"
    using r p by (simp add: unat_diff_u64)
  then have ms: "unat prepad + unat memsz \<le> pages_of l * 4096" using l(4) p \<open>1 \<le> pages_of l\<close> by (simp add: word_le_nat_alt)
  then have "unat prepad + unat memsz < 2 ^ 64" using b assms(4) by simp
  then have s: "unat (prepad + memsz) = unat prepad + unat memsz" by (rule unat_add_u64)
  then have "unat a + unat (prepad + memsz) < 2 ^ 64" using ms b assms(1,4) by simp
  then have "unat (a + (prepad + memsz)) = unat a + (unat prepad + unat memsz)" unfolding s [symmetric] by (rule unat_add_u64)
  then have "unat (a + (prepad + memsz)) \<le> unat m" using ms b assms(1) by linarith
  then show ?thesis by (simp add: word_le_nat_alt add.assoc)
qed

definition same_max :: "'w vm \<Rightarrow> 'w vm \<Rightarrow> bool" where
  "same_max s s' \<longleftrightarrow> cur_mmap_max s' = cur_mmap_max s"

interpretation mx: step_relation same_max
  by unfold_locales (simp_all add: same_max_def)

lemma kwrite_max: "reads_bounded ff \<Longrightarrow> preserves same_max (kwrite ff a bs)"
proof (induction bs arbitrary: a)
  case (Cons b bs)
  have p: "preserves same_max (handle_page_fault ff a PROT_WRITE)"
    using keepsD [OF page_fault_area [OF Cons.prems]] by (intro keepsI) (auto simp: area_step_def same_max_def)
  have m: "preserves same_max (modify (\<lambda>s. s\<lparr>ram := (ram s)(paddr a s := b)\<rparr>))" "preserves same_max vwild" "preserves same_max (vpanic msg)" for msg
    by (simp_all add: same_max_def preserves_def modify_apply vwild_def vpanic_def)
  show ?case unfolding kwrite.simps kstore_def touch_def
    by (intro mx.keeps_intros p m Cons)
qed (simp add: mx.keeps_ret)

lemma fixed_flags:
  "((MAP_FIXED OR MAP_PRIVATE) OR (if b then MAP_POPULATE else 0)) AND MAP_FIXED \<noteq> 0"
  "((MAP_FIXED OR MAP_PRIVATE) OR MAP_ANONYMOUS) AND MAP_FIXED \<noteq> 0"
  by (simp_all add: vm_consts)

text \<open>
  The two mappings of a segment, with a computation \<open>w\<close> between them that fills in its start. The break is
  raised before the mappings are made, and only the success of both shows that it is in range.
\<close>

lemma two_mappings_kept:
  assumes rb: "reads_bounded ff" and i: "vm_inv (\<lambda>_. 0) s" and w: "preserves vm_kept w" "preserves same_max w"
    and prepad: "prepad < RISCV_PGSIZE" and fm: "filesz \<le> memsz" "memsz \<noteq> 0" and mapped: "mapped = ROUNDUP (filesz + prepad) RISCV_PGSIZE - prepad"
    and s1: "s1 = (if vaddr + memsz > cur_brk_min s then s\<lparr>cur_brk_min := vaddr + memsz\<rparr> else s)"
    and m1: "do_mmap_region ff (vaddr - prepad) (filesz + prepad) prot fl1 f1 off1 s1 = Inr (vaddr - prepad, s2)" "fl1 AND MAP_FIXED \<noteq> 0"
    and s3: "w s2 = Inr (u, s3)" and al: "vaddr - prepad \<noteq> - 1" "vaddr + mapped \<noteq> - 1"
    and m2: "if memsz > mapped then do_mmap_region ff (vaddr + mapped) (memsz - mapped) prot fl2 f2 off2 s3 = Inr (vaddr + mapped, s4)
        else s4 = s3" "fl2 AND MAP_FIXED \<noteq> 0"
  shows "vm_inv (\<lambda>_. 0) s4 \<and> area_step s s4"
proof -
  let ?m = "cur_mmap_max s"
  have g: "unat ?m \<le> 2 ^ 38" "4096 dvd unat ?m" using vm_invD(2) [OF i] by (simp_all add: vm_geom_def)
  have a1: "area_step s s1" unfolding s1 by (auto intro!: area_same)
  then have a2: "area_step s s2" using keepsD [OF area_calls(1) [OF rb] m1(1)] ar.R_trans by blast
  have mm: "cur_mmap_max s1 = ?m" "cur_mmap_max s3 = ?m"
    using a2 keepsD [OF w(2) s3] by (simp_all add: s1 area_step_def same_max_def)
  note v1 = fixed_valid [OF m1(1,2) al(1)]
  have v1': "unat (vaddr - prepad) + unat (filesz + prepad) \<le> unat ?m"
    using range_end [of "vaddr - prepad" "filesz + prepad"] v1(1) mm(1) by (simp add: valid_user_range_def word_le_nat_alt)
  have top: "vaddr + memsz \<le> ?m"
  proof (cases "memsz > mapped")
    case True
    then have "valid_user_range (vaddr + mapped) (memsz - mapped) s3" using fixed_valid(1) [OF _ m2(2) al(2)] m2(1) by simp
    then show ?thesis using mm(2) by (simp add: valid_user_range_def)
  next
    case False
    then show ?thesis using segment_end [OF v1' v1(2) g(2,1) prepad refl fm] mapped by simp
  qed
  have i1: "vm_inv (\<lambda>_. 0) s1" using i set_brk_min_inv [OF i top] by (simp add: s1)
  have k12: "vm_kept s1 s2" by (rule region_kept [OF rb _ m1(1)]) (use m1(2) in simp)
  have k23: "vm_kept s2 s3" by (rule keepsD [OF w(1) s3])
  have k34: "vm_kept s3 s4" using region_kept [OF rb, of fl2 "memsz - mapped" s3] m2 by (auto simp: vk.R_refl split: if_splits)
  have "vm_kept s1 s4" using k12 k23 k34 vk.R_trans by blast
  then show ?thesis using i1 a1 ar.R_trans by (auto simp: vm_kept_def)
qed

definition aligned :: "u64 \<Rightarrow> bool" where
  "aligned a \<longleftrightarrow> 4096 dvd unat a"

lemma dvd_wrap: "4096 dvd (n :: nat) \<Longrightarrow> 4096 dvd n mod 2 ^ LENGTH(64)"
  by (rule dvd_mod) simp_all

lemma aligned_intros [intro]:
  "aligned a \<Longrightarrow> aligned b \<Longrightarrow> aligned (a + b)" "aligned a \<Longrightarrow> aligned b \<Longrightarrow> aligned (a - b)" "aligned (a * RISCV_PGSIZE)" "aligned 0"
  "aligned (a - a mod RISCV_PGSIZE)"
proof -
  show m: "aligned (a * RISCV_PGSIZE)" for a
    unfolding aligned_def unat_word_ariths(2) by (rule dvd_wrap) (simp add: RISCV_PGSIZE_def)
  show "aligned (a + b)" if "aligned a" "aligned b"
    using that unfolding aligned_def unat_word_ariths(1) by (intro dvd_wrap dvd_add)
  show "aligned (a - b)" if "aligned a" "aligned b"
    using that unat_sub_if_size [of a b] by (auto simp: aligned_def word_size intro!: dvd_diff_nat)
  show "aligned 0" by (simp add: aligned_def)
  have "a - a mod RISCV_PGSIZE = (a div RISCV_PGSIZE) * RISCV_PGSIZE" by (simp add: minus_mod_eq_div_mult)
  then show "aligned (a - a mod RISCV_PGSIZE)" using m by simp
qed

lemma aligned_not_max: "aligned a \<Longrightarrow> a \<noteq> - 1"
proof
  assume "aligned a" "a = - 1"
  then have "4096 dvd unat (- 1 :: u64)" by (simp add: aligned_def)
  moreover have "unat (- 1 :: u64) = 2 ^ 64 - 1" by (simp add: unsigned_minus_1_eq_mask mask_eq_exp_minus_1)
  ultimately show False by simp
qed

text \<open>The places of the two mappings of a segment are aligned, so that neither is the error value.\<close>

lemma segment_places:
  assumes "aligned bias" "prepad = v mod RISCV_PGSIZE" "mapped = ROUNDUP l RISCV_PGSIZE - prepad"
  shows "v + bias - prepad \<noteq> - 1" "v + bias + mapped \<noteq> - 1" "prepad < RISCV_PGSIZE"
proof -
  have e: "v + bias - prepad = (v - v mod RISCV_PGSIZE) + bias" by (simp add: assms(2))
  have a: "aligned (v + bias - prepad)" unfolding e using assms(1) by (intro aligned_intros)
  have f: "v + bias + mapped = (v + bias - prepad) + ROUNDUP l RISCV_PGSIZE" by (simp add: assms(3))
  have "aligned (v + bias + mapped)" unfolding f ROUNDUP_def by (rule aligned_intros(1) [OF a aligned_intros(3)])
  with a show "v + bias - prepad \<noteq> - 1" "v + bias + mapped \<noteq> - 1" using aligned_not_max by blast+
  show "prepad < RISCV_PGSIZE" by (simp add: assms(2) word_less_nat_alt RISCV_PGSIZE_def unat_mod_distrib)
qed

lemma load_segment_kept:
  assumes rb: "reads_bounded ff" and fm: "p_filesz ph \<le> p_memsz ph" and b: "aligned bias"
  shows "preserves vm_kept (load_segment ff f bias ph)"
proof (rule keepsI)
  fix s r s' assume m: "load_segment ff f bias ph s = Inr (r, s')"
  show "vm_kept s s'"
  proof (cases "p_type ph = PT_LOAD \<and> p_memsz ph \<noteq> 0")
    case False
    then show ?thesis using m unfolding load_segment_def if_not_P [OF False] by (simp add: ret_apply vk.R_refl)
  next
    case True
    define prepad where "prepad = p_vaddr ph mod RISCV_PGSIZE"
    define mapped where "mapped = ROUNDUP (p_filesz ph + prepad) RISCV_PGSIZE - prepad"
    let ?v = "p_vaddr ph + bias"
    obtain s2 s3 where x: "do_mmap_region ff (?v - prepad) (p_filesz ph + prepad) (- 1) ((MAP_FIXED OR MAP_PRIVATE) OR (if prepad \<noteq> 0 then MAP_POPULATE else 0))
          (Some f) (p_offset ph - prepad) (if ?v + p_memsz ph > cur_brk_min s then s\<lparr>cur_brk_min := ?v + p_memsz ph\<rparr> else s) = Inr (?v - prepad, s2)"
        "kwrite ff (?v - prepad) (replicate (unat prepad) 0) s2 = Inr ((), s3)"
        "if p_memsz ph > mapped then do_mmap_region ff (?v + mapped) (p_memsz ph - mapped) (- 1) ((MAP_FIXED OR MAP_PRIVATE) OR MAP_ANONYMOUS) None 0 s3 = Inr (?v + mapped, s')
          else s' = s3"
      using m True unfolding load_segment_def Let_def prepad_def [symmetric] mapped_def [symmetric]
      by (auto simp: exec_simps elf_fail_def vpanic_def split: sum.splits if_splits)
    note pl = segment_places [OF b prepad_def mapped_def]
    show ?thesis unfolding vm_kept_def
      by (intro impI, rule two_mappings_kept [OF rb _ kwrite_kept [OF rb] kwrite_max [OF rb] pl(3) fm conjunct2 [OF True]
            mapped_def refl x(1) fixed_flags(1) x(2) pl(1,2) x(3) fixed_flags(2)])
  qed
qed

lemma load_segments_kept:
  assumes "reads_bounded ff" "segs_ok phs" "aligned bias"
  shows "preserves vm_kept (load_segments ff f bias phs)"
  using assms(2) by (induction phs) (auto simp: segs_ok_def assms load_segment_kept intro!: keep_rules)

lemma load_segment_DRAM_kept:
  assumes rb: "reads_bounded ff" and fm: "p_filesz ph \<le> p_memsz ph" and b: "aligned bias"
  shows "preserves vm_kept (load_segment_DRAM ff blob bias ph)"
proof (rule keepsI)
  fix s r s' assume m: "load_segment_DRAM ff blob bias ph s = Inr (r, s')"
  show "vm_kept s s'"
  proof (cases "p_type ph = PT_LOAD \<and> p_memsz ph \<noteq> 0")
    case False
    then show ?thesis using m unfolding load_segment_DRAM_def if_not_P [OF False] by (simp add: ret_apply vk.R_refl)
  next
    case True
    define prepad where "prepad = p_vaddr ph mod RISCV_PGSIZE"
    define mapped where "mapped = ROUNDUP (p_filesz ph + prepad) RISCV_PGSIZE - prepad"
    let ?v = "p_vaddr ph + bias" and ?data = "take (unat (p_filesz ph)) (drop (unat (p_offset ph)) blob)"
    let ?w = "ebind (kwrite ff ?v ?data) (\<lambda>_. kwrite ff (?v - prepad) (replicate (unat prepad) 0))"
    obtain s2 s3 where x: "do_mmap_region ff (?v - prepad) (p_filesz ph + prepad) (- 1) ((MAP_FIXED OR MAP_PRIVATE) OR (if prepad \<noteq> 0 then MAP_POPULATE else 0))
          None (p_offset ph - prepad) (if ?v + p_memsz ph > cur_brk_min s then s\<lparr>cur_brk_min := ?v + p_memsz ph\<rparr> else s) = Inr (?v - prepad, s2)"
        "?w s2 = Inr ((), s3)"
        "if p_memsz ph > mapped then do_mmap_region ff (?v + mapped) (p_memsz ph - mapped) (- 1) ((MAP_FIXED OR MAP_PRIVATE) OR MAP_ANONYMOUS) None 0 s3 = Inr (?v + mapped, s')
          else s' = s3"
      using m True unfolding load_segment_DRAM_def Let_def prepad_def [symmetric] mapped_def [symmetric]
      by (auto simp: exec_simps dram_fail_def vpanic_def vwild_def split: sum.splits if_splits)
    note pl = segment_places [OF b prepad_def mapped_def]
    have w: "preserves vm_kept ?w" "preserves same_max ?w"
      by (intro keep_rules rb) (intro mx.keeps_intros kwrite_max rb)
    show ?thesis unfolding vm_kept_def
      by (intro impI, rule two_mappings_kept [OF rb _ w pl(3) fm conjunct2 [OF True]
            mapped_def refl x(1) fixed_flags(1) x(2) pl(1,2) x(3) fixed_flags(2)])
  qed
qed

lemma load_segments_DRAM_kept:
  assumes "reads_bounded ff" "segs_ok phs" "aligned bias"
  shows "preserves vm_kept (load_segments_DRAM ff blob bias phs)"
  using assms(2) by (induction phs) (auto simp: segs_ok_def assms load_segment_DRAM_kept intro!: keep_rules)

lemma elf_fail_kept [keep_rules]: "preserves vm_kept elf_fail" "preserves vm_kept dram_fail"
  unfolding elf_fail_def dram_fail_def by (intro keep_rules)+

lemma pread_all_kept [keep_rules]: "preserves vm_kept (pread_all ff f n off)"
  unfolding pread_all_def by (intro keep_rules)

lemma pread_all_reads: "pread_all ff f n off s = Inr (bs, s') \<Longrightarrow> reads_as ff f n off bs"
  by (fastforce simp: pread_all_def reads_as_def exec_simps on_fs_def elf_fail_def vpanic_def split: sum.splits if_splits)

lemma kstreq_kept [keep_rules]: "reads_bounded ff \<Longrightarrow> preserves vm_kept (kstreq ff a cs)"
  by (induction cs arbitrary: a) (auto intro!: keep_rules)

lemma set_tags_kept: "reads_bounded ff \<Longrightarrow> preserves vm_kept (set_tags ff p n)"
  by (induction n arbitrary: p) (auto simp: kload64_def intro!: keep_rules)

text \<open>A rule for a computation whose result is known to satisfy a condition.\<close>

lemma keeps_bind_result:
  assumes "step_relation R" "preserves R c" "\<And>s x s'. c s = Inr (x, s') \<Longrightarrow> P x" "\<And>x. P x \<Longrightarrow> preserves R (g x)"
  shows "preserves R (ebind c g)"
proof (rule keepsI)
  fix s r s' assume "ebind c g s = Inr (r, s')"
  then obtain x t where t: "c s = Inr (x, t)" "g x t = Inr (r, s')" by (auto simp: ebind_apply split: sum.splits)
  have "R s t" "R t s'" using keepsD [OF assms(2) t(1)] keepsD [OF assms(4) [OF assms(3) [OF t(1)]] t(2)] .
  then show "R s s'" using assms(1) unfolding step_relation_def by blast
qed

lemma map_section_kept:
  assumes "reads_bounded ff" "sh_size sh \<le> m"
  shows "preserves (kept_at m) (map_section ff f sh)"
  unfolding map_section_def
proof (intro keep_rules)
  show "preserves (kept_at m) (do_mmap_region ff 0 (sh_size sh) PROT_READ MAP_PRIVATE (Some f) (sh_offset sh))"
    using region_kept [OF assms(1) disjI2] assms(2) by (intro keepsI) (auto simp: kept_at_def)
  show "preserves (kept_at m) elf_fail" by (intro kept_atI keep_rules)
qed

definition shdrs_fit :: "'w fatfs \<Rightarrow> nat \<Rightarrow> Elf64_Ehdr \<Rightarrow> u64 \<Rightarrow> bool" where
  "shdrs_fit ff f eh m \<longleftrightarrow>
     (\<forall>i shbs. reads_as ff f SIZEOF_SHDR (e_shoff eh + i * ucast (e_shentsize eh)) shbs \<longrightarrow> sh_size (shdr_of shbs) \<le> m)"

lemma read_shdr_fits:
  assumes "shdrs_fit ff f eh m" "read_shdr ff f (e_shoff eh + i * ucast (e_shentsize eh)) s = Inr (sh, s')"
  shows "sh_size sh \<le> m"
  using assms pread_all_reads by (fastforce simp: shdrs_fit_def read_shdr_def exec_simps split: sum.splits)

lemma read_shdr_kept: "preserves vm_kept (read_shdr ff f off)"
  unfolding read_shdr_def by (intro keep_rules)

lemma find_section_kept:
  "reads_bounded ff \<Longrightarrow> preserves vm_kept (find_section ff f eh p js)"
  by (induction js) (auto intro!: keep_rules read_shdr_kept)

lemma find_section_fits:
  assumes "shdrs_fit ff f eh m" "find_section ff f eh p js s = Inr (Some sh, s')"
  shows "sh_size sh \<le> m"
  using assms(2)
proof (induction js arbitrary: s)
  case (Cons i js)
  then show ?case using read_shdr_fits [OF assms(1)]
    by (fastforce simp: exec_simps split: sum.splits if_splits)
qed (simp add: ret_apply)

lemma load_tags_kept:
  assumes rb: "reads_bounded ff" and fit: "shdrs_fit ff f eh m"
  shows "preserves (kept_at m) (load_tags ff f eh)"
proof -
  note keep = kept_atI [OF read_shdr_kept] kept_atI [OF find_section_kept [OF rb]] kept_atI [OF set_tags_kept [OF rb]]
    kept_atI [OF memory_kept(1) [OF rb]] kept_atI [OF stops_kept(1)]
  have tags: "preserves (kept_at m) (ebind (find_section ff f eh p js) (\<lambda>so. case so of None \<Rightarrow> ret [] | Some sh \<Rightarrow>
      ebind (map_section ff f sh) (\<lambda>sec_tag. set_tags ff sec_tag (unat (sh_size sh div 16)))))" for p js
    by (rule keeps_bind_result [where P = "\<lambda>so. \<forall>sh. so = Some sh \<longrightarrow> sh_size sh \<le> m"])
      (use find_section_fits [OF fit] in \<open>auto intro!: ka.step_relation_axioms keep keep_rules map_section_kept rb split: option.split\<close>)
  have names: "preserves (kept_at m) (ebind (read_shdr ff f (e_shoff eh + i * ucast (e_shentsize eh))) (\<lambda>shstr. ebind (map_section ff f shstr) g))"
    if "\<And>x. preserves (kept_at m) (g x)" for i and g :: "u64 \<Rightarrow> ('a, 'b) vexec"
    by (rule keeps_bind_result [where P = "\<lambda>sh. sh_size sh \<le> m"])
      (use read_shdr_fits [OF fit] in \<open>auto intro!: ka.step_relation_axioms keep keep_rules map_section_kept rb that\<close>)
  show ?thesis unfolding load_tags_def by (intro keep_rules keep names tags)
qed

lemma keeps_gets_inv:
  assumes "\<And>s. vm_inv (\<lambda>_. 0) s \<Longrightarrow> preserves (kept_at m) (g (h s))"
  shows "preserves (kept_at m) (ebind (gets h) g)"
proof (rule keepsI)
  fix s r s' assume "ebind (gets h) g s = Inr (r, s')"
  then have "g (h s) s = Inr (r, s')" by (simp add: exec_simps)
  then show "kept_at m s s'"
    using keepsD [OF assms] unfolding kept_at_def vm_kept_def by blast
qed

lemma bias_aligned: "vm_inv d s \<Longrightarrow> aligned (load_bias eh phs (first_free_paddr s))"
  using vm_invD(2) [of d s] by (auto simp: load_bias_def ROUNDDOWN_def vm_geom_def aligned_def [symmetric])

lemma reads_as_length: "reads_as ff f n off bs \<Longrightarrow> n \<le> length bs"
proof -
  assume "reads_as ff f n off bs"
  then obtain s r s' where r: "file_pread ff f (of_nat n) off s = Inr ((r, bs), s')" "n \<le> unat r" by (auto simp: reads_as_def)
  then have "r = of_nat (length bs)"
    by (auto simp: file_pread_def exec_simps fe_apply panic_def split: sum.splits if_splits prod.splits)
  then have "unat r \<le> length bs" by (simp add: unsigned_of_nat take_bit_nat_eq_self_iff take_bit_nat_less_eq_self)
  then show ?thesis using r(2) by simp
qed

lemma le_field_append: "off + n \<le> length xs \<Longrightarrow> le_field off n (xs @ ys) = le_field off n xs"
  by (simp add: le_field_def)

lemma phdrs_of_append:
  assumes "n * SIZEOF_PHDR \<le> length bs"
  shows "phdrs_of n (bs @ cs) = phdrs_of n bs"
proof -
  have "phdr_of (drop (SIZEOF_PHDR * i) (bs @ cs)) = phdr_of (drop (SIZEOF_PHDR * i) bs)" if "i < n" for i
  proof -
    have "SIZEOF_PHDR * Suc i \<le> SIZEOF_PHDR * n" using that by (intro mult_le_mono2) simp
    then have l: "SIZEOF_PHDR * i + 56 \<le> length bs" using assms by (simp add: SIZEOF_PHDR_def mult.commute)
    then have "drop (SIZEOF_PHDR * i) (bs @ cs) = drop (SIZEOF_PHDR * i) bs @ cs" by simp
    then show ?thesis using l by (simp add: phdr_of_def le_field_append)
  qed
  then show ?thesis by (simp add: phdrs_of_def)
qed

lemma load_image_kept:
  assumes rb: "reads_bounded ff" and ok: "elf_files ff m" and r: "reads_as ff f SIZEOF_EHDR 0 ehbs"
  shows "preserves (kept_at m) (load_image ff f (ehdr_of ehbs) info)"
proof -
  let ?n = "unat (e_phnum (ehdr_of ehbs))"
  note keep = kept_atI [OF on_fs_kept] kept_atI [OF elf_fail_kept(1)] kept_atI [OF pread_all_kept]
  have fit: "shdrs_fit ff f (ehdr_of ehbs) m" using ok r unfolding elf_files_def Let_def shdrs_fit_def by blast
  have segs: "segs_ok (phdrs_of ?n (phbs @ cs))" if "reads_as ff f (?n * SIZEOF_PHDR) (e_phoff (ehdr_of ehbs)) phbs" for phbs cs
    using ok r that phdrs_of_append [OF reads_as_length [OF that]] unfolding elf_files_def Let_def by auto
  show ?thesis unfolding load_image_def Let_def
    by (intro ka.keeps_if keep keeps_bind_result [OF ka.step_relation_axioms keep(3) pread_all_reads], assumption, rule keeps_gets_inv)
      (intro ka.keeps_intros keep load_tags_kept [OF rb fit] kept_atI [OF load_segments_kept] rb segs bias_aligned)
qed

lemma load_elf_kept:
  assumes "reads_bounded ff" "elf_files ff m"
  shows "preserves (kept_at m) (load_elf ff fn info)"
proof -
  note keep = kept_atI [OF on_fs_kept] kept_atI [OF elf_fail_kept(1)] kept_atI [OF kassert_kept] kept_atI [OF pread_all_kept]
  show ?thesis unfolding load_elf_def
    by (intro ka.keeps_bind [OF keep(1)] ka.keeps_option keep keeps_bind_result [OF ka.step_relation_axioms keep(4) pread_all_reads], assumption)
      (intro ka.keeps_intros keep load_image_kept [OF assms])
qed
end
