(* ===== verification/Vm_View.thy ===== *)
theory Vm_View
  imports Vm_Frame
begin

text \<open>
  The memory of the program as the program sees it: a byte of a page that is present is the byte at its
  physical address, and a byte of a page that has not been touched yet is the one that the page fault handler
  will put there. In this view demand paging is invisible, and a store of the kernel changes one byte.
\<close>

subsection \<open>The view\<close>

definition page_addr :: "u64 \<Rightarrow> u64" where
  "page_addr a = push_bit RISCV_PGSHIFT (ppn a)"

definition low_bits :: "u64 \<Rightarrow> u64" where
  "low_bits a = a AND (RISCV_PGSIZE - 1)"

text \<open>The region of a page that has not been touched.\<close>

definition region_of :: "'w vm \<Rightarrow> u64 \<Rightarrow> vmr option" where
  "region_of s a =
     (if pte_of s a = 0 \<or> pte_of s a AND PTE_V \<noteq> 0 then None else map_option (\<lambda>i. vmrs s ! i) (vmr_index s (pte_of s a)))"

text \<open>\<open>bs\<close> is the contents of the file that regions are mapped from.\<close>

definition vview :: "u8 list \<Rightarrow> 'w vm \<Rightarrow> u64 \<Rightarrow> u8 option" where
  "vview bs s a =
     (if pte_of s a AND PTE_V \<noteq> 0 then Some (ram s (paddr a s))
      else map_option (\<lambda>v. page_image bs v (page_addr a) ! unat (low_bits a)) (region_of s a))"

definition allows :: "u32 \<Rightarrow> 'w vm \<Rightarrow> u64 \<Rightarrow> bool" where
  "allows prot s a =
     (if pte_of s a AND PTE_V \<noteq> 0 then pte_of s a AND need_bit prot \<noteq> 0
      else (case region_of s a of None \<Rightarrow> False | Some v \<Rightarrow> v_prot v AND prot \<noteq> 0))"

text \<open>
  Pages of the file can be filled: it is served as documented, reaches into the page, and is not closed when
  its region is used up, since somebody else holds it too.
\<close>

definition backed :: "'w fatfs \<Rightarrow> u8 list \<Rightarrow> ('w \<Rightarrow> nat \<Rightarrow> bool) \<Rightarrow> 'w vm \<Rightarrow> u64 \<Rightarrow> bool" where
  "backed ff bs at s a =
     (case region_of s a of
        None \<Rightarrow> True
      | Some v \<Rightarrow> file_ready ff bs at v (page_addr a) s \<and> (\<forall>f. v_file v = Some f \<longrightarrow> 2 < refcnt (files (fs s) ! f)))"

definition anonymous :: "'w vm \<Rightarrow> u64 \<Rightarrow> bool" where
  "anonymous s a = (case region_of s a of None \<Rightarrow> True | Some v \<Rightarrow> v_file v = None)"

text \<open>Two states that the program cannot tell apart.\<close>

definition same_view :: "u8 list \<Rightarrow> 'w vm \<Rightarrow> 'w vm \<Rightarrow> bool" where
  "same_view bs s s' \<longleftrightarrow> cur_mmap_max s' = cur_mmap_max s \<and> first_free_paddr s' = first_free_paddr s \<and>
     (\<forall>a < cur_mmap_max s. vview bs s' a = vview bs s a \<and> (anonymous s a \<longrightarrow> anonymous s' a) \<and>
        (\<forall>prot \<in> {PROT_READ, PROT_WRITE}. allows prot s a \<longrightarrow> allows prot s' a))"

interpretation sv: step_relation "same_view bs" for bs
  by unfold_locales (auto simp: same_view_def)

lemma page_image_drop [simp]: "page_image bs (drop_ref v) = page_image bs v" "v_file (drop_ref v) = v_file v" "v_prot (drop_ref v) = v_prot v"
  by (simp_all add: page_image_def file_bytes_def drop_ref_def fun_eq_iff split: option.split)

lemma low_bits_less: "unat (low_bits a) < 4096"
  using unat_and_mask_u64 [of a 12] by (simp add: low_bits_def RISCV_PGSIZE_def)

lemma page_split: "a = page_addr a + low_bits a"
proof -
  have "a AND (RISCV_PGSIZE - 1) = take_bit 12 a" by (simp add: RISCV_PGSIZE_def take_bit_eq_mask mask_eq_exp_minus_1)
  then show ?thesis using bits_ident [of 12 a] by (simp add: page_addr_def low_bits_def ppn_def RISCV_PGSHIFT_def)
qed

lemma page_addr_eq:
  assumes "unat a < 2 ^ 38" "unat b < 2 ^ 38" "vpn a = vpn b"
  shows "page_addr a = page_addr b"
  using assms vpn_user [of a] vpn_user [of b] by (simp add: page_addr_def ppn_def RISCV_PGSHIFT_def)

lemma page_addr_unat: "unat (page_addr a) = 4096 * (unat a div 4096)"
proof -
  have "page_addr a = a div 4096 * 4096"
    by (simp add: page_addr_def ppn_def RISCV_PGSHIFT_def push_bit_eq_mult drop_bit_eq_div)
  moreover have "unat (a div 4096) * unat (4096 :: u64) < 2 ^ LENGTH(64)"
    using unsigned_less [where w = a and ?'a = nat] by (simp add: unat_div_distrib)
  then have "unat (a div 4096 * 4096) = unat (a div 4096) * unat (4096 :: u64)" by (rule unat_mult_lem [THEN iffD1])
  ultimately show ?thesis by (simp add: unat_div_distrib)
qed

lemma in_page:
  assumes "unat a < 2 ^ 38" "unat b < 2 ^ 38" "unat (b - page_addr a) < 4096"
  shows "vpn b = vpn a"
proof -
  let ?v = "page_addr a"
  have v: "unat ?v = 4096 * (unat a div 4096)" by (rule page_addr_unat)
  then have "unat ?v + unat (b - ?v) < 2 ^ 64" using assms(1,3) by simp
  then have "unat (?v + (b - ?v)) = unat ?v + unat (b - ?v)" by (rule unat_add_u64)
  then have "unat b = 4096 * (unat a div 4096) + unat (b - ?v)" using v by simp
  then have "unat b div 4096 = unat a div 4096" using assms(3) by simp
  moreover have "unat (vpn b) = unat b div 4096" "unat (vpn a) = unat a div 4096" by (intro vpn_unat; use assms in simp)+
  ultimately show ?thesis by (metis unsigned_word_eqI)
qed

lemma page_place:
  assumes "vm_inv d s" "a < cur_mmap_max s"
  shows "push_bit RISCV_PGSHIFT (vpn (page_addr a) + first_free_paddr s div RISCV_PGSIZE) = first_free_paddr s + page_addr a"
proof -
  let ?F = "first_free_paddr s"
  have "vpn (page_addr a) = drop_bit 12 a"
    using vpn_of_page [of a] vpn_user [of a] user_in_user(2) [OF assms] by (simp add: page_addr_def)
  moreover have "?F div RISCV_PGSIZE = drop_bit 12 ?F" by (simp add: RISCV_PGSIZE_def drop_bit_eq_div)
  moreover have "4096 dvd unat ?F" using vm_invD(2) [OF assms(1)] by (simp add: vm_geom_def)
  ultimately show ?thesis
    by (simp add: push_bit_add shift_aligned page_addr_def ppn_def RISCV_PGSHIFT_def add.commute)
qed

subsection \<open>Faulting a page in\<close>

text \<open>The state after the first access to the page of \<open>a\<close>, as in \<open>page_in\<close>.\<close>

lemma page_in_view:
  assumes i: "vm_inv (\<lambda>_. 0) s" "vm_inv (\<lambda>_. 0) s'" and a: "a < cur_mmap_max s"
    and v: "pte_of s (page_addr a) = vmr_ptr s i" "i < MAX_VMR" "vmr_base s \<noteq> 0"
    and pn: "pn = vpn (page_addr a) + first_free_paddr s div RISCV_PGSIZE"
    and w: "walk (page_addr a) s = Some p" "page_filled (push_bit RISCV_PGSHIFT pn) (page_image bs (vmrs s ! i) (page_addr a)) (ram s) m"
    and s': "s' = set_pte p (pte_create pn (prot_to_type (v_prot (vmrs s ! i)) True)) ((upd_vmr i drop_ref s)\<lparr>ram := m, fs := g\<rparr>)"
  shows "same_view bs s s'" "pte_of s' a AND PTE_V \<noteq> 0"
proof -
  let ?x = "pte_create pn (prot_to_type (v_prot (vmrs s ! i)) True)" and ?t = "(upd_vmr i drop_ref s)\<lparr>ram := m, fs := g\<rparr>"
  have len: "i < length (vmrs s)" using v(2) vm_invD(2) [OF i(1)] by (simp add: vm_geom_def)
  have "pt_wf ?t" "walk (page_addr a) ?t = Some p" using vm_invD(1) [OF i(1)] w(1) by simp_all
  from pt.put_get [OF this] have pte: "pte_of s' b = (if vpn b = vpn a then ?x else pte_of s b)" for b
    using vpn_of_page [of a] by (simp add: s' page_addr_def)
  have va: "vpn (page_addr a) = vpn a" by (simp add: page_addr_def vpn_of_page)
  have ea: "pte_of s b = vmr_ptr s i" if "vpn b = vpn a" for b using v(1) pte_of_vpn [of b "page_addr a" s] that va by simp
  have xv: "?x AND PTE_V \<noteq> 0" by (rule pte_create_V)
  show "pte_of s' a AND PTE_V \<noteq> 0" using pte [of a] xv by simp
  have cfg: "cur_mmap_max s' = cur_mmap_max s" "first_free_paddr s' = first_free_paddr s" "vmr_index s' = vmr_index s" "ram s' = m"
    by (simp_all add: s' vmr_index_def vmr_ptr_def fun_eq_iff upd_vmr_def)
  have vs: "vmrs s' ! j = (if j = i then drop_ref (vmrs s ! j) else vmrs s ! j)" for j
    using len by (cases "j = i") (simp_all add: s' upd_vmr_def)
  have idx: "vmr_index s (vmr_ptr s i) = Some i" by (rule vmr_index_ptr [OF i(1) v(3,2)])
  have inval: "vmr_ptr s i AND PTE_V = 0" "vmr_ptr s i \<noteq> 0" by (rule vmr_ptr_invalid [OF i(1) v(3,2)])+
  have "vview bs s' b = vview bs s b \<and> (anonymous s b \<longrightarrow> anonymous s' b) \<and> (\<forall>prot \<in> {PROT_READ, PROT_WRITE}. allows prot s b \<longrightarrow> allows prot s' b)"
    if b: "b < cur_mmap_max s" for b
  proof (cases "vpn b = vpn a")
    case True
    note u = user_in_user(2) [OF i(1) a] user_in_user(2) [OF i(1) b]
    have r: "region_of s b = Some (vmrs s ! i)" "region_of s' b = None" using ea [OF True] inval idx pte [of b] True xv by (simp_all add: region_of_def)
    have pa: "page_addr b = page_addr a" by (rule page_addr_eq [OF u(2,1) True])
    have lb: "b - page_addr a = low_bits b" using page_split [of b] pa by (metis add_diff_cancel_left')
    have "paddr b s' - push_bit RISCV_PGSHIFT pn = low_bits b"
      using paddr_user [OF i(2), of b] b cfg(1,2) pte [of b] True xv page_place [OF i(1) a] lb by (simp add: pn)
    then have "m (paddr b s') = page_image bs (vmrs s ! i) (page_addr a) ! unat (low_bits b)"
      using w(2) low_bits_less [of b] by (simp add: page_filled_def)
    then have "vview bs s' b = vview bs s b" using r pa ea [OF True] inval pte [of b] True xv cfg(4) by (simp add: vview_def)
    moreover have "allows prot s' b" if p: "allows prot s b" "prot = PROT_READ \<or> prot = PROT_WRITE" for prot
    proof -
      have "v_prot (vmrs s ! i) AND prot \<noteq> 0" using p(1) r(1) ea [OF True] inval by (simp add: allows_def)
      then have "?x AND pte_create 0 (prot_to_type prot True) = pte_create 0 (prot_to_type prot True)"
        by (rule perms_granted [rotated]) (use p(2) in blast)
      then have "?x AND need_bit prot \<noteq> 0" by (rule and_part) (rule need_in_perms(2) [OF p(2)])
      then show ?thesis using pte [of b] True xv by (simp add: allows_def)
    qed
    ultimately show ?thesis using r(2) by (auto simp: anonymous_def)
  next
    case False
    have r: "region_of s' b = map_option (\<lambda>v. if pte_of s b = vmr_ptr s i then drop_ref v else v) (region_of s b)"
    proof (cases "vmr_index s (pte_of s b)")
      case (Some j)
      then have "j < MAX_VMR" "vmr_ptr s j = pte_of s b" by (auto simp: vmr_index_def find_Some_iff)
      then have "j = i \<longleftrightarrow> pte_of s b = vmr_ptr s i" using vmr_ptr_inj [OF i(1) v(3) _ v(2)] by metis
      then show ?thesis using Some pte [of b] False vs cfg(3) by (simp add: region_of_def)
    qed (use pte [of b] False cfg(3) in \<open>simp add: region_of_def\<close>)
    have "m (paddr b s') = ram s (paddr b s)" if val: "pte_of s b AND PTE_V \<noteq> 0"
    proof -
      have e: "paddr b s' = paddr b s" using pte [of b] False by (simp add: paddr_def)
      have "paddr b s - push_bit RISCV_PGSHIFT pn = b - page_addr a"
        using paddr_user [OF i(1) b val] page_place [OF i(1) a] by (simp add: pn)
      then have "\<not> unat (paddr b s - push_bit RISCV_PGSHIFT pn) < 4096"
        using in_page [OF user_in_user(2) [OF i(1) a] user_in_user(2) [OF i(1) b]] False by auto
      then show ?thesis using w(2) e by (simp add: page_filled_def)
    qed
    then have "vview bs s' b = vview bs s b" using r pte [of b] False cfg(4)
      by (auto simp: vview_def option.map_comp intro!: option.map_cong)
    moreover have "anonymous s' b = anonymous s b" "allows prot s' b = allows prot s b" for prot
      using r pte [of b] False by (simp_all add: anonymous_def allows_def split: option.split)
    ultimately show ?thesis by simp
  qed
  then show "same_view bs s s'" by (simp add: same_view_def cfg)
qed

lemma touch_view:
  assumes i: "vm_inv (\<lambda>_. 0) s" and a: "a < cur_mmap_max s" "allows prot s a" "backed ff bs at s a" and prot: "prot = PROT_READ \<or> prot = PROT_WRITE"
  obtains s' where "touch ff prot a s = Inr ((), s')" "vm_inv (\<lambda>_. 0) s'" "accessible prot a s'" "same_view bs s s'" "anonymous s a \<Longrightarrow> fs s' = fs s"
proof (cases "pte_of s a AND PTE_V \<noteq> 0")
  case True
  then have acc: "accessible prot a s" using a(2) canonical_user [OF user_in_user(2) [OF i a(1)]] by (simp add: accessible_def allows_def)
  then have "touch ff prot a s = Inr ((), s)" using a(1) by (simp add: touch_def exec_simps)
  then show ?thesis using that [of s] i acc sv.R_refl by blast
next
  case False
  then obtain v where v: "region_of s a = Some v" "v_prot v AND prot \<noteq> 0" using a(2) by (auto simp: allows_def split: option.splits)
  then have nz: "pte_of s a \<noteq> 0" by (auto simp: region_of_def split: if_splits)
  obtain j where j: "j < MAX_VMR" "pte_of s a = vmr_ptr s j" "vmr_index s (pte_of s a) = Some j" "vmr_base s \<noteq> 0"
    using pending_entry [OF i nz] False by auto
  have vj: "vmrs s ! j = v" using v(1) j(3) False nz by (simp add: region_of_def)
  have pj: "pte_of s (page_addr a) = vmr_ptr s j" using pte_of_vpn [of "page_addr a" a s] j(2) by (simp add: page_addr_def vpn_of_page)
  have rdy: "file_ready ff bs at (vmrs s ! j) (page_addr a) s" using a(3) v(1) vj by (simp add: backed_def)
  let ?pn = "vpn (page_addr a) + first_free_paddr s div RISCV_PGSIZE"
  obtain p m g where h: "walk (page_addr a) s = Some p"
    "handle_page_fault ff a prot s = Inr (0, set_pte p (pte_create ?pn (prot_to_type (v_prot (vmrs s ! j)) True)) ((upd_vmr j drop_ref s)\<lparr>ram := m, fs := g\<rparr>))"
    "page_filled (push_bit RISCV_PGSHIFT ?pn) (page_image bs (vmrs s ! j) (page_addr a)) (ram s) m" "v_file (vmrs s ! j) = None \<Longrightarrow> g = fs s"
    using page_in [OF i a(1) pj j(1,4) page_addr_def refl _ _ rdy, of prot] prot v(2) vj by metis
  let ?s' = "set_pte p (pte_create ?pn (prot_to_type (v_prot (vmrs s ! j)) True)) ((upd_vmr j drop_ref s)\<lparr>ram := m, fs := g\<rparr>)"
  have i': "vm_inv (\<lambda>_. 0) ?s'" using page_fault_spec [OF i _ h(2)] by simp
  have "\<not> accessible prot a s" using False by (simp add: accessible_def)
  then have "touch ff prot a s = Inr ((), ?s')" using h(2) by (simp add: touch_def exec_simps)
  moreover have "accessible prot a ?s'" using page_fault_ok [OF i h(2) prot] by simp
  moreover have "same_view bs s ?s'" by (rule page_in_view(1) [OF i i' a(1) pj j(1,4) refl h(1,3) refl])
  moreover have "fs ?s' = fs s" if "anonymous s a" using that v(1) vj h(4) by (simp add: anonymous_def)
  ultimately show ?thesis using that [of ?s'] i' by blast
qed

subsection \<open>Stores and loads of the kernel\<close>

text \<open>Memory that the kernel can write without a file: pages that are present or will be filled with zeroes.\<close>

definition writable :: "'w vm \<Rightarrow> u64 \<Rightarrow> bool" where
  "writable s a \<longleftrightarrow> a < cur_mmap_max s \<and> allows PROT_WRITE s a \<and> anonymous s a"

definition range_writable :: "'w vm \<Rightarrow> u64 \<Rightarrow> nat \<Rightarrow> bool" where
  "range_writable s a n \<longleftrightarrow> unat a + n \<le> unat (cur_mmap_max s) \<and> (\<forall>c. unat (c - a) < n \<longrightarrow> writable s c)"

text \<open>The bytes \<open>xs\<close> have been stored at \<open>a\<close>; nothing else that the program sees has changed.\<close>

definition stored :: "u8 list \<Rightarrow> u64 \<Rightarrow> u8 list \<Rightarrow> 'w vm \<Rightarrow> 'w vm \<Rightarrow> bool" where
  "stored bs a xs s s' \<longleftrightarrow> vm_inv (\<lambda>_. 0) s' \<and> fs s' = fs s \<and> cur_mmap_max s' = cur_mmap_max s \<and> first_free_paddr s' = first_free_paddr s \<and>
     (\<forall>c < cur_mmap_max s. vview bs s' c = (if unat (c - a) < length xs then Some (xs ! unat (c - a)) else vview bs s c) \<and>
        (anonymous s c \<longrightarrow> anonymous s' c) \<and> (\<forall>prot \<in> {PROT_READ, PROT_WRITE}. allows prot s c \<longrightarrow> allows prot s' c))"

lemma anonymous_backed: "anonymous s a \<Longrightarrow> backed ff bs at s a"
  by (auto simp: anonymous_def backed_def file_ready_def split: option.splits)

lemma view_frame [simp]: "region_of (s\<lparr>ram := m\<rparr>) a = region_of s a" "paddr a (s\<lparr>ram := m\<rparr>) = paddr a s" "allows prot (s\<lparr>ram := m\<rparr>) a = allows prot s a"
  "anonymous (s\<lparr>ram := m\<rparr>) a = anonymous s a"
proof -
  have "vmr_index (s\<lparr>ram := m\<rparr>) = vmr_index s" by (simp add: vmr_index_def vmr_ptr_def fun_eq_iff)
  then show r: "region_of (s\<lparr>ram := m\<rparr>) a = region_of s a" by (simp add: region_of_def)
  show "paddr a (s\<lparr>ram := m\<rparr>) = paddr a s" by (simp add: paddr_def)
  show "allows prot (s\<lparr>ram := m\<rparr>) a = allows prot s a" "anonymous (s\<lparr>ram := m\<rparr>) a = anonymous s a" using r by (simp_all add: allows_def anonymous_def)
qed

lemma stored_writable: "stored bs a xs s s' \<Longrightarrow> writable s c \<Longrightarrow> writable s' c"
  by (simp add: stored_def writable_def)

lemma stored_range: "stored bs a xs s s' \<Longrightarrow> range_writable s c n \<Longrightarrow> range_writable s' c n"
  using stored_writable by (fastforce simp: range_writable_def stored_def)

lemma kstore_view:
  assumes "vm_inv (\<lambda>_. 0) s" "writable s a"
  obtains s' where "kstore ff a b s = Inr ((), s')" "stored bs a [b] s s'"
proof -
  have a: "a < cur_mmap_max s" "allows PROT_WRITE s a" "anonymous s a" using assms(2) by (simp_all add: writable_def)
  obtain t where t: "touch ff PROT_WRITE a s = Inr ((), t)" "vm_inv (\<lambda>_. 0) t" "accessible PROT_WRITE a t" "same_view bs s t" "fs t = fs s"
    by (rule touch_view [where at = "\<lambda>_ _. True" and ff = ff and bs = bs, OF assms(1) a(1,2) anonymous_backed [OF a(3)]]) (use a(3) in auto)
  let ?s = "t\<lparr>ram := (ram t)(paddr a t := b)\<rparr>"
  have am: "a < cur_mmap_max t" using a(1) t(4) by (simp add: same_view_def)
  have pa: "paddr a t = first_free_paddr t + a" by (rule paddr_user [OF t(2) am]) (use t(3) in \<open>simp add: accessible_def\<close>)
  have "vview bs ?s c = (if c = a then Some b else vview bs t c)" if c: "c < cur_mmap_max t" for c
  proof (cases "pte_of t c AND PTE_V \<noteq> 0")
    case True
    then show ?thesis using paddr_user [OF t(2) c True] pa by (auto simp: vview_def)
  next
    case False
    then have "c \<noteq> a" using t(3) by (auto simp: accessible_def)
    then show ?thesis using False by (simp add: vview_def)
  qed
  moreover have "unat (c - a) < length [b] \<longleftrightarrow> c = a" for c using unsigned_eq_0_iff [of "c - a"] by auto
  ultimately have "stored bs a [b] s ?s" using t(2,4,5) by (auto simp: stored_def same_view_def)
  moreover have "kstore ff a b s = Inr ((), ?s)" using t(1) by (simp add: kstore_def exec_simps)
  ultimately show ?thesis using that by blast
qed

lemma offset_Suc:
  fixes a c :: u64
  assumes "unat a + Suc n < 2 ^ 64"
  shows "unat (a + 1) = unat a + 1" "unat (c - (a + 1)) < n \<longleftrightarrow> c \<noteq> a \<and> unat (c - a) < Suc n"
    "c \<noteq> a \<Longrightarrow> unat (c - a) = Suc (unat (c - (a + 1)))"
proof -
  show "unat (a + 1) = unat a + 1" using assms unat_add_u64 [of a 1] by simp
  show s: "unat (c - a) = Suc (unat (c - (a + 1)))" if "c \<noteq> a"
  proof -
    have e: "c - (a + 1) = (c - a) - 1" by simp
    have z: "c - a \<noteq> 0" using that by simp
    then have "unat (c - a) \<noteq> 0" using unsigned_eq_0_iff by blast
    then show ?thesis unfolding e unat_minus_one [OF z] by simp
  qed
  show "unat (c - (a + 1)) < n \<longleftrightarrow> c \<noteq> a \<and> unat (c - a) < Suc n"
  proof (cases "c = a")
    case True
    have "unat (- 1 :: u64) = 2 ^ 64 - 1" by (simp add: unsigned_minus_1_eq_mask mask_eq_exp_minus_1)
    then show ?thesis using True assms by simp
  qed (use s in simp)
qed

lemma kwrite_view:
  assumes "vm_inv (\<lambda>_. 0) s" "range_writable s a (length xs)"
  shows "\<exists>s'. kwrite ff a xs s = Inr ((), s') \<and> stored bs a xs s s'"
  using assms
proof (induction xs arbitrary: a s)
  case Nil
  then show ?case by (auto simp: ret_apply stored_def)
next
  case (Cons x xs)
  have m: "unat a + Suc (length xs) \<le> unat (cur_mmap_max s)" "unat (cur_mmap_max s) \<le> 2 ^ 38"
    using Cons.prems vm_invD(2) [OF Cons.prems(1)] by (simp_all add: range_writable_def vm_geom_def)
  then have lt: "unat a + Suc (length xs) < 2 ^ 64" by simp
  note o = offset_Suc [OF lt]
  have "writable s a" using Cons.prems(2) by (simp add: range_writable_def)
  then obtain t where t: "kstore ff a x s = Inr ((), t)" "stored bs a [x] s t" by (rule kstore_view [OF Cons.prems(1)])
  have "range_writable s (a + 1) (length xs)"
    using Cons.prems(2) m(1) unfolding range_writable_def o(1,2) by auto
  then have "range_writable t (a + 1) (length xs)" by (rule stored_range [OF t(2)])
  moreover have "vm_inv (\<lambda>_. 0) t" using t(2) by (simp add: stored_def)
  ultimately obtain s' where s': "kwrite ff (a + 1) xs t = Inr ((), s')" "stored bs (a + 1) xs t s'" using Cons.IH by blast
  have "vview bs s' c = (if unat (c - a) < length (x # xs) then Some ((x # xs) ! unat (c - a)) else vview bs s c)"
    if c: "c < cur_mmap_max s" for c
  proof (cases "c = a")
    case True
    then show ?thesis using s'(2) t(2) c o(2) [of a] by (simp add: stored_def)
  next
    case False
    then have "\<not> unat (c - a) < 1" using unsigned_eq_0_iff [of "c - a"] by auto
    then have 1: "vview bs t c = vview bs s c" using t(2) c by (simp add: stored_def)
    have 2: "vview bs s' c = (if unat (c - (a + 1)) < length xs then Some (xs ! unat (c - (a + 1))) else vview bs t c)"
      using s'(2) t(2) c by (simp add: stored_def)
    show ?thesis unfolding o(3) [OF False] 2 1 by simp
  qed
  then have "stored bs a (x # xs) s s'" using s'(2) t(2) by (simp add: stored_def)
  then show ?case using t(1) s'(1) by (simp add: exec_simps)
qed

subsection \<open>Intervals of memory\<close>

text \<open>The program's view of an interval has changed, and of nothing else.\<close>

definition changed :: "u8 list \<Rightarrow> nat \<Rightarrow> nat \<Rightarrow> 'w vm \<Rightarrow> 'w vm \<Rightarrow> bool" where
  "changed bs lo hi s s' \<longleftrightarrow> vm_inv (\<lambda>_. 0) s' \<and> fs s' = fs s \<and> cur_mmap_max s' = cur_mmap_max s \<and> first_free_paddr s' = first_free_paddr s \<and>
     (\<forall>c < cur_mmap_max s. (unat c < lo \<or> hi \<le> unat c \<longrightarrow> vview bs s' c = vview bs s c) \<and>
        (anonymous s c \<longrightarrow> anonymous s' c) \<and> (\<forall>prot \<in> {PROT_READ, PROT_WRITE}. allows prot s c \<longrightarrow> allows prot s' c))"

definition writable_area :: "'w vm \<Rightarrow> nat \<Rightarrow> nat \<Rightarrow> bool" where
  "writable_area s lo hi \<longleftrightarrow> hi \<le> unat (cur_mmap_max s) \<and> (\<forall>c. lo \<le> unat c \<and> unat c < hi \<longrightarrow> writable s c)"

definition holds_at :: "u8 list \<Rightarrow> 'w vm \<Rightarrow> u64 \<Rightarrow> u8 list \<Rightarrow> bool" where
  "holds_at bs s a xs \<longleftrightarrow> (\<forall>k < length xs. vview bs s (a + of_nat k) = Some (xs ! k))"

lemma in_interval:
  fixes a c :: u64
  assumes "unat a + n < 2 ^ 64"
  shows "unat (c - a) < n \<longleftrightarrow> unat a \<le> unat c \<and> unat c < unat a + n" "unat a \<le> unat c \<Longrightarrow> unat (c - a) = unat c - unat a"
proof -
  show d: "unat (c - a) = unat c - unat a" if "unat a \<le> unat c" using that by (rule unat_diff_u64)
  show "unat (c - a) < n \<longleftrightarrow> unat a \<le> unat c \<and> unat c < unat a + n"
  proof (cases "unat a \<le> unat c")
    case False
    then have "unat (c - a) = unat c + 2 ^ 64 - unat a" using unat_sub_if_size [of c a] by (simp add: word_size)
    then show ?thesis using False assms by linarith
  qed (use d in auto)
qed

lemma changed_weaken: "changed bs lo hi s s' \<Longrightarrow> lo' \<le> lo \<Longrightarrow> hi \<le> hi' \<Longrightarrow> changed bs lo' hi' s s'"
  by (auto simp: changed_def)

lemma changed_trans: "changed bs lo hi s t \<Longrightarrow> changed bs lo hi t u \<Longrightarrow> changed bs lo hi s u"
  by (simp add: changed_def)

lemma changed_area: "changed bs lo hi s s' \<Longrightarrow> writable_area s l h \<Longrightarrow> writable_area s' l h"
  by (simp add: changed_def writable_area_def writable_def)

lemma area_part: "writable_area s lo hi \<Longrightarrow> lo \<le> l \<Longrightarrow> h \<le> hi \<Longrightarrow> writable_area s l h"
  by (auto simp: writable_area_def)

lemma holds_at_changed:
  assumes "holds_at bs s a xs" "changed bs lo hi s s'" "unat a + length xs \<le> unat (cur_mmap_max s)" "unat a + length xs \<le> lo \<or> hi \<le> unat a"
  shows "holds_at bs s' a xs"
  unfolding holds_at_def
proof (intro allI impI)
  fix k assume k: "k < length xs"
  have "unat (cur_mmap_max s) < 2 ^ 64" using unsigned_less [where w = "cur_mmap_max s" and ?'a = nat] by simp
  then have "unat a + k < 2 ^ 64" "unat (of_nat k :: u64) = k" using k assms(3) by (auto intro!: unat_of_nat64)
  then have u: "unat (a + of_nat k) = unat a + k" using unat_add_u64 by metis
  then have "a + of_nat k < cur_mmap_max s" using k assms(3) by (simp add: word_less_nat_alt)
  then show "vview bs s' (a + of_nat k) = Some (xs ! k)"
    using assms(1,2,4) k u by (auto simp: changed_def holds_at_def)
qed

lemma kwrite_area:
  assumes "vm_inv (\<lambda>_. 0) s" "writable_area s (unat a) (unat a + length xs)"
  obtains s' where "kwrite ff a xs s = Inr ((), s')" "changed bs (unat a) (unat a + length xs) s s'" "holds_at bs s' a xs"
proof -
  have m: "unat a + length xs \<le> unat (cur_mmap_max s)" "unat (cur_mmap_max s) \<le> 2 ^ 38"
    using assms(2) vm_invD(2) [OF assms(1)] by (simp_all add: writable_area_def vm_geom_def)
  then have lt: "unat a + length xs < 2 ^ 64" by simp
  note iv = in_interval [OF lt]
  have "range_writable s a (length xs)" using assms(2) m(1) by (simp add: range_writable_def writable_area_def iv(1))
  then obtain s' where s': "kwrite ff a xs s = Inr ((), s')" "stored bs a xs s s'" using kwrite_view [OF assms(1)] by blast
  have "changed bs (unat a) (unat a + length xs) s s'" using s'(2) iv(1) by (auto simp: stored_def changed_def)
  moreover have "holds_at bs s' a xs" unfolding holds_at_def
  proof (intro allI impI)
    fix k assume k: "k < length xs"
    have kk: "unat (of_nat k :: u64) = k" using k lt by (intro unat_of_nat64) simp
    then have "unat (a + of_nat k) = unat a + k" using unat_add_u64 [of a "of_nat k"] k lt by simp
    then have "a + of_nat k < cur_mmap_max s" using k m(1) by (simp add: word_less_nat_alt)
    then show "vview bs s' (a + of_nat k) = Some (xs ! k)" using s'(2) k kk by (simp add: stored_def)
  qed
  ultimately show ?thesis using that s'(1) by blast
qed

lemma kwrite_append: "kwrite ff a (xs @ ys) s = ebind (kwrite ff a xs) (\<lambda>_. kwrite ff (a + of_nat (length xs)) ys) s"
  by (induction xs arbitrary: a s) (auto simp: exec_simps add.assoc split: sum.split)

end
