(* ===== verification/Vm_Start.thy ===== *)
theory Vm_Start
  imports Vm_Invariant
begin

text \<open>
  Start-up of the memory manager: \<^verbatim>\<open>vm_init\<close> establishes the invariant.
\<close>

subsection \<open>Start-up\<close>

definition kpage :: "u64 \<Rightarrow> nat \<Rightarrow> u64" where
  "kpage a k = a + RISCV_PGSIZE * of_nat k"

lemma kpage_Suc: "kpage a (Suc k) = kpage (a + RISCV_PGSIZE) k"
  by (simp add: kpage_def algebra_simps)

lemma map_kernel_loop_spec:
  assumes "vm_inv d s" "\<forall>k < n. \<not> in_user s (kpage a k)" "map_kernel_loop n a off prot s = Inr (r, s')"
  shows "vm_inv d s' \<and> same_cfg s s' \<and> mem_size s' = mem_size s \<and>
    (\<forall>b. pte_of s' b = pte_of s b \<or> (\<exists>k < n. vpn b = vpn (kpage a k)))"
  using assms
proof (induction n arbitrary: a s)
  case (Suc n)
  let ?x = "pte_create (ppn (a + off)) (prot_to_type prot False)"
  obtain p s1 where s1: "walk_create a s = Inr (p, s1)" "map_kernel_loop n (a + RISCV_PGSIZE) off prot (set_pte p ?x s1) = Inr (r, s')"
    using Suc.prems(3) by (auto simp: exec_simps split: sum.splits)
  note w = walk_create_vm [OF Suc.prems(1) s1(1)]
  have nu: "\<not> in_user s1 a" using Suc.prems(2) w(2) by (auto simp: kpage_def in_user_def same_cfg_def)
  then have "plain (pte_of s1 a)" using vm_invD(3) [OF w(1), of a] by (auto simp: entry_ok_def plain_def)
  moreover have "entry_ok s1 a ?x"
    using nu by (simp add: entry_ok_def pte_create_V pte_create_U prot_to_type_user(2))
  ultimately have i: "vm_inv d (set_pte p ?x s1)" by (intro replace_plain [OF w(1,3)] plain_create)
  have v: "mem_size (set_pte p ?x s1) = mem_size s" using walk_create_spec [OF vm_invD(1) [OF Suc.prems(1)] s1(1)]
    by (cases s; cases s1; simp add: walk_ok_def same_rest_def set_pte_def)
  have cfg: "same_cfg s (set_pte p ?x s1)" using w(2) by (simp add: same_cfg_def)
  have "\<forall>k < n. \<not> in_user (set_pte p ?x s1) (kpage (a + RISCV_PGSIZE) k)"
    using Suc.prems(2) cfg by (auto simp: in_user_def same_cfg_def simp flip: kpage_Suc)
  from Suc.IH [OF i this s1(2)] have IH: "vm_inv d s'" "same_cfg (set_pte p ?x s1) s'" "mem_size s' = mem_size s"
    "\<And>b. pte_of s' b = pte_of (set_pte p ?x s1) b \<or> (\<exists>k < n. vpn b = vpn (kpage a (Suc k)))"
    using v by (auto simp: kpage_Suc)
  have "pte_of s' b = pte_of s b \<or> (\<exists>k < Suc n. vpn b = vpn (kpage a k))" for b
    using IH(4) [of b] pt.put_get [OF vm_invD(1) [OF w(1)] w(3), of ?x b] w(4) [of b]
    by (auto simp: kpage_def split: if_splits intro: exI [of _ 0])
  then show ?case using IH(1,3) same_cfg_trans [OF cfg IH(2)] by blast
qed (simp add: ret_apply)

text \<open>
  The state in which \<^verbatim>\<open>vm_init\<close> is called, and what it relies on: page-aligned areas, physical memory that ends
  below the 39 bits of the address space, and kernel areas outside the address space of the program.
\<close>

definition boot_state :: "u64 \<Rightarrow> 'w vm \<Rightarrow> bool" where
  "boot_state base s \<longleftrightarrow>
     vmr_base s = 0 \<and> vmrs s = replicate MAX_VMR zero_vmr \<and> cur_brk_min s = 0 \<and> cur_brk s = 0 \<and> cur_brk_max s = 0 \<and>
     cur_mmap_max s = 0 \<and> next_free_page s = 0 \<and> 4096 dvd unat base \<and> 4096 dvd unat (first_free_paddr s) \<and>
     4096 dvd unat (mem_size s) \<and> 0 < base \<and> unat base \<le> 2 ^ 38 \<and> base \<le> first_free_paddr s \<and>
     unat (first_free_paddr s) + 4096 * max 8 (unat (mem_size s) div 2 ^ 20) \<le> min (2 ^ 39) (unat base + unat (mem_size s))"

definition kernel_area :: "u64 \<Rightarrow> u64 \<Rightarrow> u64 \<Rightarrow> bool" where
  "kernel_area m a len \<longleftrightarrow> (\<forall>k < unat (ROUNDUP len RISCV_PGSIZE div RISCV_PGSIZE). unat m \<le> 4096 * unat (vpn (kpage a k)))"

lemma kernel_area_not_user:
  "kernel_area m a len \<Longrightarrow> cur_mmap_max s = m \<Longrightarrow> \<forall>k < unat (ROUNDUP len RISCV_PGSIZE div RISCV_PGSIZE). \<not> in_user s (kpage a k)"
  by (auto simp: kernel_area_def in_user_def)

lemma map_kernel_range_inv:
  assumes "kernel_area m a len"
  shows "ensures (\<lambda>s. vm_inv d s \<and> cur_mmap_max s = m) (map_kernel_range a pa len prot) (\<lambda>_ s. vm_inv d s \<and> cur_mmap_max s = m)"
proof (rule ensuresI)
  fix s r s' assume "vm_inv d s \<and> cur_mmap_max s = m" and r: "map_kernel_range a pa len prot s = Inr (r, s')"
  then have s: "vm_inv d s" "cur_mmap_max s = m" by auto
  from map_kernel_loop_spec [OF s(1) kernel_area_not_user [OF assms s(2)] r [unfolded map_kernel_range_def]] s(2)
  show "vm_inv d s' \<and> cur_mmap_max s' = m" by (simp add: same_cfg_def)
qed

lemma dvd_take_bit: "4096 dvd unat (a :: u64) \<Longrightarrow> take_bit 12 a = 0"
  using aligned_dvd [of a] by (simp add: RISCV_PGSIZE_def take_bit_eq_mask mask_eq_exp_minus_1)

text \<open>The state with an empty root table in the first page.\<close>

lemma empty_root_inv:
  fixes s :: "'w vm"
  assumes "boot_state base s0" "s = s0\<lparr>free_pages := n, first_free_page := first_free_paddr s0,
      first_free_paddr := first_free_paddr s0 + n * RISCV_PGSIZE, next_free_page := 1, pt_words := m, root_page_table := first_free_paddr s0\<rparr>"
    and "\<And>i. i < 512 \<Longrightarrow> m (first_free_paddr s0 + 8 * i) = 0" "unat n = max 8 (unat (mem_size s0) div 2 ^ 20)"
  shows "vm_inv (\<lambda>_. 0) s" "pte_of s b = 0" "unat (first_free_paddr s) = unat (first_free_paddr s0) + 4096 * unat n"
proof -
  have b: "unat (first_free_paddr s0) + 4096 * unat n \<le> 2 ^ 39" "4096 dvd unat (first_free_paddr s0)" "0 < unat (first_free_paddr s0)"
    using assms(1,4) by (auto simp: boot_state_def word_less_nat_alt word_le_nat_alt)
  have "unat n * unat RISCV_PGSIZE < 2 ^ LENGTH(64)" using b(1) by (simp add: RISCV_PGSIZE_def)
  then have "unat (n * RISCV_PGSIZE) = unat n * unat RISCV_PGSIZE" by (rule unat_mult_lem [THEN iffD1])
  then have np: "unat (n * RISCV_PGSIZE) = 4096 * unat n" by (simp add: RISCV_PGSIZE_def)
  then have "unat (first_free_paddr s0) + unat (n * RISCV_PGSIZE) < 2 ^ LENGTH(64)" using b(1) by simp
  then have f: "unat (first_free_paddr s0 + n * RISCV_PGSIZE) = unat (first_free_paddr s0) + unat (n * RISCV_PGSIZE)"
    by (rule unat_add_lem [THEN iffD1])
  then show "unat (first_free_paddr s) = unat (first_free_paddr s0) + 4096 * unat n" by (simp add: assms(2) np)
  have n1: "1 \<le> n" using assms(4) by (simp add: word_le_nat_alt)
  have "pages_ok s" using b n1 dvd_take_bit [OF b(2)] by (simp add: pages_ok_def assms(2))
  moreover have "alloc_page s (root_page_table s)" by (auto simp: alloc_page_def pg_def assms(2))
  ultimately have wf: "pt_wf s" by (rule pt_empty_wf) (simp add: assms(2,3))
  show p: "pte_of s b = 0" for b
    by (simp add: pte_of_def walk_def descend_tbl child_def assms(2,3) pt_idx_less)
  have "first_free_paddr s0 \<noteq> 0" using b(3) by auto
  moreover have "4096 dvd unat (first_free_paddr s0 + n * RISCV_PGSIZE)" unfolding f np using b(2) by simp
  ultimately have "vm_geom s"
    using assms(1) b(1) f np by (simp add: vm_geom_def assms(2) boot_state_def)
  moreover have "refs_ok (\<lambda>_. 0) s"
    using assms(1) by (simp add: refs_ok_def assms(2) boot_state_def zero_vmr_def)
  ultimately show "vm_inv (\<lambda>_. 0) s" using wf p by (simp add: vm_inv_def entry_ok_0)
qed

text \<open>Opening the address space of the program, below the memory that the kernel has mapped for itself.\<close>

lemma open_user_space:
  assumes "vm_inv (\<lambda>_. 0) s" "vmr_base s = 0" "cur_mmap_max s = 0" "cur_brk s = 0" "cur_brk_min s = 0"
    and "\<And>b. pte_of s b \<noteq> 0 \<Longrightarrow> unat m \<le> 4096 * unat (vpn b)"
    and "unat m \<le> 2 ^ 38" "4096 dvd unat m" "unat (first_free_paddr s) \<le> 2 ^ 39"
  shows "vm_inv (\<lambda>_. 0) (s\<lparr>cur_brk_max := m, cur_mmap_max := m\<rparr>)"
proof -
  let ?s = "s\<lparr>cur_brk_max := m, cur_mmap_max := m\<rparr>"
  have e: "pte_of ?s b = pte_of s b" "walk b ?s = walk b s" for b
    by (simp_all add: pte_of_def walk_def split: sum.split)
  have "entry_ok ?s b (pte_of ?s b)" for b
  proof (cases "pte_of s b = 0")
    case False
    then show ?thesis
      using vm_invD(3) [OF assms(1), of b] assms(2,3) assms(6) [OF False] unfolding e
      by (simp add: entry_ok_def in_user_def split: if_splits)
  qed (simp add: e entry_ok_0)
  moreover have "vm_geom ?s" using vm_invD(2) [OF assms(1)] assms(2,4,5,7-9) by (simp add: vm_geom_def)
  moreover have "pt_wf ?s" using vm_invD(1) [OF assms(1)]
    by (simp add: pt_wf_def pages_ok_def alloc_page_def pg_def)
  moreover have "refs_ok (\<lambda>_. 0) ?s" using vm_invD(4) [OF assms(1)] assms(2) by (simp add: refs_ok_def)
  ultimately show ?thesis by (simp add: vm_inv_def)
qed

text \<open>The pages that \<^verbatim>\<open>vm_init\<close> takes for tables, the limit of the address space, and the pages of the kernel.\<close>

definition table_pages :: "u64 \<Rightarrow> u64" where
  "table_pages sz = max 8 (drop_bit 8 (drop_bit 12 sz))"

definition user_limit :: "u64 \<Rightarrow> u64 \<Rightarrow> u64 \<Rightarrow> u64" where
  "user_limit base sz ffp = min base (sz - (ffp + table_pages sz * RISCV_PGSIZE - base))"

lemma table_pages_unat: "unat (table_pages sz) = max 8 (unat sz div 2 ^ 20)" "table_pages sz \<noteq> 0"
proof -
  show u: "unat (table_pages sz) = max 8 (unat sz div 2 ^ 20)"
    by (simp add: table_pages_def max_def word_le_nat_alt drop_bit_eq_div unat_div_distrib div_mult2_eq [symmetric])
  then show "table_pages sz \<noteq> 0" by (metis max_def unsigned_0 zero_neq_numeral le_zero_eq)
qed

lemma user_limit_ok:
  assumes "boot_state base s" "unat ffp = unat (first_free_paddr s) + 4096 * unat (table_pages (mem_size s))"
    and m: "m = min base (mem_size s - (ffp - base))"
  shows "unat m \<le> unat base" "unat m \<le> 2 ^ 38" "4096 dvd unat m" "unat (ffp - base) = unat ffp - unat base"
proof -
  have b: "4096 dvd unat base" "4096 dvd unat (mem_size s)" "unat base \<le> 2 ^ 38" "unat base \<le> unat (first_free_paddr s)"
      "4096 dvd unat (first_free_paddr s)" "unat ffp \<le> unat base + unat (mem_size s)"
    using assms(1,2) table_pages_unat by (simp_all add: boot_state_def word_le_nat_alt)
  show len: "unat (ffp - base) = unat ffp - unat base" using assms(2) b(4) by (simp add: unat_sub_if_size)
  have "unat (mem_size s - (ffp - base)) = unat (mem_size s) - (unat ffp - unat base)"
    using len assms(2) b(4,6) by (simp add: unat_sub_if_size)
  then have u: "unat m = min (unat base) (unat (mem_size s) - (unat ffp - unat base))"
    unfolding m by (simp add: min_def word_le_nat_alt)
  then show "unat m \<le> unat base" "unat m \<le> 2 ^ 38" using b(3) by simp_all
  show "4096 dvd unat m" unfolding u assms(2) using b(1,2,5) by (simp add: min_def dvd_diff_nat)
qed

lemma kpage_above:
  assumes "4096 dvd unat base" "unat base + 4096 * j < 2 ^ 39"
  shows "unat base \<le> 4096 * unat (vpn (kpage base j))"
proof -
  have j64: "unat (of_nat j :: u64) = j" by (rule unat_of_nat64) (use assms(2) in simp)
  then have "unat RISCV_PGSIZE * unat (of_nat j :: u64) < 2 ^ LENGTH(64)" using assms(2) by (simp add: RISCV_PGSIZE_def)
  then have "unat (RISCV_PGSIZE * of_nat j) = unat RISCV_PGSIZE * unat (of_nat j :: u64)" by (rule unat_mult_lem [THEN iffD1])
  then have pj: "unat (RISCV_PGSIZE * of_nat j) = 4096 * j" by (simp add: j64 RISCV_PGSIZE_def)
  then have "unat base + unat (RISCV_PGSIZE * of_nat j) < 2 ^ 64" using assms(2) by simp
  then have "unat (kpage base j) = unat base + 4096 * j" unfolding kpage_def using unat_add_u64 pj by metis
  then have "unat (vpn (kpage base j)) = (unat base + 4096 * j) div 4096" using assms(2) by (simp add: vpn_unat)
  then show ?thesis using assms(1) by (auto elim!: dvdE)
qed

text \<open>The first step of \<^verbatim>\<open>vm_init\<close>: an empty root table, then the kernel's own memory, all of it above the program's.\<close>

lemma kernel_mapped:
  assumes "boot_state base s" "vm_inv (\<lambda>_. 0) s1" "\<And>b. pte_of s1 b = 0" "cur_mmap_max s1 = 0"
    and ffp: "unat ffp = unat (first_free_paddr s) + 4096 * unat (table_pages (mem_size s))" and m: "m = min base (mem_size s - (ffp - base))"
    and s2: "map_kernel_range base base (ffp - base) prot s1 = Inr (r, s2)"
  shows "vm_inv (\<lambda>_. 0) s2" "same_cfg s1 s2" "mem_size s2 = mem_size s1" "\<And>b. pte_of s2 b \<noteq> 0 \<Longrightarrow> unat m \<le> 4096 * unat (vpn b)"
proof -
  have b: "4096 dvd unat base" "4096 dvd unat (first_free_paddr s)" "unat ffp \<le> 2 ^ 39" "unat base \<le> unat (first_free_paddr s)"
    using assms(1) table_pages_unat by (simp_all add: boot_state_def ffp word_le_nat_alt)
  note l = user_limit_ok [OF assms(1) ffp m]
  have "\<forall>k < unat (ROUNDUP (ffp - base) RISCV_PGSIZE div RISCV_PGSIZE). \<not> in_user s1 (kpage base k)" using assms(4) by (simp add: in_user_def)
  note k = map_kernel_loop_spec [OF assms(2) this s2 [unfolded map_kernel_range_def]]
  then show "vm_inv (\<lambda>_. 0) s2" "same_cfg s1 s2" "mem_size s2 = mem_size s1" by simp_all
  have "4096 dvd unat (ffp - base)" unfolding l(4) ffp using b(1,2) by (simp add: dvd_diff_nat)
  then obtain q where q: "unat (ffp - base) = 4096 * q" by (rule dvdE)
  have "unat (ffp - base) \<le> 2 ^ 40" unfolding l(4) using b(3) by simp
  then have "unat (ROUNDUP (ffp - base) RISCV_PGSIZE) = 4096 * q"
    using ROUNDUP_unat [of "ffp - base"] unfolding pages_of_def q by simp
  then have nq: "unat (ROUNDUP (ffp - base) RISCV_PGSIZE div RISCV_PGSIZE) = q" by (simp add: unat_div_distrib RISCV_PGSIZE_def)
  show "unat m \<le> 4096 * unat (vpn b)" if nz: "pte_of s2 b \<noteq> 0" for b
  proof -
    have "pte_of s2 b = pte_of s1 b \<or> (\<exists>j < q. vpn b = vpn (kpage base j))" using k unfolding nq by blast
    then obtain j where j: "j < q" "vpn b = vpn (kpage base j)" using assms(3) [of b] nz by auto
    have "unat base + 4096 * j < 2 ^ 39" using j(1) q l(4) b(3,4) ffp by linarith
    from kpage_above [OF b(1) this] j(2) l(1) show ?thesis by simp
  qed
qed

text \<open>
  \<^verbatim>\<open>vm_init\<close>, started on an aligned memory with the kernel's areas outside the address space of the program,
  leaves well-formed tables in which every valid entry is closed to the program, and no region in use.
\<close>

lemma vm_init_inv:
  assumes "boot_state base s" "m = user_limit base (mem_size s) (first_free_paddr s)"
    and "kernel_area m (push_bit RISCV_PGSHIFT (mem_MASK + 1) - (sbi_term - sbi_start)) (sbi_term - sbi_start)"
    and "kernel_area m bram_BASE (bram_MASK + 1)"
    and "vm_init base mem_MASK bram_BASE bram_MASK sbi_start sbi_term s = Inr (r, s')"
  shows "vm_inv (\<lambda>_. 0) s' \<and> cur_mmap_max s' = m"
proof -
  let ?n = "table_pages (mem_size s)" and ?f = "first_free_paddr s"
  let ?ffp = "?f + ?n * RISCV_PGSIZE"
  define s1 where "s1 = s\<lparr>free_pages := ?n, first_free_page := ?f, first_free_paddr := ?ffp, next_free_page := 1,
      pt_words := zero_page ?f (pt_words s), root_page_table := ?f\<rparr>"
  have "zero_page ?f (pt_words s) (?f + 8 * i) = 0" if "i < 512" for i
    using slot_offset(1) [OF that] by (simp add: zero_page_def RISCV_PGSIZE_def)
  note i1 = empty_root_inv [OF assms(1) s1_def this table_pages_unat(1)]
  have ffp: "unat ?ffp = unat ?f + 4096 * unat ?n" using i1(3) by (simp add: s1_def)
  have m: "m = min base (mem_size s - (?ffp - base))" by (simp add: assms(2) user_limit_def)
  have al: "page_alloc (s\<lparr>free_pages := ?n, first_free_page := ?f, first_free_paddr := ?ffp\<rparr>)
      = Inr (?f, s1\<lparr>root_page_table := root_page_table s\<rparr>)"
    using assms(1) table_pages_unat(2) by (cases s) (simp add: page_alloc_def Let_def s1_def boot_state_def)
  obtain s2 where s2: "map_kernel_range base base (?ffp - base) (PROT_READ OR PROT_WRITE OR PROT_EXEC) s1 = Inr ((), s2)"
    and r: "ebind (map_kernel_range (push_bit RISCV_PGSHIFT (mem_MASK + 1) - (sbi_term - sbi_start)) sbi_start
              (sbi_term - sbi_start) (PROT_READ OR PROT_EXEC)) (\<lambda>_.
       map_kernel_range bram_BASE bram_BASE (bram_MASK + 1) (PROT_READ OR PROT_WRITE OR PROT_EXEC))
       (let m = min base (mem_size s2 - (first_free_paddr s2 - base)) in s2\<lparr>cur_brk_max := m, cur_mmap_max := m\<rparr>) = Inr (r, s')"
    using assms(5) al unfolding vm_init_def
    by (cases s) (auto simp: exec_simps s1_def RISCV_PGLEVEL_BITS_def RISCV_PGSHIFT_def Let_def table_pages_def split: sum.splits)
  have z: "cur_mmap_max s1 = 0" "vmr_base s1 = 0" "cur_brk s1 = 0" "cur_brk_min s1 = 0" "mem_size s1 = mem_size s" "first_free_paddr s1 = ?ffp"
    using assms(1) by (simp_all add: s1_def boot_state_def)
  note k = kernel_mapped [OF assms(1) i1(1,2) z(1) ffp m s2]
  let ?t = "s2\<lparr>cur_brk_max := m, cur_mmap_max := m\<rparr>"
  have "unat ?ffp \<le> 2 ^ 39" using assms(1) table_pages_unat by (simp add: ffp boot_state_def)
  then have "vm_inv (\<lambda>_. 0) ?t"
    using k z user_limit_ok(2,3) [OF assms(1) ffp m] by (intro open_user_space) (auto simp: same_cfg_def)
  moreover have "(let m = min base (mem_size s2 - (first_free_paddr s2 - base)) in s2\<lparr>cur_brk_max := m, cur_mmap_max := m\<rparr>) = ?t"
    using k z(5,6) by (simp add: Let_def m same_cfg_def)
  ultimately have t: "vm_inv (\<lambda>_. 0) ?t \<and> cur_mmap_max ?t = m"
      "ebind (map_kernel_range (push_bit RISCV_PGSHIFT (mem_MASK + 1) - (sbi_term - sbi_start)) sbi_start
          (sbi_term - sbi_start) (PROT_READ OR PROT_EXEC)) (\<lambda>_.
        map_kernel_range bram_BASE bram_BASE (bram_MASK + 1) (PROT_READ OR PROT_WRITE OR PROT_EXEC)) ?t = Inr (r, s')" using r by simp_all
  have "ensures (\<lambda>s. vm_inv (\<lambda>_. 0) s \<and> cur_mmap_max s = m)
      (ebind (map_kernel_range (push_bit RISCV_PGSHIFT (mem_MASK + 1) - (sbi_term - sbi_start)) sbi_start
          (sbi_term - sbi_start) (PROT_READ OR PROT_EXEC)) (\<lambda>_.
        map_kernel_range bram_BASE bram_BASE (bram_MASK + 1) (PROT_READ OR PROT_WRITE OR PROT_EXEC)))
      (\<lambda>_ s. vm_inv (\<lambda>_. 0) s \<and> cur_mmap_max s = m)"
    by (rule ens_bind [OF map_kernel_range_inv [OF assms(3)] map_kernel_range_inv [OF assms(4)]])
  from ensuresD [OF this t] show ?thesis .
qed

text \<open>16 MB of memory at \<^verbatim>\<open>0x40000000\<close>, of which the kernel and the SBI code take a page each.\<close>

definition boot_demo :: "toy_world vm" where
  "boot_demo =
     \<lparr>pt_words = (\<lambda>_. 0xbad), root_page_table = 0, first_free_page = 0, next_free_page = 0, free_pages = 0,
      vmr_base = 0, vmrs = replicate MAX_VMR zero_vmr, cur_brk_min = 0, cur_brk = 0, cur_brk_max = 0,
      cur_mmap_max = 0, cur_stack_top = 0, first_free_paddr = 0x40001000, mem_size = 0x1000000, have_vm = True,
      ram = (\<lambda>_. 0), fs = toy_state\<rparr>"

lemma boot_demo_runs:
  "case vm_init 0x40000000 0x3fffffff 0x80000000 0xfff 0x40000000 0x40001000 boot_demo of Inl _ \<Rightarrow> False | Inr _ \<Rightarrow> True"
  by code_simp

lemma boot_demo_ok:
  "boot_state 0x40000000 boot_demo" "user_limit 0x40000000 (mem_size boot_demo) (first_free_paddr boot_demo) = 0xfef000"
  "kernel_area 0xfef000 (push_bit RISCV_PGSHIFT (0x3fffffff + 1) - (0x40001000 - 0x40000000)) (0x40001000 - 0x40000000)"
  "kernel_area 0xfef000 0x80000000 (0xfff + 1)"
proof -
  show "boot_state 0x40000000 boot_demo" by (simp add: boot_state_def boot_demo_def)
  show "user_limit 0x40000000 (mem_size boot_demo) (first_free_paddr boot_demo) = 0xfef000" by code_simp
  have "ROUNDUP 0x1000 RISCV_PGSIZE div RISCV_PGSIZE = 1" by code_simp
  moreover have "vpn (kpage (push_bit RISCV_PGSHIFT (0x3fffffff + 1) - (0x40001000 - 0x40000000)) 0) = 0x7ffffff"
    "vpn (kpage 0x80000000 0) = 0x80000" by code_simp+
  ultimately show "kernel_area 0xfef000 (push_bit RISCV_PGSHIFT (0x3fffffff + 1) - (0x40001000 - 0x40000000)) (0x40001000 - 0x40000000)"
    "kernel_area 0xfef000 0x80000000 (0xfff + 1)" by (simp_all add: kernel_area_def)
qed

end
