(* ===== verification/Pk_Boot.thy ===== *)
theory Pk_Boot
  imports Pk_Elf Vm_View Vm_Start C_String Pk_Program
begin

text \<open>
  How the boot loader starts a program (\<^verbatim>\<open>fs/bbl.c\<close>): the command line that the host leaves in memory, the stack
  with the program headers, the arguments and the auxiliary vector, and the registers with which the program
  is entered. The counters of \<^verbatim>\<open>read_uarch_counters\<close> are disabled in this program, and the messages of the kernel
  on the console are left out, as in the system calls.
\<close>

subsection \<open>The start of a program\<close>

definition SSTATUS_SIE :: u64 where "SSTATUS_SIE = 2"
definition SSTATUS_SPIE :: u64 where "SSTATUS_SPIE = 0x20"
definition SSTATUS_SPP :: u64 where "SSTATUS_SPP = 0x100"

definition init_tf :: "u64 \<Rightarrow> u64 \<Rightarrow> u64 \<Rightarrow> trapframe_t" where
  "init_tf sstatus pc sp =
     \<lparr>gpr = (replicate 32 0)[2 := sp], status = (sstatus AND NOT SSTATUS_SPP AND NOT SSTATUS_SIE) OR SSTATUS_SPIE,
      epc = pc, badvaddr = 0, cause = 0, insn = 0\<rparr>"

text \<open>The strings are copied one below the other; their addresses replace the arguments.\<close>

fun push_strings :: "'w fatfs \<Rightarrow> u64 \<Rightarrow> u8 list list \<Rightarrow> ('w, u64 \<times> u64 list) vexec" where
  "push_strings ff stack_top [] = ret (stack_top, [])"
| "push_strings ff stack_top (arg # args) =
     (let top = stack_top - of_nat (length arg + 1) in
      ebind (kwrite ff top (arg @ [0])) (\<lambda>_.
      ebind (push_strings ff top args) (\<lambda>(t, ptrs). ret (t, top # ptrs))))"

fun push_words :: "'w fatfs \<Rightarrow> u64 \<Rightarrow> u64 list \<Rightarrow> ('w, unit) vexec" where
  "push_words ff sp [] = ret ()"
| "push_words ff sp (w # ws) = ebind (kstore64 ff sp w) (\<lambda>_. push_words ff (sp + 8) ws)"

definition aux_vector :: "elf_info \<Rightarrow> u64 \<Rightarrow> (u64 \<times> u64) list" where
  "aux_vector info stack_top =
     [(9, entry info), (5, scast (phnum info)), (4, scast (phent info)), (3, phdr info), (6, RISCV_PGSIZE), (23, 0),
      (25, stack_top), (0, 0)]"

definition stack_words :: "u64 list \<Rightarrow> (u64 \<times> u64) list \<Rightarrow> u64 list" where
  "stack_words ptrs aux = of_nat (length ptrs) # ptrs @ [0, 0] @ concat (map (\<lambda>(k, v). [k, v]) aux)"

text \<open>\<^verbatim>\<open>STACK_INIT\<close> for 64-bit words.\<close>

definition stack_init :: "'w fatfs \<Rightarrow> elf_info \<Rightarrow> u64 \<Rightarrow> u64 list \<Rightarrow> ('w, u64) vexec" where
  "stack_init ff info stack_top ptrs =
     (let aux = aux_vector info stack_top;
          sp = (stack_top - of_nat (1 + length ptrs + 1 + 1 + 2 * length aux) * 8) AND - 16
      in ebind (push_words ff sp (stack_words ptrs aux)) (\<lambda>_. ret sp))"

definition run_loaded_program :: "'w env \<Rightarrow> u64 \<Rightarrow> elf_info \<Rightarrow> u8 list list \<Rightarrow> ('w, elf_info \<times> trapframe_t) sysexec" where
  "run_loaded_program ev sstatus info argv =
     ebind (gets (\<lambda>s. cur_stack_top (kvm s) - phdr_size info)) (\<lambda>top1.
     ebind (on_vm (kwrite (e_fat ev) top1 (take (unat (phdr_size info)) (phdr_buf info)))) (\<lambda>_.
     ebind (on_vm (push_strings (e_fat ev) top1 argv)) (\<lambda>(top2, ptrs).
     ebind (on_vm (stack_init (e_fat ev) (info\<lparr>phdr := top1\<rparr>) (top2 AND - 8) ptrs)) (\<lambda>sp.
     ebind (pfc_log ev 0) (\<lambda>_.
       ret (info\<lparr>phdr := top1, t0 := (if t0 info \<noteq> 0 then e_cycle ev else 0), instret0 := (if instret0 info \<noteq> 0 then e_instret ev else 0)\<rparr>,
            init_tf sstatus (entry info) sp))))))"

subsection \<open>The command line\<close>

text \<open>
  The command line lies in kernel memory \<open>m\<close>, as do the string constants of the parser, at the addresses
  \<open>delim\<close>, \<open>lt\<close> and \<open>gt\<close>. A string that does not end or a null pointer that is used is not followed.
\<close>

definition MAX_ARGS :: nat where "MAX_ARGS = 64"

definition str_at :: "mem \<Rightarrow> u64 \<Rightarrow> u8 list option" where
  "str_at m p =
     (if p = 0 then None else map_option (\<lambda>n. map (\<lambda>i. m (p + of_nat i)) [0..<unat n]) (strlen m p))"

definition some_or_wild :: "'a option \<Rightarrow> ('w, 'a) sysexec" where
  "some_or_wild x = (case x of None \<Rightarrow> on_vm vwild | Some y \<Rightarrow> ret y)"

text \<open>
  The loop that fills \<^verbatim>\<open>argv\<close>, with the number of entries that are left; the list ends with the value that
  ends the loop.
\<close>

fun collect_args :: "mem \<Rightarrow> strtok_state \<Rightarrow> u64 \<Rightarrow> nat \<Rightarrow> (mem \<times> u64 list) option" where
  "collect_args m st delim 0 = None"
| "collect_args m st delim (Suc k) =
     Option.bind (strtok m st 0 delim) (\<lambda>(p, m', st').
       if p = 0 then Some (m', [p])
       else
         Option.bind (strlen m' p) (\<lambda>n.
           if n > 0 then map_option (\<lambda>(m'', ps). (m'', p # ps)) (collect_args m' st' delim k)
           else Some (m', [p])))"

text \<open>The loop over \<^verbatim>\<open>argv\<close> that redirects input and output.\<close>

fun redirect :: "'w env \<Rightarrow> mem \<Rightarrow> u64 \<Rightarrow> u64 \<Rightarrow> u64 list \<Rightarrow> ('w, u64 list) sysexec" where
  "redirect ev m lt gt (p # q # ps) =
     (if p = 0 then ebind (redirect ev m lt gt (q # ps)) (\<lambda>r. ret (p # r))
      else
        ebind (some_or_wild (strncmp m p lt 1)) (\<lambda>c.
          if c = 0 then
            ebind (on_files (file_getcwd (e_fat ev) 256)) (\<lambda>_.
            ebind (some_or_wild (str_at m q)) (\<lambda>name.
            ebind (on_files (file_reopen (e_fat ev) 0 name 0)) (\<lambda>_.
            ebind (redirect ev m lt gt (0 # ps)) (\<lambda>r. ret (0 # r)))))
          else
            ebind (some_or_wild (strncmp m p gt 1)) (\<lambda>c.
              if c = 0 then
                ebind (some_or_wild (str_at m q)) (\<lambda>name.
                ebind (on_files (file_reopen (e_fat ev) 1 name 0x201)) (\<lambda>_.
                ebind (redirect ev m lt gt (0 # ps)) (\<lambda>r. ret (0 # r))))
              else ebind (redirect ev m lt gt (q # ps)) (\<lambda>r. ret (p # r)))))"
| "redirect ev m lt gt ps = ret ps"

definition args_parser :: "'w env \<Rightarrow> mem \<Rightarrow> strtok_state \<Rightarrow> u64 \<Rightarrow> u64 \<Rightarrow> u64 \<Rightarrow> u64 \<Rightarrow> ('w, u64 \<times> mem \<times> u64 list) sysexec" where
  "args_parser ev m st case_buffer delim lt gt =
     ebind (some_or_wild (strtok m st case_buffer delim)) (\<lambda>(spec_case, m1, st1).
     ebind (some_or_wild (strtok m1 st1 0 delim)) (\<lambda>(case_dir, m2, st2).
     ebind (some_or_wild (str_at m2 case_dir)) (\<lambda>dir.
     ebind (on_files (file_chdir (e_fat ev) dir)) (\<lambda>_.
     ebind (some_or_wild (collect_args m2 st2 delim MAX_ARGS)) (\<lambda>(m3, argv).
     ebind (redirect ev m3 lt gt argv) (\<lambda>argv'.
       ret (spec_case, m3, filter (\<lambda>p. p \<noteq> 0) (take (length argv - 1) argv'))))))))"

subsection \<open>Booting\<close>

text \<open>
  \<open>phdrs\<close> is the array for the program headers, which is not initialised. The line is parsed into pointers; the
  program is loaded from the file that the first one names.
\<close>

definition rest_of_boot_loader ::
  "'w env \<Rightarrow> u64 \<Rightarrow> u8 list \<Rightarrow> mem \<Rightarrow> u64 \<Rightarrow> u64 \<Rightarrow> u64 \<Rightarrow> u64 \<Rightarrow> ('w, elf_info \<times> trapframe_t) sysexec" where
  "rest_of_boot_loader ev sstatus phdrs m case_buffer delim lt gt =
     (let info = \<lparr>phent = 0, phnum = 0, phdr = 0, phdr_buf = phdrs, phdr_size = 1024, entry = 0, t0 = - 1, instret0 = - 1\<rparr> in
      ebind (on_files (file_mount (e_fat ev))) (\<lambda>_.
      ebind (on_files (file_mount (e_fat ev))) (\<lambda>_.
      ebind (args_parser ev m \<lparr>s_end = 0, cur_ptr = 0\<rparr> case_buffer delim lt gt) (\<lambda>(_, m', ptrs).
      ebind (some_or_wild (those (map (str_at m') ptrs))) (\<lambda>argv.
        case argv of
          [] \<Rightarrow> on_vm vwild
        | fn # _ \<Rightarrow>
            ebind (on_vm (load_elf (e_fat ev) fn info)) (\<lambda>(info', _).
              run_loaded_program ev sstatus info' argv))))))"

definition boot_loader ::
  "'w env \<Rightarrow> u64 \<Rightarrow> u64 \<Rightarrow> u64 \<Rightarrow> u64 \<Rightarrow> u64 \<Rightarrow> u64 \<Rightarrow> ('w, u64) sysexec" where
  "boot_loader ev DRAM_BASE mem_MASK bram_BASE bram_MASK sbi_start sbi_term =
     ebind (on_vm (vm_init DRAM_BASE mem_MASK bram_BASE bram_MASK sbi_start sbi_term)) (\<lambda>_.
     ebind (modify (\<lambda>s. s\<lparr>kvm := (kvm s)\<lparr>fs := file_init (fs (kvm s))\<rparr>\<rparr>)) (\<lambda>_.
       on_vm (pk_vm_init (e_fat ev))))"

subsection \<open>The initial stack\<close>

definition string_bytes :: "u8 list list \<Rightarrow> nat" where
  "string_bytes argv = (\<Sum>a\<leftarrow>argv. length a + 1)"

lemma unat_sub_small: "n \<le> unat (a :: u64) \<Longrightarrow> unat (a - of_nat n) = unat a - n"
proof -
  assume n: "n \<le> unat a"
  have "unat a < 2 ^ 64" using unsigned_less [where w = a and ?'a = nat] by simp
  then have "unat (of_nat n :: u64) = n" using n by (intro unat_of_nat64) simp
  then show ?thesis using n unat_diff_u64 [of "of_nat n" a] by simp
qed

lemma push_strings_area:
  assumes "vm_inv (\<lambda>_. 0) s" "string_bytes argv \<le> unat tp" "writable_area s (unat tp - string_bytes argv) (unat tp)"
  shows "\<exists>s' ptrs. push_strings ff tp argv s = Inr ((tp - of_nat (string_bytes argv), ptrs), s') \<and>
    changed bs (unat tp - string_bytes argv) (unat tp) s s' \<and> length ptrs = length argv \<and>
    (\<forall>i < length argv. unat tp - string_bytes argv \<le> unat (ptrs ! i) \<and> unat (ptrs ! i) + length (argv ! i) < unat tp \<and>
       holds_at bs s' (ptrs ! i) (argv ! i @ [0]))"
  using assms
proof (induction argv arbitrary: tp s)
  case Nil
  then show ?case by (simp add: string_bytes_def ret_apply changed_def)
next
  case (Cons a as)
  let ?n = "length a + 1" and ?S = "string_bytes as"
  have S: "string_bytes (a # as) = ?n + ?S" by (simp add: string_bytes_def)
  define t where "t = tp - of_nat ?n"
  have ut: "unat t = unat tp - ?n" unfolding t_def by (rule unat_sub_small) (use Cons.prems(2) S in simp)
  have le: "?n + ?S \<le> unat tp" using Cons.prems(2) S by simp
  have tp_end: "unat t + length (a @ [0]) = unat tp" using ut le by simp
  have w: "writable_area s (unat t) (unat t + length (a @ [0]))"
    unfolding tp_end by (rule area_part [OF Cons.prems(3)]) (use S ut in simp_all)
  obtain s1 where s1: "kwrite ff t (a @ [0]) s = Inr ((), s1)" "changed bs (unat t) (unat tp) s s1" "holds_at bs s1 t (a @ [0])"
    by (rule kwrite_area [OF Cons.prems(1) w, unfolded tp_end])
  have i1: "vm_inv (\<lambda>_. 0) s1" using s1(2) by (simp add: changed_def)
  have m: "unat tp \<le> unat (cur_mmap_max s1)" using s1(2) Cons.prems(3) by (simp add: changed_def writable_area_def)
  have w2: "writable_area s1 (unat t - ?S) (unat t)"
    by (rule area_part [OF changed_area [OF s1(2) Cons.prems(3)]]) (use S ut in simp_all)
  have "?S \<le> unat t" using le ut by simp
  from Cons.IH [OF i1 this w2] obtain s2 ptrs where s2: "push_strings ff t as s1 = Inr ((t - of_nat ?S, ptrs), s2)"
      "changed bs (unat t - ?S) (unat t) s1 s2" "length ptrs = length as"
      "\<forall>i < length as. unat t - ?S \<le> unat (ptrs ! i) \<and> unat (ptrs ! i) + length (as ! i) < unat t \<and> holds_at bs s2 (ptrs ! i) (as ! i @ [0])"
    by blast
  have "tp - of_nat (string_bytes (a # as)) = t - of_nat ?S" unfolding S t_def by simp
  then have run: "push_strings ff tp (a # as) s = Inr ((tp - of_nat (string_bytes (a # as)), t # ptrs), s2)"
    using s1(1) s2(1) by (simp add: exec_simps Let_def t_def [symmetric, simplified])
  have "changed bs (unat tp - string_bytes (a # as)) (unat tp) s s2"
    by (rule changed_trans [OF changed_weaken [OF s1(2)] changed_weaken [OF s2(2)]]) (use S ut in simp_all)
  moreover have "holds_at bs s2 t (a @ [0])"
    by (rule holds_at_changed [OF s1(3) s2(2)]) (use tp_end m in simp_all)
  ultimately show ?case using run s2(3,4) S ut le by (auto simp: less_Suc_eq_0_disj intro!: exI [of _ s2] exI [of _ "t # ptrs"])
qed

lemma push_words_kwrite: "push_words ff sp ws s = kwrite ff sp (concat (map (le_bytes 8) ws)) s"
proof (induction ws arbitrary: sp s)
  case (Cons w ws)
  have "length (le_bytes 8 w) = 8" by (simp add: length_le_bytes)
  then show ?case using Cons by (simp add: kstore64_def kwrite_append exec_simps split: sum.split)
qed (simp add: ret_apply)


lemma align_down:
  assumes "n < 64"
  shows "unat (x AND NOT (mask n) :: u64) = 2 ^ n * (unat x div 2 ^ n)"
proof -
  have "x AND NOT (mask n) = push_bit n (drop_bit n x)"
    by (rule bit_word_eqI) (auto simp: bit_simps)
  also have "\<dots> = x div 2 ^ n * 2 ^ n" by (simp add: push_bit_eq_mult drop_bit_eq_div)
  finally have e: "x AND NOT (mask n) = x div 2 ^ n * 2 ^ n" .
  have p: "unat (2 ^ n :: u64) = 2 ^ n" using assms unat_pow2_u64 by blast
  have "unat x div 2 ^ n * 2 ^ n \<le> unat x" by (rule div_times_less_eq_dividend)
  then have "unat (x div 2 ^ n) * unat (2 ^ n :: u64) < 2 ^ LENGTH(64)"
    unfolding unat_div_distrib p by (rule le_less_trans) (rule unsigned_less)
  then have "unat (x div 2 ^ n * 2 ^ n) = unat (x div 2 ^ n) * unat (2 ^ n :: u64)" by (rule unat_mult_lem [THEN iffD1])
  then show ?thesis unfolding e unat_div_distrib p by simp
qed

lemma align_8_16:
  "unat (x AND - 8 :: u64) \<le> unat x" "unat x \<le> unat (x AND - 8) + 7"
  "16 dvd unat (x AND - 16)" "unat (x AND - 16 :: u64) \<le> unat x" "unat x \<le> unat (x AND - 16) + 15"
proof -
  have m: "(- 8 :: u64) = NOT (mask 3)" "(- 16 :: u64) = NOT (mask 4)" by (simp_all add: not_eq_complement mask_eq_exp_minus_1)
  show "unat (x AND - 8 :: u64) \<le> unat x" "unat x \<le> unat (x AND - 8) + 7" unfolding m align_down [of 3 x, simplified] by simp_all
  show "16 dvd unat (x AND - 16)" "unat (x AND - 16 :: u64) \<le> unat x" "unat x \<le> unat (x AND - 16) + 15"
    unfolding m align_down [of 4 x, simplified] by simp_all
qed

lemma pfc_log_vm: "\<exists>s'. pfc_log ev c s = Inr ((), s') \<and> kvm s' = kvm s"
  by (simp add: pfc_log_def exec_simps)

lemma user_status: "((x AND NOT SSTATUS_SPP AND NOT SSTATUS_SIE) OR SSTATUS_SPIE) AND SSTATUS_SPP = 0"
proof -
  have p: "SSTATUS_SPP = 2 ^ 8" by (simp add: SSTATUS_SPP_def)
  show ?thesis unfolding p and_exp_eq_0_iff_not_bit
    by (simp add: SSTATUS_SPIE_def bit_simps)
qed

definition stack_need :: "elf_info \<Rightarrow> u8 list list \<Rightarrow> nat" where
  "stack_need info argv = unat (phdr_size info) + string_bytes argv + 8 * (length argv + 19) + 22"

text \<open>The three pieces of the stack, from the top down.\<close>

lemma start_stack:
  fixes s :: "'w vm"
  assumes i: "vm_inv (\<lambda>_. 0) s" and w: "writable_area s (unat tp - stack_need info argv) (unat tp)" and need: "stack_need info argv \<le> unat tp"
    and buf: "length (phdr_buf info) = unat (phdr_size info)" and top1: "top1 = tp - phdr_size info"
  obtains s1 top2 ptrs s2 where
    "kwrite ff top1 (phdr_buf info) s = Inr ((), s1)" "push_strings ff top1 argv s1 = Inr ((top2, ptrs), s2)"
    "changed bs (unat top2) (unat tp) s s2" "holds_at bs s2 top1 (phdr_buf info)" "length ptrs = length argv"
    "\<forall>i < length argv. holds_at bs s2 (ptrs ! i) (argv ! i @ [0])"
    "\<forall>i < length argv. unat top2 \<le> unat (ptrs ! i) \<and> unat (ptrs ! i) + length (argv ! i) < unat tp"
    "unat top2 + string_bytes argv = unat top1" "unat top1 + unat (phdr_size info) = unat tp"
proof -
  have P: "unat (phdr_size info) \<le> unat tp" using need by (simp add: stack_need_def)
  then have t1: "unat top1 = unat tp - unat (phdr_size info)" using unat_diff_u64 by (simp add: top1)
  then have t1': "unat top1 + length (phdr_buf info) = unat tp" using P buf by simp
  have w1: "writable_area s (unat top1) (unat top1 + length (phdr_buf info))"
    unfolding t1' by (rule area_part [OF w]) (use t1 in \<open>simp_all add: stack_need_def\<close>)
  obtain s1 where s1: "kwrite ff top1 (phdr_buf info) s = Inr ((), s1)" "changed bs (unat top1) (unat tp) s s1" "holds_at bs s1 top1 (phdr_buf info)"
    by (rule kwrite_area [OF i w1, unfolded t1'])
  have i1: "vm_inv (\<lambda>_. 0) s1" and m: "unat tp \<le> unat (cur_mmap_max s1)" using s1(2) w by (simp_all add: changed_def writable_area_def)
  have S: "string_bytes argv \<le> unat top1" using need t1 by (simp add: stack_need_def)
  have "writable_area s1 (unat top1 - string_bytes argv) (unat top1)"
    by (rule area_part [OF changed_area [OF s1(2) w]]) (use t1 in \<open>simp_all add: stack_need_def\<close>)
  from push_strings_area [OF i1 S this] obtain s2 ptrs where s2:
      "push_strings ff top1 argv s1 = Inr ((top1 - of_nat (string_bytes argv), ptrs), s2)"
      "changed bs (unat top1 - string_bytes argv) (unat top1) s1 s2" "length ptrs = length argv"
      "\<forall>i < length argv. unat top1 - string_bytes argv \<le> unat (ptrs ! i) \<and> unat (ptrs ! i) + length (argv ! i) < unat top1 \<and>
         holds_at bs s2 (ptrs ! i) (argv ! i @ [0])" by blast
  let ?top2 = "top1 - of_nat (string_bytes argv)"
  have t2: "unat ?top2 = unat top1 - string_bytes argv" by (rule unat_sub_small [OF S])
  have "changed bs (unat ?top2) (unat tp) s s2"
    by (rule changed_trans [OF changed_weaken [OF s1(2)] changed_weaken [OF s2(2)]]) (use t1 t2 in simp_all)
  moreover have "holds_at bs s2 top1 (phdr_buf info)"
    by (rule holds_at_changed [OF s1(3) s2(2)]) (use t1' m in simp_all)
  moreover have "unat ?top2 \<le> unat (ptrs ! i) \<and> unat (ptrs ! i) + length (argv ! i) < unat tp" if "i < length argv" for i
    using s2(4) that unfolding t2 t1 by fastforce
  ultimately show ?thesis using that [OF s1(1) s2(1)] s2(3,4) t1 t2 S P by simp
qed

lemma stack_init_area:
  assumes i: "vm_inv (\<lambda>_. 0) s" and n: "8 * (length ptrs + 19) \<le> unat tp"
    and w: "writable_area s (unat tp - 8 * (length ptrs + 19) - 15) (unat tp)"
  obtains sp s' where "stack_init ff info tp ptrs s = Inr (sp, s')" "16 dvd unat sp" "unat tp \<le> unat sp + 8 * (length ptrs + 19) + 15"
    "unat sp + 8 * (length ptrs + 19) \<le> unat tp" "changed bs (unat sp) (unat tp) s s'"
    "holds_at bs s' sp (concat (map (le_bytes 8) (stack_words ptrs (aux_vector info tp))))"
proof -
  let ?n = "8 * (length ptrs + 19)" and ?bytes = "concat (map (le_bytes 8) (stack_words ptrs (aux_vector info tp)))"
  define sp where "sp = (tp - of_nat (length ptrs + 19) * 8) AND - 16"
  have len: "length ?bytes = ?n" by (simp add: length_concat comp_def length_le_bytes stack_words_def aux_vector_def sum_list_triv)
  have t: "unat (tp - of_nat (length ptrs + 19) * 8) = unat tp - ?n" using unat_sub_small [OF n] by (simp add: mult.commute)
  note a = align_8_16(3-5) [of "tp - of_nat (length ptrs + 19) * 8", folded sp_def, unfolded t]
  have hi: "unat sp + ?n \<le> unat tp" using a(2) n by simp
  have w': "writable_area s (unat sp) (unat sp + length ?bytes)"
    unfolding len by (rule area_part [OF w]) (use a(3) hi in simp_all)
  obtain s' where s': "kwrite ff sp ?bytes s = Inr ((), s')" "changed bs (unat sp) (unat sp + ?n) s s'" "holds_at bs s' sp ?bytes"
    by (rule kwrite_area [OF i w', unfolded len])
  have "1 + length ptrs + 1 + 1 + 2 * length (aux_vector info tp) = length ptrs + 19" by (simp add: aux_vector_def)
  then have "stack_init ff info tp ptrs s = Inr (sp, s')"
    unfolding stack_init_def Let_def by (simp only: sp_def [symmetric] ebind_apply push_words_kwrite s'(1)) (simp add: ret_apply)
  then show ?thesis by (rule that [OF _ a(1) _ hi changed_weaken [OF s'(2) order_refl hi] s'(3)]) (use a(3) in simp)
qed


subsection \<open>Booting keeps the program in its memory\<close>

lemma page_alloc_inv:
  fixes s :: "'w vm"
  assumes "vm_inv d s" "page_alloc s = Inr (a, s')"
  shows "vm_inv d s'"
proof -
  note wf = vm_invD(1) [OF assms(1)]
  note a = page_alloc_ok [OF pt_wf_pages [OF wf] assms(2)] and w = page_alloc_wf [OF wf assms(2)]
  have f: "cur_mmap_max s' = cur_mmap_max s" "cur_brk s' = cur_brk s" "cur_brk_max s' = cur_brk_max s" "vmr_base s' = vmr_base s"
    "vmrs s' = vmrs s" "cur_brk_min s' = cur_brk_min s" "first_free_paddr s' = first_free_paddr s" "have_vm s' = have_vm s"
    using a(11) by (cases s; cases s'; simp)+
  have "vm_geom s'" using vm_invD(2) [OF assms(1)] a(5,6) unfolding vm_geom_def by (simp add: f a(9,10))
  moreover have "entry_ok s' b (pte_of s' b)" for b
    using vm_invD(3) [OF assms(1), of b] entry_ok_cong [OF f(4,1,7)] w(2) by simp
  moreover have "refs_ok d s'" using vm_invD(4) [OF assms(1)] refs_ok_cong [OF f(4,5) w(2)] by simp
  ultimately show ?thesis using w(1) by (simp add: vm_inv_def)
qed

lemma page_alloc_kept: "preserves vm_kept page_alloc"
  by (rule vm_keptI [OF area_page_alloc page_alloc_inv])

lemma set_stack_top_inv: "vm_inv d s \<Longrightarrow> vm_inv d (s\<lparr>cur_stack_top := b\<rparr>)"
  using entry_ok_cong [of "s\<lparr>cur_stack_top := b\<rparr>" s] refs_ok_cong [of "s\<lparr>cur_stack_top := b\<rparr>" s d]
  by (auto simp: vm_inv_def vm_geom_def)

lemma pk_vm_init_kept:
  assumes "reads_bounded ff"
  shows "preserves vm_kept (pk_vm_init ff)"
proof -
  have "preserves vm_kept (modify (\<lambda>s. s\<lparr>cur_stack_top := b\<rparr>))" for b
    by (rule vk.keeps_modify) (simp add: vm_kept_def set_stack_top_inv area_step_def)
  moreover have "preserves vm_kept (do_mmap_region ff a l prot (MAP_PRIVATE OR MAP_ANONYMOUS OR MAP_FIXED) None 0)" for a l prot
    by (rule keepsI, erule region_kept [OF assms, rotated]) (simp add: vm_consts)
  ultimately show ?thesis unfolding pk_vm_init_def Let_def by (intro keep_rules page_alloc_kept)
qed

lemma push_kept:
  assumes "reads_bounded ff"
  shows "preserves vm_kept (push_strings ff tp argv)" "preserves vm_kept (push_words ff sp ws)" "preserves vm_kept (stack_init ff info tp ptrs)"
proof -
  show "preserves vm_kept (push_strings ff tp argv)"
    by (induction argv arbitrary: tp) (auto simp: Let_def intro!: keep_rules assms)
  show w: "preserves vm_kept (push_words ff sp ws)" for sp ws
    by (induction ws arbitrary: sp) (auto simp: kstore64_def intro!: keep_rules assms)
  show "preserves vm_kept (stack_init ff info tp ptrs)" unfolding stack_init_def Let_def by (intro keep_rules w)
qed

lemma run_loaded_program_kept:
  "reads_bounded (e_fat ev) \<Longrightarrow> preserves kern_kept (run_loaded_program ev sst info argv)"
  unfolding run_loaded_program_def by (intro keep_rules push_kept)

lemma some_or_wild_kept [keep_rules]: "preserves kern_kept (some_or_wild x)"
  unfolding some_or_wild_def by (intro keep_rules)

lemma redirect_kept: "preserves kern_kept (redirect ev m lt gt ps)"
  by (induction ev m lt gt ps rule: redirect.induct) (auto intro!: keep_rules)

lemma args_parser_kept: "preserves kern_kept (args_parser ev m st buf delim lt gt)"
  unfolding args_parser_def by (intro keep_rules redirect_kept)

definition kern_kept_at :: "u64 \<Rightarrow> 'w kern \<Rightarrow> 'w kern \<Rightarrow> bool" where
  "kern_kept_at m s s' \<longleftrightarrow> kept_at m (kvm s) (kvm s')"

interpretation kka: step_relation "kern_kept_at m" for m
  by unfold_locales (auto simp: kern_kept_at_def ka.R_refl intro: ka.R_trans)

lemma kern_kept_atI: "preserves kern_kept c \<Longrightarrow> preserves (kern_kept_at m) c"
  by (simp add: preserves_def kern_kept_def kern_kept_at_def kept_at_def)

lemma on_vm_kept_at: "preserves (kept_at m) c \<Longrightarrow> preserves (kern_kept_at m) (on_vm c)"
  by (fastforce simp: preserves_def kern_kept_at_def on_vm_def split: sum.splits)

lemma rest_of_boot_loader_kept:
  assumes "reads_bounded (e_fat ev)" "elf_files (e_fat ev) m"
  shows "preserves (kern_kept_at m) (rest_of_boot_loader ev sst phdrs mem buf delim lt gt)"
proof -
  note keep = kern_kept_atI [OF on_files_kept] kern_kept_atI [OF args_parser_kept] kern_kept_atI [OF some_or_wild_kept]
    kern_kept_atI [OF on_vm_kept [OF stops_kept(1)]] on_vm_kept_at [OF load_elf_kept [OF assms]] kern_kept_atI [OF run_loaded_program_kept [OF assms(1)]]
  have "preserves (kern_kept_at m) (case argv of [] \<Rightarrow> on_vm vwild | fn # x \<Rightarrow>
      ebind (on_vm (load_elf (e_fat ev) fn info)) (\<lambda>(info', _). run_loaded_program ev sst info' argv))" for argv info
    by (cases argv) (auto intro!: keep kka.keeps_intros)
  then show ?thesis unfolding rest_of_boot_loader_def Let_def by (intro keep kka.keeps_intros)
qed

text \<open>Setting up the tables does not touch the memory for the program.\<close>

definition same_ram :: "'w vm \<Rightarrow> 'w vm \<Rightarrow> bool" where
  "same_ram s s' \<longleftrightarrow> ram s' = ram s"

interpretation sr: step_relation same_ram
  by unfold_locales (simp_all add: same_ram_def)

lemma walk_create_ram: "walk_create a s = Inr (p, s') \<Longrightarrow> ram s' = ram (s :: 'w vm)"
proof (induction a s rule: walk_create.induct)
  case (1 a s)
  show ?case
  proof (cases "descend (pt_words s) a 2 (root_page_table s)")
    case (Inr q)
    then show ?thesis using 1(2) by (simp add: walk_create.simps [of a s])
  next
    case (Inl q)
    then obtain b t where t: "page_alloc s = Inr (b, t)" "walk_create a (set_pte q (ptd_create (ppn b)) t) = Inr (p, s')"
      using 1(2) by (auto simp: walk_create.simps [of a s] split: sum.splits)
    have "ram t = ram s" using t(1) by (auto simp: page_alloc_def Let_def split: if_splits)
    then show ?thesis using 1(1) [OF Inl t(1) refl t(2)] by simp
  qed
qed

lemma vm_init_ram: "vm_init a b c d e f s = Inr (r, s') \<Longrightarrow> ram s' = ram s"
proof -
  have "preserves same_ram (modify g)" if "\<And>s. ram (g s) = ram s" for g :: "'a vm \<Rightarrow> 'a vm"
    by (rule sr.keeps_modify) (simp add: same_ram_def that)
  note m = this
  have al: "preserves same_ram (page_alloc :: ('a, u64) vexec)"
    by (auto simp: preserves_def same_ram_def page_alloc_def Let_def split: if_splits)
  have w: "preserves same_ram (walk_create x :: ('a, u64) vexec)" for x
    by (simp add: preserves_def same_ram_def walk_create_ram)
  have "preserves same_ram (map_kernel_loop n x off prot :: ('a, unit) vexec)" for n x off prot
    by (induction n arbitrary: x) (auto intro!: sr.keeps_intros w m)
  then have "preserves same_ram (map_kernel_range v p l prot :: ('a, unit) vexec)" for v p l prot by (simp add: map_kernel_range_def)
  then have "preserves same_ram (vm_init a b c d e f :: ('a, unit) vexec)"
    unfolding vm_init_def by (intro sr.keeps_intros al m) (simp_all add: Let_def)
  then show "ram s' = ram s" if "vm_init a b c d e f s = Inr (r, s')" using that by (auto dest!: keepsD simp: same_ram_def)
qed

text \<open>Everything that the boot loader leaves to its program, from the tables on.\<close>

lemma boot_kept:
  assumes "reads_bounded (e_fat ev)" "elf_files (e_fat ev) m" "boot_state base (kvm s)"
    and "m = user_limit base (mem_size (kvm s)) (first_free_paddr (kvm s))"
    and "kernel_area m (push_bit RISCV_PGSHIFT (mem_MASK + 1) - (sbi_term - sbi_start)) (sbi_term - sbi_start)"
    and "kernel_area m bram_BASE (bram_MASK + 1)"
    and "ebind (boot_loader ev base mem_MASK bram_BASE bram_MASK sbi_start sbi_term)
           (\<lambda>_. rest_of_boot_loader ev sst phdrs mem buf delim lt gt) s = Inr (r, t)"
  obtains v where "vm_inv (\<lambda>_. 0) v" "cur_mmap_max v = m" "ram v = ram (kvm s)" "vm_kept v (kvm t)"
proof -
  obtain v where v: "vm_init base mem_MASK bram_BASE bram_MASK sbi_start sbi_term (kvm s) = Inr ((), v)"
    using assms(7) by (auto simp: boot_loader_def exec_simps on_vm_def split: sum.splits)
  let ?s1 = "s\<lparr>kvm := v\<lparr>fs := file_init (fs v)\<rparr>\<rparr>"
  obtain k s2 where s2: "on_vm (pk_vm_init (e_fat ev)) ?s1 = Inr (k, s2)" "rest_of_boot_loader ev sst phdrs mem buf delim lt gt s2 = Inr (r, t)"
    using assms(7) v by (auto simp: boot_loader_def exec_simps on_vm_def [of "vm_init base mem_MASK bram_BASE bram_MASK sbi_start sbi_term"] split: sum.splits)
  note i = vm_init_inv [OF assms(3-6) v]
  have k1: "vm_kept (kvm ?s1) (kvm s2)" using keepsD [OF on_vm_kept [OF pk_vm_init_kept [OF assms(1)]] s2(1)] by (simp add: kern_kept_def)
  have k2: "kept_at m (kvm s2) (kvm t)" using keepsD [OF rest_of_boot_loader_kept [OF assms(1,2)] s2(2)] by (simp add: kern_kept_at_def)
  have i1: "vm_inv (\<lambda>_. 0) (kvm ?s1)" "cur_mmap_max (kvm ?s1) = m" "ram (kvm ?s1) = ram (kvm s)" using i vm_init_ram [OF v] by simp_all
  then have "cur_mmap_max (kvm s2) = m" using k1 by (simp add: vm_kept_def area_step_def)
  then have "vm_kept (kvm ?s1) (kvm t)" using k1 k2 vk.R_trans by (auto simp: kept_at_def)
  with i1 show ?thesis by (rule that)
qed

subsection \<open>An example\<close>

text \<open>A file system with one file, an executable with a segment of two pages of which the file holds the first 128 bytes.\<close>

definition file_fat :: "u8 list \<Rightarrow> toy_world fatfs" where
  "file_fat d = toy_fat\<lparr>f_read := (\<lambda>i n w. ((0, take (unat n) (drop (toy_pos w) d)), w\<lparr>toy_pos := min (toy_pos w + unat n) (length d)\<rparr>))\<rparr>"

definition demo_elf :: "u8 list" where
  "demo_elf =
     [0x7f, 0x45, 0x4c, 0x46, 2, 1, 1, 0, 0, 0, 0, 0, 0, 0, 0, 0, 2, 0, 0xf3, 0, 1, 0, 0, 0] @ le_bytes 8 0x10000 @ le_bytes 8 64 @
     le_bytes 8 0 @ [0, 0, 0, 0, 64, 0, 56, 0, 1, 0, 0, 0, 0, 0, 0, 0] @
     le_bytes 4 1 @ le_bytes 4 7 @ le_bytes 8 0 @ le_bytes 8 0x10000 @ le_bytes 8 0x10000 @ le_bytes 8 128 @ le_bytes 8 0x1800 @
     le_bytes 8 0x1000 @ [1, 2, 3, 4, 5, 6, 7, 8]"

lemma file_fat_bounded: "reads_bounded (file_fat d)"
  by (simp add: reads_bounded_def file_fat_def)

lemma file_fat_reads: "reads_as (file_fat d) f n off bs \<Longrightarrow> bs = take (unat (ucast (of_nat n :: u64) :: u32)) (drop (unat (ucast off :: u32)) d)"
  by (auto simp: reads_as_def file_pread_def file_fat_def toy_fat_def exec_simps fe_apply split: sum.splits prod.splits)

lemma demo_elf_files: "64 \<le> m \<Longrightarrow> elf_files (file_fat demo_elf) m"
proof -
  assume m: "64 \<le> m"
  let ?eh = "ehdr_of (take 64 demo_elf)"
  have e: "unat (e_phnum ?eh) = 1" "e_phoff ?eh = 64" "e_shoff ?eh = 0" "e_shentsize ?eh = 0" by code_simp+
  have p: "segs_ok (phdrs_of 1 (take 56 (drop 64 demo_elf)))" by code_simp
  have sh: "sh_size (shdr_of (take 64 demo_elf)) = 64" by code_simp
  have r: "bs = take 64 demo_elf" if "reads_as (file_fat demo_elf) f 64 0 bs" for f bs
    using file_fat_reads [OF that] by simp
  have q: "bs = take 56 (drop 64 demo_elf)" if "reads_as (file_fat demo_elf) f 56 64 bs" for f bs
    using file_fat_reads [OF that] by simp
  show ?thesis unfolding elf_files_def Let_def SIZEOF_EHDR_def SIZEOF_PHDR_def SIZEOF_SHDR_def
  proof (intro allI impI conjI)
    fix f ehbs assume "reads_as (file_fat demo_elf) f 64 0 ehbs"
    then have eh: "ehbs = take 64 demo_elf" by (rule r)
    show "segs_ok (phdrs_of (unat (e_phnum (ehdr_of ehbs))) phbs)"
      if "reads_as (file_fat demo_elf) f (unat (e_phnum (ehdr_of ehbs)) * 56) (e_phoff (ehdr_of ehbs)) phbs" for phbs
      using that q p unfolding eh e by simp
    show "sh_size (shdr_of shbs) \<le> m"
      if "reads_as (file_fat demo_elf) f 64 (e_shoff (ehdr_of ehbs) + i * ucast (e_shentsize (ehdr_of ehbs))) shbs" for i shbs
      using that r sh m unfolding eh e by simp
  qed
qed

text \<open>The boot loader on the memory of \<open>boot_demo\<close>, with that file system.\<close>

definition boot_env :: "toy_world env" where
  "boot_env = demo_env\<lparr>e_fat := file_fat demo_elf\<rparr>"

text \<open>A program with one program header and the argument \<^verbatim>\<open>ls\<close> is started on the page of the example.\<close>

definition ls_info :: elf_info where
  "ls_info = \<lparr>phent = 56, phnum = 1, phdr = 0, phdr_buf = take 56 (drop 64 demo_elf), phdr_size = 56, entry = 0x10000, t0 = - 1, instret0 = - 1\<rparr>"


end
