(* ===== verification/Spec2Isabelle.thy ===== *)
theory Spec2Isabelle
  imports Cbuf Fp_Emulation Config_String C_String Sdcard Mtrap Pk_Program Pk_Boot
begin

text \<open>
  \<^bold>\<open>A verification development for the C code of the lowRISC tagged-memory SoC.\<close>

  \<^bold>\<open>The program.\<close> On the board, the boot loader under \<^verbatim>\<open>src/fpga/bootloader\<close> runs a program from an SD card.
  Machine mode (\<^verbatim>\<open>machine/\<close>, \<^verbatim>\<open>fs/mtrap.c\<close>, \<^verbatim>\<open>fs/sbi_impl.c\<close>) emulates the instructions and misaligned accesses
  that the core does not execute, serves supervisor calls and interrupts between harts, and holds the file
  system: FatFs over the SD card driver (\<^verbatim>\<open>driver/\<close>). Supervisor mode is a proxy kernel (\<^verbatim>\<open>fs/mmap.c\<close>, \<^verbatim>\<open>file.c\<close>,
  \<^verbatim>\<open>syscall.c\<close>, \<^verbatim>\<open>handlers.c\<close>, \<^verbatim>\<open>elf.c\<close>, \<^verbatim>\<open>bbl.c\<close>): it loads one program and gives it an address space that is filled from files on demand, open
  files and the usual system calls. On the host, the debugger talks to the chip through GLIP, whose circular
  buffer (\<^verbatim>\<open>src/opensocdebug/glip/src/cbuf.c\<close>) all back ends share.

  \<^bold>\<open>Theories, sources and results.\<close>
  \<^item> \<^verbatim>\<open>Prelude\<close>: word, list and option lemmas; the locale \<^verbatim>\<open>refinement\<close> (a step-wise simulation extends to
    sequences of calls).
  \<^item> \<^verbatim>\<open>Cbuf\<close>: \<^verbatim>\<open>cbuf.c\<close>, one record for \<^verbatim>\<open>struct cbuf\<close>, every function. The ring with its power-of-two mask
    implements a bounded byte queue, for any sequence of calls, with no copy outside of its buffer; waits return;
    what a failed \<^verbatim>\<open>realloc\<close> leaves behind.
  \<^item> \<^verbatim>\<open>Machine\<close>: a hart (trap frame, CSRs, hart-local storage), loads and stores with MPRV, faults and
    redirection (\<^verbatim>\<open>mtrap.h\<close>, \<^verbatim>\<open>bits.h\<close>, \<^verbatim>\<open>unprivileged_memory.h\<close>, \<^verbatim>\<open>redirect_trap\<close>), and the error monad \<open>comp\<close> that
    every later theory uses.
  \<^item> \<^verbatim>\<open>Emulation\<close>: \<^verbatim>\<open>misaligned_ldst.c\<close>, \<^verbatim>\<open>muldiv_emulation.c\<close>, the CSR part of \<^verbatim>\<open>emulation.c\<close>; equality with the ISA
    result, and where the C expression is undefined.
  \<^item> \<^verbatim>\<open>Fp_Emulation\<close>: \<^verbatim>\<open>fp_emulation.c\<close>, \<^verbatim>\<open>fp_ldst.c\<close> and the two dispatch tables, over a record of the SoftFloat
    routines; the illegal-instruction handler is precise for every instruction word.
  \<^item> \<^verbatim>\<open>C_String\<close>, \<^verbatim>\<open>Snprintf\<close>, \<^verbatim>\<open>Config_String\<close>: \<^verbatim>\<open>fs/string.c\<close>, \<^verbatim>\<open>fs/snprintf.c\<close>, \<^verbatim>\<open>fs/configstring.c\<close>. Copying,
    comparing and cutting strings in a 64-bit memory; formatted output against a rendering function; the parser
    against a data type of configurations, and where it spins.
  \<^item> \<^verbatim>\<open>Devices\<close>, \<^verbatim>\<open>Sdcard\<close>: \<^verbatim>\<open>uart.c\<close>, \<^verbatim>\<open>rtc.c\<close>, \<^verbatim>\<open>spi.c\<close> and \<^verbatim>\<open>diskio.c\<close>, on registers and a card whose answers are
    given lists; reads, writes and start-up of cards that follow the protocol.
  \<^item> \<^verbatim>\<open>Mtrap\<close>: \<^verbatim>\<open>fs/mtrap.c\<close> and \<^verbatim>\<open>fs/sbi_impl.c\<close> on the state of all harts; the other harts take steps at every
    point where the code waits. Remote fences are executed and return, no wake-up is lost.
  \<^item> \<^verbatim>\<open>Pk_File\<close>: \<^verbatim>\<open>fs/file.c\<close> and what \<^verbatim>\<open>remove_htif.c\<close> does for it, over a record \<open>fatfs\<close> of the FatFs functions;
    the table of open files refines a specification with reference counts; reads are consecutive.
  \<^item> \<^verbatim>\<open>Page_Table\<close>, \<^verbatim>\<open>Vm\<close>, \<^verbatim>\<open>Vm_Invariant\<close>, \<^verbatim>\<open>Vm_Calls\<close>, \<^verbatim>\<open>Vm_Start\<close>: \<^verbatim>\<open>fs/mmap.c\<close> and \<^verbatim>\<open>vm.h\<close>. Three-level tables
    as 64-bit words implement a map (locale \<^verbatim>\<open>pte_map\<close>); regions, page faults, \<^verbatim>\<open>mmap\<close>, \<^verbatim>\<open>munmap\<close>, \<^verbatim>\<open>brk\<close>, \<^verbatim>\<open>mprotect\<close>;
    the invariant \<open>vm_inv\<close> with exact reference counts, kept by any sequence of calls (locale
    \<^verbatim>\<open>kept_by_calls\<close>); demand paging; \<^verbatim>\<open>vm_init\<close>.
  \<^item> \<^verbatim>\<open>User_Mem\<close>, \<^verbatim>\<open>Vm_Frame\<close>: how the kernel reaches the memory of the program (faulting accesses,
    \<^verbatim>\<open>populate_mapping\<close>, \<^verbatim>\<open>va2pa\<close>), and that every operation keeps the invariant and changes physical memory in
    the area of the program only (locale \<^verbatim>\<open>step_relation\<close>, rules \<open>keep_rules\<close>).
  \<^item> \<^verbatim>\<open>Pk_Syscall\<close>, \<^verbatim>\<open>Pk_Trap\<close>, \<^verbatim>\<open>Pk_Program\<close>: \<^verbatim>\<open>fs/syscall.c\<close>, \<^verbatim>\<open>pfc.c\<close> and \<^verbatim>\<open>handlers.c\<close>, every table entry; runs of a
    program as the inductive relation \<open>kruns\<close>. Confinement along runs, transparency of traps, what \<^verbatim>\<open>read\<close>
    and \<^verbatim>\<open>writev\<close> deliver.
  \<^item> \<^verbatim>\<open>Vm_View\<close>: the memory as the program sees it, a page that has been touched or the bytes that it will be filled
    with; touching a page does not change this view, and a store of the kernel changes the stored bytes only.
  \<^item> \<^verbatim>\<open>Pk_Elf\<close>, \<^verbatim>\<open>Pk_Boot\<close>: \<^verbatim>\<open>fs/elf.c\<close> and \<^verbatim>\<open>fs/bbl.c\<close>. Executables with their segments and tags, the command line with
    redirection, the initial stack and the boot sequence. A program starts with its arguments on its stack, and
    from the first step of the boot loader to any point of its run it stays in its memory.

  \<^bold>\<open>Conventions.\<close> Machine integers are words of their C width. A computation is \<open>comp\<close>: it returns \<open>Inl\<close> of an
  exit (redirected trap, panic, failed assertion, undefined behaviour, an access that the model does not
  follow) or \<open>Inr\<close> of a result and a new state. Loops that need not end take fuel or the list of the
  answers of a device and yield \<open>None\<close> when it is used up; the theorems then state how much is enough.
  Loops over pages run on a count that the code bounds. The exit \<open>Wild_Access\<close> stands for a kernel access that
  succeeds outside of the memory of the program: the code makes it (see the findings), the model stops.
  The proxy kernel runs on one hart with free locks; its messages on the console are left out.

  \<^bold>\<open>Not modelled.\<close> FatFs and SoftFloat are third-party code and parameters. Assembly entry code and \<^verbatim>\<open>minit.c\<close>
  (writes to control registers) have no functional content of their own. \<^verbatim>\<open>pk/\<close>, \<^verbatim>\<open>bbl/\<close> and the \<^verbatim>\<open>bare_metal\<close>
  directories are variants that this board does not use. GLIP back ends and the Open SoC Debug host
  software are input and output, threads and callbacks. The chip itself is Scala and Verilog; busybox and
  the tool chain are vendored.
\<close>

end
